(* ===== verification/Prelude.thy ===== *)
theory Prelude
  imports "HOL-Library.Word"
begin

text \<open>
  Vocabulary and automation shared by every component theory: the machine integers of
  the C code, the faults a C program can run into (modelled as error values, so that no
  fault is hidden behind a total HOL function), the sequencing operator for computations
  that may fault, a heap of byte blocks, and the generic list and word lemmas the
  component proofs rest on.
\<close>

section \<open>Machine integers\<close>

type_synonym byte = "8 word"
type_synonym u8 = "8 word"
type_synonym u32 = "32 word"
type_synonym size_t = "64 word"

text \<open>The 64-bit signed kernel type \<open>loff_t\<close> has the representation of a 64-bit word;
  \<open>sint\<close> reads it as signed.\<close>

type_synonym loff_t = "64 word"

abbreviation (input) newline :: byte where
  "newline \<equiv> 10"

section \<open>Faults\<close>

text \<open>
  What C calls undefined behaviour (and what a kernel reports as an oops, a process as a
  segmentation fault) is a value of type \<open>fault\<close>; a computation that may fault has type
  \<open>fault + 'a\<close>.
\<close>

datatype fault =
    NullDeref          \<comment> \<open>a load or store through the null pointer\<close>
  | OutOfBounds        \<comment> \<open>an access outside the object the pointer points into\<close>
  | UseAfterFree       \<comment> \<open>an access to, or a free of, a block that is not allocated\<close>

definition and_then :: "'e + 'a \<Rightarrow> ('a \<Rightarrow> 'e + 'b) \<Rightarrow> 'e + 'b" where
  "and_then m k = (case m of Inl e \<Rightarrow> Inl e | Inr x \<Rightarrow> k x)"

lemma and_then_simps [simp]:
  "and_then (Inl e) k = Inl e"
  "and_then (Inr x) k = k x"
  by (simp_all add: and_then_def)

lemma and_then_eq_Inr [simp]: "and_then m k = Inr y \<longleftrightarrow> (\<exists>x. m = Inr x \<and> k x = Inr y)"
  by (cases m) simp_all

lemma and_then_eq_Inl: "and_then m k = Inl e \<longleftrightarrow> m = Inl e \<or> (\<exists>x. m = Inr x \<and> k x = Inl e)"
  by (cases m) simp_all

lemma and_then_assoc: "and_then (and_then m k) l = and_then m (\<lambda>x. and_then (k x) l)"
  by (cases m) simp_all

section \<open>A heap of byte blocks\<close>

text \<open>
  An address maps to the bytes of the block allocated there; the null pointer is 0.
  A pointer into a block is the address of the block and an index.
\<close>

type_synonym ptr = nat
type_synonym heap = "ptr \<rightharpoonup> byte list"

abbreviation (input) NULL :: ptr where
  "NULL \<equiv> 0"

definition heap_block :: "heap \<Rightarrow> ptr \<Rightarrow> fault + byte list" where
  "heap_block h p =
     (if p = NULL then Inl NullDeref
      else case h p of None \<Rightarrow> Inl UseAfterFree | Some bs \<Rightarrow> Inr bs)"

definition heap_load :: "heap \<Rightarrow> ptr \<Rightarrow> nat \<Rightarrow> fault + byte" where
  "heap_load h p i =
     and_then (heap_block h p) (\<lambda>bs. if i < length bs then Inr (bs ! i) else Inl OutOfBounds)"

definition heap_slice :: "heap \<Rightarrow> ptr \<Rightarrow> nat \<Rightarrow> nat \<Rightarrow> fault + byte list" where
  "heap_slice h p off n =
     (if n = 0 then Inr []
      else and_then (heap_block h p)
        (\<lambda>bs. if off + n \<le> length bs then Inr (take n (drop off bs)) else Inl OutOfBounds))"

text \<open>Overwriting part of a block; the caller has checked the range.\<close>

definition heap_write :: "heap \<Rightarrow> ptr \<Rightarrow> nat \<Rightarrow> byte list \<Rightarrow> heap" where
  "heap_write h p off bs =
     (case h p of
        None \<Rightarrow> h
      | Some old \<Rightarrow> h(p \<mapsto> take off old @ bs @ drop (off + length bs) old))"

lemma heap_block_eq_Inr [simp]: "heap_block h p = Inr bs \<longleftrightarrow> p \<noteq> NULL \<and> h p = Some bs"
  by (auto simp: heap_block_def split: option.splits)

lemma heap_load_eq_Inr [simp]:
  "heap_load h p i = Inr b \<longleftrightarrow> (\<exists>bs. p \<noteq> NULL \<and> h p = Some bs \<and> i < length bs \<and> b = bs ! i)"
  by (auto simp: heap_load_def split: if_splits)

lemma heap_slice_in_bounds:
  "p \<noteq> NULL \<Longrightarrow> h p = Some bs \<Longrightarrow> off + n \<le> length bs \<Longrightarrow>
   heap_slice h p off n = Inr (take n (drop off bs))"
  by (simp add: heap_slice_def heap_block_def)

lemma heap_slice_eq_Inr:
  "heap_slice h p off n = Inr cs \<longleftrightarrow>
     (if n = 0 then cs = []
      else \<exists>bs. p \<noteq> NULL \<and> h p = Some bs \<and> off + n \<le> length bs \<and> cs = take n (drop off bs))"
  by (auto simp: heap_slice_def split: if_splits)

lemma heap_write_Some:
  "h p = Some old \<Longrightarrow> heap_write h p off bs = h(p \<mapsto> take off old @ bs @ drop (off + length bs) old)"
  by (simp add: heap_write_def)

section \<open>Lists\<close>

text \<open>The last \<open>n\<close> elements of a list.\<close>

definition last_n :: "nat \<Rightarrow> 'a list \<Rightarrow> 'a list" where
  "last_n n xs = drop (length xs - n) xs"

lemma length_last_n [simp]: "length (last_n n xs) = min n (length xs)"
  by (auto simp: last_n_def)

lemma map_last_n: "map f (last_n n xs) = last_n n (map f xs)"
  by (simp add: last_n_def drop_map)

lemma last_n_all [simp]: "length xs \<le> n \<Longrightarrow> last_n n xs = xs"
  by (simp add: last_n_def)

lemma last_n_snoc_last_n: "0 < n \<Longrightarrow> last_n n (last_n n xs @ ys) = last_n n (xs @ ys)"
  by (cases "length xs \<le> n") (auto simp: last_n_def min_def add.commute)

lemma last_n_snoc:
  "0 < n \<Longrightarrow> length xs \<le> n \<Longrightarrow>
   last_n n (xs @ [x]) = (if length xs < n then xs else tl xs) @ [x]"
  by (cases xs) (auto simp: last_n_def)

lemma map_filter_cong:
  "(\<And>x. x \<in> set xs \<Longrightarrow> P x = Q x \<and> f x = g x) \<Longrightarrow> map f (filter P xs) = map g (filter Q xs)"
  by (induction xs) auto

text \<open>
  \<open>locate ss p\<close> finds the position \<open>p\<close> in a sequence of segments of the given sizes: the
  index of the segment and the offset within it.
\<close>

fun locate :: "nat list \<Rightarrow> nat \<Rightarrow> (nat \<times> nat) option" where
  "locate [] p = None"
| "locate (s # ss) p =
     (if p < s then Some (0, p) else map_option (map_prod Suc id) (locate ss (p - s)))"

lemma locate_None_iff: "locate ss p = None \<longleftrightarrow> sum_list ss \<le> p"
proof (induction ss arbitrary: p)
  case Nil
  then show ?case by simp
next
  case (Cons s ss)
  show ?case
  proof (cases "p < s")
    case True
    then show ?thesis by simp
  next
    case False
    then show ?thesis by (simp add: Cons.IH) linarith
  qed
qed

lemma locate_Some_iff:
  "locate ss p = Some (j, off) \<longleftrightarrow>
     j < length ss \<and> off < ss ! j \<and> p = sum_list (take j ss) + off"
proof (induction ss arbitrary: p j)
  case Nil
  then show ?case by simp
next
  case (Cons s ss)
  show ?case
    by (cases j) (auto simp: Cons.IH)
qed

lemma locate_append_zeros: "locate (ss @ replicate k 0) p = locate ss p"
proof (induction ss arbitrary: p)
  case Nil
  show ?case by (simp add: locate_None_iff sum_list_replicate)
next
  case (Cons s ss)
  then show ?case by simp
qed

lemma sum_list_take_le: "j < length ss \<Longrightarrow> sum_list (take j ss) + ss ! j \<le> sum_list (ss :: nat list)"
  by (induction ss arbitrary: j) (auto simp: nth_Cons split: nat.splits)

text \<open>Locating a position in the lengths of the pieces of a concatenation.\<close>

lemma locate_concat:
  "locate (map length xss) p = Some (j, off) \<Longrightarrow>
   drop p (concat xss) = drop off (xss ! j) @ concat (drop (Suc j) xss)"
proof (induction xss arbitrary: p j)
  case Nil
  then show ?case by simp
next
  case (Cons xs xss)
  show ?case
  proof (cases "p < length xs")
    case True
    with Cons.prems show ?thesis by auto
  next
    case False
    with Cons.prems obtain j' where "locate (map length xss) (p - length xs) = Some (j', off)"
      and "j = Suc j'" by auto
    with Cons.IH False show ?thesis by simp
  qed
qed

lemma concat_nonempty_at: "locate (map length xss) p = Some (j, off) \<Longrightarrow> p < length (concat xss)"
  using locate_None_iff [of "map length xss" p] by (auto simp: length_concat not_le)

lemma sum_list_le_mult: "(\<And>x. x \<in> set xs \<Longrightarrow> x \<le> m) \<Longrightarrow> sum_list xs \<le> length xs * (m :: nat)"
  by (induction xs) (simp_all add: add_mono)

section \<open>Arithmetic modulo a ring size\<close>

lemma mod_add_inj:
  fixes a i j :: nat
  assumes "i \<le> j" and "j < n" and "(a + i) mod n = (a + j) mod n"
  shows "i = j"
proof (rule ccontr)
  assume "i \<noteq> j"
  with assms(1) have "0 < j - i" by simp
  moreover from assms have "n dvd j - i"
    using mod_eq_dvd_iff_nat [of "a + i" "a + j" n] by simp
  ultimately have "n \<le> j - i" by (simp add: dvd_imp_le)
  with assms show False by simp
qed

lemma mod_Suc_add: "(Suc a mod n + j) mod n = (a + Suc j) mod (n :: nat)"
  by (metis add_Suc_right add_Suc mod_add_left_eq)

section \<open>Words\<close>

text \<open>The collection \<open>no_wrap\<close>: word arithmetic that stays in range is arithmetic of \<open>nat\<close>.\<close>

named_theorems no_wrap "word operations that do not wrap around"

lemma unat_of_nat_lt [no_wrap]: "n < 2 ^ LENGTH('a) \<Longrightarrow> unat (of_nat n :: 'a :: len word) = n"
  by (simp add: unat_of_nat take_bit_nat_eq_self)

lemma unat_bound: "unat (x :: 'a :: len word) < 2 ^ LENGTH('a)"
  by (rule unsigned_less)

lemma unat_plus_no_overflow [no_wrap]:
  "unat x + unat y < 2 ^ LENGTH('a) \<Longrightarrow> unat (x + y :: 'a :: len word) = unat x + unat y"
  by (simp add: unat_word_ariths)

lemma unat_minus_le [no_wrap]: "unat y \<le> unat x \<Longrightarrow> unat (x - y :: 'a :: len word) = unat x - unat y"
  by (simp add: unat_sub word_le_nat_alt)

text \<open>A 32-bit \<open>int\<close> that holds a small non-negative number, converted to 64 bits and back.\<close>

lemma scast_of_nat_small:
  "n < 2 ^ 31 \<Longrightarrow> (scast (of_nat n :: 32 word) :: 64 word) = of_nat n"
proof -
  assume "n < 2 ^ 31"
  then have "signed_take_bit 31 (int n) = int n"
    by (intro signed_take_bit_int_eq_self) simp_all
  then show ?thesis by (simp add: signed_of_nat)
qed

text \<open>Reading 2^31 and more back as a signed number subtracts 2^32.\<close>

lemma scast_of_nat_negative:
  assumes "2 ^ 31 \<le> n" and "n < 2 ^ 32"
  shows "(scast (of_nat n :: 32 word) :: 64 word) = of_nat (n + 2 ^ 64 - 2 ^ 32)"
proof -
  have "take_bit 32 (int n) = take_bit 32 (int n - 2 ^ 32)"
    by (simp add: take_bit_eq_mod)
  then have "signed_take_bit 31 (int n) = signed_take_bit 31 (int n - 2 ^ 32)"
    by (simp add: signed_take_bit_eq_iff_take_bit_eq)
  also have "\<dots> = int n - 2 ^ 32"
    using assms by (intro signed_take_bit_int_eq_self) simp_all
  finally have "(scast (of_nat n :: 32 word) :: 64 word) = word_of_int (int n - 2 ^ 32)"
    by (simp add: signed_of_nat)
  also have "\<dots> = word_of_int (int n - 2 ^ 32 + 2 ^ 64)" by simp
  also have "int n - 2 ^ 32 + 2 ^ 64 = int (n + 2 ^ 64 - 2 ^ 32)" using assms by simp
  finally show ?thesis by (simp only: of_int_of_nat_eq)
qed

lemma ucast_of_nat: "(ucast (of_nat n :: 64 word) :: 32 word) = of_nat n"
  by (simp only: unsigned_of_nat word_of_nat_eq_iff) (simp add: min_def)

text \<open>
  The accumulation \<open>int += size_t\<close>: the sum, in 32 bits, as long as the \<open>int\<close> is not negative.
\<close>

lemma int_accumulate:
  assumes "T < 2 ^ 31"
  shows "(ucast (scast (of_nat T :: 32 word) + sz :: 64 word) :: 32 word) = of_nat (T + unat sz)"
proof -
  have "(scast (of_nat T :: 32 word) + sz :: 64 word) = of_nat (T + unat sz)"
    using assms by (simp add: scast_of_nat_small)
  then show ?thesis by (simp only: ucast_of_nat)
qed

end
