(* ===== verification/Fifo_Interface.thy ===== *)
theory Fifo_Interface
  imports Prelude
begin

text \<open>
  The contract between the listener and its queue of thread instances: a first-in
  first-out queue of non-null pointers with removal by value. Operations return \<open>None\<close>
  if they do not return, a fault if they touch memory they must not, else a result and the
  new state. \<open>rep s xs\<close> says that state \<open>s\<close> holds the elements \<open>xs\<close>, oldest first;
  \<open>fresh a s\<close> that \<open>a\<close> is an address the allocator may return.
\<close>

text \<open>
  Sequences of operations, on an implementation and on a list. An enqueue comes with whether
  there is memory for it; \<open>alloc\<close> is the allocator, which depends on the state.
\<close>

datatype fifo_op = Enqueue bool ptr | Dequeue | Remove ptr

datatype fifo_result = Accepted bool | Taken ptr | Found bool

fun fifo_run ::
  "(ptr \<Rightarrow> ptr \<Rightarrow> 's \<Rightarrow> (fault + bool \<times> 's) option) \<Rightarrow> ('s \<Rightarrow> fault + ptr \<times> 's) \<Rightarrow>
   (ptr \<Rightarrow> 's \<Rightarrow> (fault + bool \<times> 's) option) \<Rightarrow> ('s \<Rightarrow> ptr) \<Rightarrow>
   fifo_op list \<Rightarrow> 's \<Rightarrow> (fault + fifo_result list \<times> 's) option" where
  "fifo_run enq deq rm alloc [] s = Some (Inr ([], s))"
| "fifo_run enq deq rm alloc (op # ops) s =
     Option.bind
       (case op of
          Enqueue mem x \<Rightarrow>
            map_option (\<lambda>r. and_then r (\<lambda>(b, s'). Inr (Accepted b, s'))) (enq (if mem then alloc s else NULL) x s)
        | Dequeue \<Rightarrow> Some (and_then (deq s) (\<lambda>(x, s'). Inr (Taken x, s')))
        | Remove x \<Rightarrow> map_option (\<lambda>r. and_then r (\<lambda>(b, s'). Inr (Found b, s'))) (rm x s))
       (\<lambda>r. case r of
          Inl f \<Rightarrow> Some (Inl f)
        | Inr (res, s') \<Rightarrow>
            map_option (\<lambda>r'. and_then r' (\<lambda>(rs, s''). Inr (res # rs, s''))) (fifo_run enq deq rm alloc ops s'))"

fun list_op :: "fifo_op \<Rightarrow> ptr list \<Rightarrow> fifo_result \<times> ptr list" where
  "list_op (Enqueue mem x) xs = (Accepted mem, if mem then xs @ [x] else xs)"
| "list_op Dequeue xs = (Taken (case xs of [] \<Rightarrow> NULL | x # _ \<Rightarrow> x), tl xs)"
| "list_op (Remove x) xs = (Found (x \<in> set xs), remove1 x xs)"

fun list_run :: "fifo_op list \<Rightarrow> ptr list \<Rightarrow> fifo_result list \<times> ptr list" where
  "list_run [] xs = ([], xs)"
| "list_run (op # ops) xs =
     (case list_op op xs of (res, xs') \<Rightarrow> case list_run ops xs' of (rs, xs'') \<Rightarrow> (res # rs, xs''))"

locale fifo =
  fixes enqueue :: "ptr \<Rightarrow> ptr \<Rightarrow> 's \<Rightarrow> (fault + bool \<times> 's) option"
    and dequeue :: "'s \<Rightarrow> fault + ptr \<times> 's"
    and remove :: "ptr \<Rightarrow> 's \<Rightarrow> (fault + bool \<times> 's) option"
    and rep :: "'s \<Rightarrow> ptr list \<Rightarrow> bool"
    and fresh :: "ptr \<Rightarrow> 's \<Rightarrow> bool"
  assumes enqueue_ok: "rep s xs \<Longrightarrow> fresh a s \<Longrightarrow>
        \<exists>s'. enqueue a x s = Some (Inr (True, s')) \<and> rep s' (xs @ [x])"
    and enqueue_no_memory: "enqueue NULL x s = Some (Inr (False, s))"
    and dequeue_empty: "rep s [] \<Longrightarrow> dequeue s = Inr (NULL, s)"
    and dequeue_ok: "rep s (x # xs) \<Longrightarrow> \<exists>s'. dequeue s = Inr (x, s') \<and> rep s' xs"
    and remove_ok: "rep s xs \<Longrightarrow>
        \<exists>s'. remove x s = Some (Inr (x \<in> set xs, s')) \<and> rep s' (remove1 x xs)"
begin

text \<open>Taking elements out until the null pointer appears, as the shutdown loop does.\<close>

lemma drain_step:
  assumes "rep s xs" and "NULL \<notin> set xs"
  shows "\<exists>s'. dequeue s = Inr (case xs of [] \<Rightarrow> NULL | x # _ \<Rightarrow> x, s') \<and> rep s' (tl xs) \<and>
     ((case xs of [] \<Rightarrow> NULL | x # _ \<Rightarrow> x) = NULL \<longleftrightarrow> xs = [])"
  using assms dequeue_empty [of s] dequeue_ok [of s "hd xs" "tl xs"] by (cases xs) auto

text \<open>Every sequence of operations returns, without a fault, what it returns on the list.\<close>

lemma run_refines:
  assumes alloc: "\<And>t ys. rep t ys \<Longrightarrow> fresh (alloc t) t"
  shows "rep s xs \<Longrightarrow>
    \<exists>s'. fifo_run enqueue dequeue remove alloc ops s = Some (Inr (fst (list_run ops xs), s')) \<and>
      rep s' (snd (list_run ops xs))"
proof (induction ops arbitrary: s xs)
  case Nil
  then show ?case by simp
next
  case (Cons op ops)
  have "\<exists>s1. (case op of
          Enqueue mem x \<Rightarrow>
            map_option (\<lambda>r. and_then r (\<lambda>(b, s'). Inr (Accepted b, s'))) (enqueue (if mem then alloc s else NULL) x s)
        | Dequeue \<Rightarrow> Some (and_then (dequeue s) (\<lambda>(x, s'). Inr (Taken x, s')))
        | Remove x \<Rightarrow> map_option (\<lambda>r. and_then r (\<lambda>(b, s'). Inr (Found b, s'))) (remove x s)) =
       Some (Inr (fst (list_op op xs), s1)) \<and> rep s1 (snd (list_op op xs))"
  proof (cases op)
    case (Enqueue mem x)
    then show ?thesis
      using enqueue_ok [OF Cons.prems alloc [OF Cons.prems], of x] enqueue_no_memory [of x s] Cons.prems
      by (cases mem) auto
  next
    case Dequeue
    then show ?thesis
      using dequeue_empty [of s] dequeue_ok [of s "hd xs" "tl xs"] Cons.prems by (cases xs) auto
  next
    case (Remove x)
    then show ?thesis using remove_ok [OF Cons.prems, of x] by auto
  qed
  then obtain s1 where s1: "fifo_run enqueue dequeue remove alloc (op # ops) s =
      map_option (\<lambda>r'. and_then r' (\<lambda>(rs, s''). Inr (fst (list_op op xs) # rs, s'')))
        (fifo_run enqueue dequeue remove alloc ops s1)" "rep s1 (snd (list_op op xs))"
    by (auto simp del: and_then_eq_Inr)
  with Cons.IH [OF s1(2)] show ?case by (auto simp: case_prod_unfold)
qed

text \<open>An element put in last comes out after all that were there.\<close>

lemma enqueue_then_remove:
  assumes "rep s xs" and "fresh a s" and "x \<notin> set xs"
  shows "\<exists>s1 s2. enqueue a x s = Some (Inr (True, s1)) \<and> remove x s1 = Some (Inr (True, s2)) \<and> rep s2 xs"
proof -
  obtain s1 where "enqueue a x s = Some (Inr (True, s1))" and r1: "rep s1 (xs @ [x])"
    using enqueue_ok [OF assms(1,2)] by blast
  moreover obtain s2 where "remove x s1 = Some (Inr (True, s2))" and "rep s2 xs"
    using remove_ok [OF r1, of x] assms(3) by (auto simp: remove1_append)
  ultimately show ?thesis by blast
qed

text \<open>Removing an element that is not there changes nothing observable.\<close>

lemma remove_absent:
  "rep s xs \<Longrightarrow> x \<notin> set xs \<Longrightarrow> \<exists>s'. remove x s = Some (Inr (False, s')) \<and> rep s' xs"
  using remove_ok [of s xs x] by (auto simp: remove1_idem)

end

end
