(* ===== verification/Thread_Queue.thy ===== *)
theory Thread_Queue
  imports Fifo_Interface
begin

text \<open>
  Model of server/thread_queue.c: a singly linked list of allocated nodes behind a global
  head pointer. The nodes live in a heap of their own; the address \<open>malloc\<close> returns is an
  argument of the operation that calls it (null when memory is exhausted). Loops along the
  list are modelled as loops that might not end (on a cyclic list they would not) and that
  fault on a dangling pointer; on a well-formed list neither happens.
\<close>

section \<open>Data\<close>

record node =
  data :: ptr
  next_node :: ptr

record queue =
  head :: ptr
  nodes :: "ptr \<rightharpoonup> node"

definition empty_queue :: queue where
  "empty_queue = \<lparr>head = NULL, nodes = Map.empty\<rparr>"

definition node_at :: "(ptr \<rightharpoonup> node) \<Rightarrow> ptr \<Rightarrow> fault + node" where
  "node_at ns p =
     (if p = NULL then Inl NullDeref
      else case ns p of None \<Rightarrow> Inl UseAfterFree | Some n \<Rightarrow> Inr n)"

section \<open>Operations\<close>

text \<open>\<open>while(current->next != NULL) current = current->next\<close>\<close>

partial_function (option) last_node :: "(ptr \<rightharpoonup> node) \<Rightarrow> ptr \<Rightarrow> (fault + ptr) option" where
  "last_node ns current =
     (case node_at ns current of
        Inl f \<Rightarrow> Some (Inl f)
      | Inr n \<Rightarrow> if next_node n = NULL then Some (Inr current) else last_node ns (next_node n))"

definition queue_enqueue :: "ptr \<Rightarrow> ptr \<Rightarrow> queue \<Rightarrow> (fault + bool \<times> queue) option" where
  "queue_enqueue new_node x q =
     (if new_node = NULL then Some (Inr (False, q))
      else
        let ns = (nodes q)(new_node \<mapsto> \<lparr>data = x, next_node = NULL\<rparr>) in
        if head q = NULL then Some (Inr (True, q\<lparr>head := new_node, nodes := ns\<rparr>))
        else
          Option.bind (last_node ns (head q))
            (\<lambda>r. Some (and_then r (\<lambda>current.
               and_then (node_at ns current) (\<lambda>n.
                 Inr (True, q\<lparr>nodes := ns(current \<mapsto> n\<lparr>next_node := new_node\<rparr>)\<rparr>))))))"

definition queue_dequeue :: "queue \<Rightarrow> fault + ptr \<times> queue" where
  "queue_dequeue q =
     (if head q = NULL then Inr (NULL, q)
      else and_then (node_at (nodes q) (head q))
        (\<lambda>n. Inr (data n, q\<lparr>head := next_node n, nodes := (nodes q)(head q := None)\<rparr>)))"

text \<open>The search loop of \<open>queue_remove\<close>, with its two pointers.\<close>

partial_function (option) remove_loop ::
  "ptr \<Rightarrow> ptr \<Rightarrow> ptr \<Rightarrow> queue \<Rightarrow> (fault + bool \<times> queue) option" where
  "remove_loop x current prev q =
     (if current = NULL then Some (Inr (False, q))
      else
        case node_at (nodes q) current of
          Inl f \<Rightarrow> Some (Inl f)
        | Inr n \<Rightarrow>
            if data n = x then
              (if prev = NULL
               then Some (Inr (True, q\<lparr>head := next_node n, nodes := (nodes q)(current := None)\<rparr>))
               else
                 Some (and_then (node_at (nodes q) prev) (\<lambda>p.
                   Inr (True, q\<lparr>nodes := ((nodes q)(prev \<mapsto> p\<lparr>next_node := next_node n\<rparr>))(current := None)\<rparr>))))
            else remove_loop x (next_node n) current q)"

definition queue_remove :: "ptr \<Rightarrow> queue \<Rightarrow> (fault + bool \<times> queue) option" where
  "queue_remove x q =
     (if head q = NULL then Some (Inr (False, q)) else remove_loop x (head q) NULL q)"

definition queue_get_head :: "queue \<Rightarrow> ptr" where
  "queue_get_head q = head q"

section \<open>Well-formed lists\<close>

text \<open>\<open>chain ns p as z\<close>: following the next pointers from \<open>p\<close> visits the nodes \<open>as\<close> and
  arrives at \<open>z\<close>.\<close>

fun chain :: "(ptr \<rightharpoonup> node) \<Rightarrow> ptr \<Rightarrow> ptr list \<Rightarrow> ptr \<Rightarrow> bool" where
  "chain ns p [] z \<longleftrightarrow> p = z"
| "chain ns p (a # as) z \<longleftrightarrow>
     p = a \<and> a \<noteq> NULL \<and> (\<exists>n. ns a = Some n \<and> chain ns (next_node n) as z)"

definition node_data :: "(ptr \<rightharpoonup> node) \<Rightarrow> ptr \<Rightarrow> ptr" where
  "node_data ns a = (case ns a of None \<Rightarrow> NULL | Some n \<Rightarrow> data n)"

definition queue_nodes :: "queue \<Rightarrow> ptr list \<Rightarrow> bool" where
  "queue_nodes q as \<longleftrightarrow> chain (nodes q) (head q) as NULL \<and> distinct as \<and> dom (nodes q) = set as"

definition queue_rep :: "queue \<Rightarrow> ptr list \<Rightarrow> bool" where
  "queue_rep q xs \<longleftrightarrow> (\<exists>as. queue_nodes q as \<and> xs = map (node_data (nodes q)) as)"

definition queue_fresh :: "ptr \<Rightarrow> queue \<Rightarrow> bool" where
  "queue_fresh a q \<longleftrightarrow> a \<noteq> NULL \<and> nodes q a = None"

lemma chain_append:
  "chain ns p (as @ bs) z \<longleftrightarrow> (\<exists>y. chain ns p as y \<and> chain ns y bs z)"
  by (induction as arbitrary: p) auto

lemma chain_frame: "\<forall>a \<in> set as. ns' a = ns a \<Longrightarrow> chain ns' p as z = chain ns p as z"
  by (induction as arbitrary: p) auto

lemma chain_upd [simp]: "u \<notin> set as \<Longrightarrow> chain (ns(u := v)) p as z = chain ns p as z"
  by (rule chain_frame) auto

lemma chain_nonnull: "chain ns p as z \<Longrightarrow> a \<in> set as \<Longrightarrow> a \<noteq> NULL \<and> ns a \<noteq> None"
  by (induction as arbitrary: p) auto

lemma chain_NULL [simp]: "chain ns NULL as NULL \<longleftrightarrow> as = []"
  by (cases as) auto

lemma chain_head: "chain ns p as NULL \<Longrightarrow> p \<noteq> NULL \<Longrightarrow> \<exists>bs. as = p # bs"
  by (cases as) auto

lemma node_at_Inr [simp]: "node_at ns p = Inr n \<longleftrightarrow> p \<noteq> NULL \<and> ns p = Some n"
  by (auto simp: node_at_def split: option.splits)

lemma map_node_data_upd [simp]:
  "u \<notin> set as \<Longrightarrow> map (node_data (ns(u := v))) as = map (node_data ns) as"
  by (auto simp: node_data_def)

lemma queue_rep_empty [simp]: "queue_rep empty_queue []"
  by (simp add: queue_rep_def queue_nodes_def empty_queue_def)

lemma queue_rep_Nil: "queue_rep q [] \<Longrightarrow> head q = NULL"
  by (auto simp: queue_rep_def queue_nodes_def)

section \<open>Correctness\<close>

lemma last_node_chain:
  "chain ns p (as @ [a]) NULL \<Longrightarrow> last_node ns p = Some (Inr a)"
proof (induction as arbitrary: p)
  case Nil
  then show ?case by (auto simp: last_node.simps node_at_def)
next
  case (Cons b as)
  then obtain n where n: "p = b" "b \<noteq> NULL" "ns b = Some n" "chain ns (next_node n) (as @ [a]) NULL"
    by auto
  then have "next_node n \<noteq> NULL"
    by (metis chain_NULL append_is_Nil_conv not_Cons_self2)
  with n Cons.IH [of "next_node n"] show ?case
    by (subst last_node.simps) (simp add: node_at_def)
qed

lemma enqueue_correct:
  assumes "queue_rep q xs" and "queue_fresh a q"
  shows "\<exists>q'. queue_enqueue a x q = Some (Inr (True, q')) \<and> queue_rep q' (xs @ [x])"
proof -
  obtain as where ch: "chain (nodes q) (head q) as NULL" and dist: "distinct as"
    and dom: "dom (nodes q) = set as" and xs: "xs = map (node_data (nodes q)) as"
    using assms(1) by (auto simp: queue_rep_def queue_nodes_def)
  have a: "a \<noteq> NULL" "nodes q a = None" "a \<notin> set as"
    using assms(2) dom by (auto simp: queue_fresh_def)
  let ?ns = "(nodes q)(a \<mapsto> \<lparr>data = x, next_node = NULL\<rparr>)"
  show ?thesis
  proof (cases as rule: rev_cases)
    case Nil
    then have "head q = NULL" using ch by simp
    with a Nil xs dom show ?thesis
      by (auto simp: queue_enqueue_def queue_rep_def queue_nodes_def node_data_def
          intro!: exI [of _ "[a]"])
  next
    case (snoc bs b)
    then have chb: "chain ?ns (head q) (bs @ [b]) NULL" using ch a by simp
    then have "head q \<noteq> NULL" by (cases bs) auto
    from chb obtain n where n: "?ns b = Some n" "b \<noteq> NULL" "next_node n = NULL"
        "chain ?ns (head q) bs b"
      by (auto simp: chain_append)
    let ?ns' = "?ns(b \<mapsto> n\<lparr>next_node := a\<rparr>)"
    have b: "b \<notin> set bs" "b \<noteq> a" using dist snoc a by auto
    have "queue_enqueue a x q = Some (Inr (True, q\<lparr>nodes := ?ns'\<rparr>))"
      using a n \<open>head q \<noteq> NULL\<close> last_node_chain [OF chb]
      by (simp add: queue_enqueue_def Let_def node_at_def del: fun_upd_apply)
    moreover have "chain ?ns' (head q) (as @ [a]) NULL"
      using n a b snoc by (auto simp: chain_append)
    moreover have "map (node_data ?ns') (as @ [a]) = xs @ [x]"
      using n b a snoc xs by (auto simp: node_data_def split: if_splits)
    ultimately show ?thesis
      using dist a dom snoc
      by (auto simp: queue_rep_def queue_nodes_def intro!: exI [of _ "as @ [a]"])
  qed
qed

lemma dequeue_correct:
  assumes "queue_rep q (x # xs)"
  shows "\<exists>q'. queue_dequeue q = Inr (x, q') \<and> queue_rep q' xs"
proof -
  obtain a as where ch: "chain (nodes q) (head q) (a # as) NULL" and dist: "distinct (a # as)"
    and dom: "dom (nodes q) = set (a # as)" and xs: "x # xs = map (node_data (nodes q)) (a # as)"
    using assms by (auto simp: queue_rep_def queue_nodes_def)
  then obtain n where n: "head q = a" "a \<noteq> NULL" "nodes q a = Some n" "chain (nodes q) (next_node n) as NULL"
    by auto
  let ?q = "q\<lparr>head := next_node n, nodes := (nodes q)(a := None)\<rparr>"
  have "queue_dequeue q = Inr (x, ?q)" using n xs by (simp add: queue_dequeue_def node_at_def node_data_def)
  moreover have "queue_nodes ?q as" using n dist dom by (auto simp: queue_nodes_def)
  moreover have "xs = map (node_data (nodes ?q)) as" using xs dist by simp
  ultimately show ?thesis by (auto simp: queue_rep_def)
qed

text \<open>
  Unlinking one node: the other nodes stay where they are, in order, with their data.
\<close>

definition unlinked :: "queue \<Rightarrow> queue \<Rightarrow> ptr list \<Rightarrow> bool" where
  "unlinked q q' as \<longleftrightarrow> queue_nodes q' as \<and>
     (\<forall>a \<in> set as. node_data (nodes q') a = node_data (nodes q) a)"

lemma unlinked_rep: "unlinked q q' as \<Longrightarrow> queue_rep q' (map (node_data (nodes q)) as)"
  by (auto simp: unlinked_def queue_rep_def intro!: exI [of _ as])

lemma unlink_first:
  assumes "queue_nodes q (a # rest)" and "nodes q a = Some n"
  shows "unlinked q (q\<lparr>head := next_node n, nodes := (nodes q)(a := None)\<rparr>) rest"
  using assms by (auto simp: queue_nodes_def unlinked_def node_data_def)

lemma unlink_after:
  assumes q: "queue_nodes q (ps @ p # a # rest)"
    and n: "nodes q a = Some n" "nodes q p = Some m"
  shows "unlinked q (q\<lparr>nodes := ((nodes q)(p \<mapsto> m\<lparr>next_node := next_node n\<rparr>))(a := None)\<rparr>)
     (ps @ p # rest)"
proof -
  let ?ns = "((nodes q)(p \<mapsto> m\<lparr>next_node := next_node n\<rparr>))(a := None)"
  from q have dist: "distinct (ps @ p # a # rest)" and dom: "dom (nodes q) = set (ps @ p # a # rest)"
    and ch: "chain (nodes q) (head q) (ps @ p # a # rest) NULL"
    by (simp_all add: queue_nodes_def)
  from ch n have "chain (nodes q) (head q) ps p" "chain (nodes q) (next_node n) rest NULL" "p \<noteq> NULL"
    by (auto simp: chain_append)
  then have "chain ?ns (head q) (ps @ p # rest) NULL"
    using dist by (auto simp: chain_append)
  moreover have "dom ?ns = set (ps @ p # rest)" using dom dist by auto
  moreover have "node_data ?ns b = node_data (nodes q) b" if "b \<in> set (ps @ p # rest)" for b
    using dist n that by (auto simp: node_data_def)
  ultimately show ?thesis
    using dist by (simp add: queue_nodes_def unlinked_def)
qed

text \<open>
  The loop of \<open>queue_remove\<close> from any point of the list, the visited nodes \<open>pre\<close> not holding
  the element: it unlinks the first node that holds it, if there is one.
\<close>

lemma remove_loop_absent:
  assumes "queue_nodes q (pre @ rest)" and "chain (nodes q) current rest NULL"
    and "x \<notin> set (map (node_data (nodes q)) rest)"
  shows "remove_loop x current prev q = Some (Inr (False, q))"
  using assms
proof (induction rest arbitrary: pre current prev)
  case Nil
  then show ?case by (simp add: remove_loop.simps)
next
  case (Cons a rest)
  then obtain n where n: "current = a" "a \<noteq> NULL" "nodes q a = Some n" "data n \<noteq> x"
      "chain (nodes q) (next_node n) rest NULL"
    by (auto simp: node_data_def)
  then have "remove_loop x current prev q = remove_loop x (next_node n) a q"
    by (subst remove_loop.simps) (simp add: node_at_def)
  with Cons.IH [of "pre @ [a]" "next_node n" a] Cons.prems n show ?case by simp
qed

lemma remove_loop_present:
  assumes "queue_nodes q (pre @ mid @ a # rest)" and "chain (nodes q) current (mid @ a # rest) NULL"
    and "prev = (if pre = [] then NULL else last pre)"
    and "node_data (nodes q) a = x" and "x \<notin> set (map (node_data (nodes q)) mid)"
  shows "\<exists>q'. remove_loop x current prev q = Some (Inr (True, q')) \<and> unlinked q q' (pre @ mid @ rest)"
  using assms
proof (induction mid arbitrary: pre current prev)
  case Nil
  then obtain n where n: "current = a" "a \<noteq> NULL" "nodes q a = Some n" "data n = x"
    by (auto simp: node_data_def)
  show ?case
  proof (cases pre rule: rev_cases)
    case Nil': Nil
    with Nil n unlink_first [of q a rest n] show ?thesis
      by (subst remove_loop.simps) (simp add: node_at_def)
  next
    case (snoc ps p)
    then obtain m where "nodes q p = Some m" "p \<noteq> NULL"
      using Nil.prems(1) by (auto simp: queue_nodes_def chain_append)
    with Nil.prems snoc n unlink_after [of q ps p a rest n m] show ?thesis
      by (subst remove_loop.simps) (simp add: node_at_def)
  qed
next
  case (Cons b mid)
  then obtain n where n: "current = b" "b \<noteq> NULL" "nodes q b = Some n" "data n \<noteq> x"
      "chain (nodes q) (next_node n) (mid @ a # rest) NULL"
    by (auto simp: node_data_def)
  then have "remove_loop x current prev q = remove_loop x (next_node n) b q"
    by (subst remove_loop.simps) (simp add: node_at_def)
  with Cons.IH [of "pre @ [b]" "next_node n" b] Cons.prems n show ?case by simp
qed

text \<open>Removing the element a given node holds, when no earlier node holds it.\<close>

lemma queue_remove_node:
  assumes "queue_nodes q (pre @ a # rest)" and "node_data (nodes q) a \<notin> set (map (node_data (nodes q)) pre)"
  shows "\<exists>q'. queue_remove (node_data (nodes q) a) q = Some (Inr (True, q')) \<and> unlinked q q' (pre @ rest)"
proof -
  have "chain (nodes q) (head q) (pre @ a # rest) NULL" using assms(1) by (simp add: queue_nodes_def)
  moreover from this have "head q \<noteq> NULL" by (metis chain_NULL append_is_Nil_conv list.distinct(1))
  ultimately show ?thesis
    using remove_loop_present [of q "[]" pre a rest "head q" NULL] assms by (simp add: queue_remove_def)
qed

lemma remove_correct:
  assumes "queue_rep q xs"
  shows "\<exists>q'. queue_remove x q = Some (Inr (x \<in> set xs, q')) \<and> queue_rep q' (remove1 x xs)"
proof -
  obtain as where q: "queue_nodes q as" and xs: "xs = map (node_data (nodes q)) as"
    using assms by (auto simp: queue_rep_def)
  show ?thesis
  proof (cases "x \<in> set xs")
    case False
    then show ?thesis
      using remove_loop_absent [of q "[]" as "head q" x NULL] q xs assms
      by (auto simp: queue_remove_def queue_nodes_def remove1_idem)
  next
    case True
    then obtain ys zs where split: "xs = ys @ x # zs" "x \<notin> set ys" by (meson split_list_first)
    with xs obtain pre a rest where as: "as = pre @ a # rest" "ys = map (node_data (nodes q)) pre"
        "x = node_data (nodes q) a" "zs = map (node_data (nodes q)) rest"
      by (auto simp: map_eq_append_conv map_eq_Cons_conv Cons_eq_map_conv append_eq_map_conv)
    obtain q' where "queue_remove x q = Some (Inr (True, q'))" "unlinked q q' (pre @ rest)"
      using queue_remove_node [of q pre a rest] q as split by auto
    with as split unlinked_rep [of q q' "pre @ rest"] show ?thesis by (simp add: remove1_append)
  qed
qed

interpretation tq: fifo queue_enqueue queue_dequeue queue_remove queue_rep queue_fresh
proof
  fix q :: queue and x :: ptr
  show "queue_enqueue NULL x q = Some (Inr (False, q))" by (simp add: queue_enqueue_def)
  show "queue_rep q [] \<Longrightarrow> queue_dequeue q = Inr (NULL, q)"
    by (simp add: queue_dequeue_def queue_rep_Nil)
qed (fact enqueue_correct dequeue_correct remove_correct)+

end
