(* ===== verification/Listener.thy ===== *)
theory Listener
  imports Thread_Queue
begin

text \<open>
  Model of \<open>main\<close> of server/aesdsocket.c around its queue of threads: the set-up of the
  listening socket, one round of the accept loop with all its error paths, the loop that
  reaps completed threads, the shutdown loop, and the signal handler. The results of the
  operating system's calls in one round are the fields of an environment record. What the
  code does to the outside (file descriptors, threads, freed structures) is recorded, in
  order, in a trace.
\<close>

section \<open>Data\<close>

text \<open>The two structures of aesdsocket.h, without the fields that are only logged and without
  the pointer to the one file mutex.\<close>

record client_thread_data =
  client_fd :: int
  thread_completed :: bool

record thread_instance =
  thread :: nat
  thread_data :: ptr

datatype event =
    CloseFd int
  | CreateThread nat ptr
  | CancelThread nat
  | JoinThread nat
  | FreeData ptr
  | FreeInstance ptr

record server =
  queue_of :: queue
  data_of :: "ptr \<rightharpoonup> client_thread_data"
  inst_of :: "ptr \<rightharpoonup> thread_instance"
  trace :: "event list"

definition log_event :: "event \<Rightarrow> server \<Rightarrow> server" where
  "log_event e s = s\<lparr>trace := trace s @ [e]\<rparr>"

definition free_data :: "ptr \<Rightarrow> server \<Rightarrow> server" where
  "free_data p s = log_event (FreeData p) (s\<lparr>data_of := (data_of s)(p := None)\<rparr>)"

definition free_instance :: "ptr \<Rightarrow> server \<Rightarrow> server" where
  "free_instance p s = log_event (FreeInstance p) (s\<lparr>inst_of := (inst_of s)(p := None)\<rparr>)"

section \<open>Reaping completed threads\<close>

text \<open>
  The body of the do-while loop for a non-null element: a completed thread's descriptor is
  closed unless it is -1 already, its data freed, the thread joined, its element removed
  from the queue, its instance freed.
\<close>

definition reap_one :: "ptr \<Rightarrow> server \<Rightarrow> (fault + server) option" where
  "reap_one ti s =
     (case inst_of s ti of
        None \<Rightarrow> Some (Inl UseAfterFree)
      | Some inst \<Rightarrow>
          if thread_data inst = NULL then Some (Inr s)
          else case data_of s (thread_data inst) of
            None \<Rightarrow> Some (Inl UseAfterFree)
          | Some td \<Rightarrow>
              if thread_completed td then
                let s1 = (if client_fd td \<noteq> - 1 then log_event (CloseFd (client_fd td)) s else s);
                    s2 = free_data (thread_data inst) s1;
                    s3 = log_event (JoinThread (thread inst)) s2
                in Option.bind (queue_remove ti (queue_of s3))
                     (\<lambda>r. Some (and_then r (\<lambda>(_, q). Inr (free_instance ti (s3\<lparr>queue_of := q\<rparr>)))))
              else Some (Inr s))"

text \<open>The loop over the nodes: the successor is read before the body runs, since the body may
  free the node.\<close>

partial_function (option) reap_loop :: "ptr \<Rightarrow> server \<Rightarrow> (fault + server) option" where
  "reap_loop node s =
     (if node = NULL then Some (Inr s)
      else case node_at (nodes (queue_of s)) node of
        Inl f \<Rightarrow> Some (Inl f)
      | Inr n \<Rightarrow>
          if data n = NULL then Some (Inr s)
          else Option.bind (reap_one (data n) s)
                 (\<lambda>r. case r of
                    Inl f \<Rightarrow> Some (Inl f)
                  | Inr s' \<Rightarrow> reap_loop (next_node n) s'))"

section \<open>One round of the accept loop\<close>

text \<open>
  What the calls return in this round: the descriptor from \<open>accept\<close> (-1 for an error), the
  addresses from the two \<open>malloc\<close> calls and from the one in \<open>queue_enqueue\<close> (null when
  memory is exhausted), the result of \<open>pthread_create\<close> with the thread's identifier.
\<close>

record round_env =
  accept_fd :: int
  malloc_data :: ptr
  malloc_inst :: ptr
  create_rc :: int
  create_tid :: nat
  malloc_node :: ptr

text \<open>
  The three cleanup labels fall through: cancelling the thread, freeing the instance,
  freeing the data, closing the connection. The instance is cleared with \<open>memset\<close> before
  its pointer is checked.
\<close>

definition listener_close_client :: "round_env \<Rightarrow> server \<Rightarrow> server" where
  "listener_close_client env s = log_event (CloseFd (accept_fd env)) s"

definition listener_free_thread_data :: "round_env \<Rightarrow> server \<Rightarrow> server" where
  "listener_free_thread_data env s = listener_close_client env (free_data (malloc_data env) s)"

definition listener_free_thread_instance :: "round_env \<Rightarrow> server \<Rightarrow> server" where
  "listener_free_thread_instance env s =
     listener_free_thread_data env (free_instance (malloc_inst env) s)"

definition listener_kill_thread :: "round_env \<Rightarrow> server \<Rightarrow> server" where
  "listener_kill_thread env s =
     listener_free_thread_instance env (log_event (CancelThread (create_tid env)) s)"

text \<open>
  The round up to the reaping loop; the flag tells whether the reaping loop is reached
  (otherwise the round went through one of the labels, or back to \<open>accept\<close> at once).
\<close>

definition listener_spawn :: "round_env \<Rightarrow> server \<Rightarrow> (fault + bool \<times> server) option" where
  "listener_spawn env s =
     (if accept_fd env = - 1 then Some (Inr (False, s))
      else if malloc_data env = NULL then Some (Inr (False, listener_close_client env s))
      else
        let s1 = s\<lparr>data_of := (data_of s)(malloc_data env \<mapsto>
                     \<lparr>client_fd = accept_fd env, thread_completed = False\<rparr>)\<rparr> in
        if malloc_inst env = NULL then Some (Inl NullDeref)
        else
          let s2 = s1\<lparr>inst_of := (inst_of s1)(malloc_inst env \<mapsto>
                       \<lparr>thread = 0, thread_data = malloc_data env\<rparr>)\<rparr> in
          if create_rc env \<noteq> 0 then Some (Inr (False, listener_free_thread_instance env s2))
          else
            let s3 = log_event (CreateThread (create_tid env) (malloc_data env))
                  (s2\<lparr>inst_of := (inst_of s2)(malloc_inst env \<mapsto>
                       \<lparr>thread = create_tid env, thread_data = malloc_data env\<rparr>)\<rparr>)
            in Option.bind (queue_enqueue (malloc_node env) (malloc_inst env) (queue_of s3))
                 (\<lambda>r. Some (and_then r (\<lambda>(ok, q).
                    let s4 = s3\<lparr>queue_of := q\<rparr> in
                    Inr (if ok then (True, s4) else (False, listener_kill_thread env s4))))))"

definition listener_round :: "round_env \<Rightarrow> server \<Rightarrow> (fault + server) option" where
  "listener_round env s =
     Option.bind (listener_spawn env s)
       (\<lambda>r. case r of
          Inl f \<Rightarrow> Some (Inl f)
        | Inr (reap, s') \<Rightarrow>
            if reap then reap_loop (queue_get_head (queue_of s')) s' else Some (Inr s'))"

text \<open>
  What the thread of a connection does to the shared structure when it ends: the tail of
  \<open>connection_handler\<close>, which closes the connection and marks the data as completed.
\<close>

definition worker_finish :: "ptr \<Rightarrow> server \<Rightarrow> fault + server" where
  "worker_finish p s =
     (if p = NULL then Inr s
      else case data_of s p of
        None \<Rightarrow> Inl UseAfterFree
      | Some td \<Rightarrow>
          let s1 = log_event (CloseFd (client_fd td)) s
          in Inr (s1\<lparr>data_of := (data_of s)(p \<mapsto> \<lparr>client_fd = - 1, thread_completed = True\<rparr>)\<rparr>))"

section \<open>Shutdown\<close>

text \<open>The data of a dequeued instance is freed first; the thread is joined after that.\<close>

definition shutdown_release :: "ptr \<Rightarrow> server \<Rightarrow> fault + server" where
  "shutdown_release ti s =
     (case inst_of s ti of
        None \<Rightarrow> Inl UseAfterFree
      | Some inst \<Rightarrow>
          if thread_data inst = NULL then Inr s
          else case data_of s (thread_data inst) of
            None \<Rightarrow> Inl UseAfterFree
          | Some td \<Rightarrow>
              Inr (free_data (thread_data inst)
                (if client_fd td \<noteq> - 1 then log_event (CloseFd (client_fd td)) s else s)))"

definition shutdown_join :: "ptr \<Rightarrow> server \<Rightarrow> fault + server" where
  "shutdown_join ti s =
     (case inst_of s ti of
        None \<Rightarrow> Inl UseAfterFree
      | Some inst \<Rightarrow> Inr (free_instance ti (log_event (JoinThread (thread inst)) s)))"

partial_function (option) shutdown_loop :: "server \<Rightarrow> (fault + server) option" where
  "shutdown_loop s =
     (case queue_dequeue (queue_of s) of
        Inl f \<Rightarrow> Some (Inl f)
      | Inr (ti, q) \<Rightarrow>
          if ti = NULL then Some (Inr (s\<lparr>queue_of := q\<rparr>))
          else (case and_then (shutdown_release ti (s\<lparr>queue_of := q\<rparr>)) (shutdown_join ti) of
                  Inl f \<Rightarrow> Some (Inl f)
                | Inr s' \<Rightarrow> shutdown_loop s'))"

section \<open>Invariant\<close>

definition inst_data :: "server \<Rightarrow> ptr \<Rightarrow> ptr" where
  "inst_data s ti = (case inst_of s ti of None \<Rightarrow> NULL | Some inst \<Rightarrow> thread_data inst)"

text \<open>
  The queue holds the thread instances that exist, each once; each has its own data, and
  no other data exists.
\<close>

definition server_ok :: "server \<Rightarrow> ptr list \<Rightarrow> bool" where
  "server_ok s tis \<longleftrightarrow>
     queue_rep (queue_of s) tis \<and> distinct tis \<and> NULL \<notin> set tis \<and>
     dom (inst_of s) = set tis \<and>
     distinct (map (inst_data s) tis) \<and> NULL \<notin> set (map (inst_data s) tis) \<and>
     dom (data_of s) = set (map (inst_data s) tis)"

definition server_init :: server where
  "server_init = \<lparr>queue_of = empty_queue, data_of = Map.empty, inst_of = Map.empty, trace = []\<rparr>"

lemma server_init_ok: "server_ok server_init []"
  by (simp add: server_ok_def server_init_def)

definition completed :: "server \<Rightarrow> ptr \<Rightarrow> bool" where
  "completed s ti =
     (case data_of s (inst_data s ti) of None \<Rightarrow> False | Some td \<Rightarrow> thread_completed td)"

text \<open>The trace of reaping one thread, and of shutting one down.\<close>

definition reap_events :: "server \<Rightarrow> ptr \<Rightarrow> event list" where
  "reap_events s ti =
     (case inst_of s ti of
        None \<Rightarrow> []
      | Some inst \<Rightarrow>
          (case data_of s (thread_data inst) of
             None \<Rightarrow> []
           | Some td \<Rightarrow> if client_fd td \<noteq> - 1 then [CloseFd (client_fd td)] else []) @
          [FreeData (thread_data inst), JoinThread (thread inst), FreeInstance ti])"

lemma server_okD:
  assumes "server_ok s tis"
  shows "queue_rep (queue_of s) tis" and "distinct tis" and "NULL \<notin> set tis"
    and "dom (inst_of s) = set tis" and "distinct (map (inst_data s) tis)"
    and "NULL \<notin> set (map (inst_data s) tis)" and "dom (data_of s) = set (map (inst_data s) tis)"
  using assms by (simp_all add: server_ok_def)

lemma server_ok_lookup:
  assumes "server_ok s tis" and "ti \<in> set tis"
  obtains inst td where "inst_of s ti = Some inst" and "thread_data inst \<noteq> NULL"
    and "data_of s (thread_data inst) = Some td" and "inst_data s ti = thread_data inst"
proof -
  from server_okD(4) [OF assms(1)] assms(2) obtain inst where i: "inst_of s ti = Some inst" by auto
  then have d: "inst_data s ti = thread_data inst" by (simp add: inst_data_def)
  with server_okD(6) [OF assms(1)] assms(2) have "thread_data inst \<noteq> NULL" by (metis image_eqI set_map)
  moreover from server_okD(7) [OF assms(1)] assms(2) d have "thread_data inst \<in> dom (data_of s)"
    by (metis image_eqI set_map)
  ultimately show thesis using that i d by auto
qed

text \<open>Two servers that agree on some instances and their data.\<close>

definition agree_on :: "ptr set \<Rightarrow> server \<Rightarrow> server \<Rightarrow> bool" where
  "agree_on A s s' \<longleftrightarrow>
     (\<forall>ti \<in> A. inst_of s' ti = inst_of s ti \<and> data_of s' (inst_data s ti) = data_of s (inst_data s ti))"

lemma agree_on_refl [simp]: "agree_on A s s"
  by (simp add: agree_on_def)

lemma agree_on_inst_data: "agree_on A s s' \<Longrightarrow> ti \<in> A \<Longrightarrow> inst_data s' ti = inst_data s ti"
  by (simp add: agree_on_def inst_data_def)

lemma agree_on_trans:
  "agree_on A s s' \<Longrightarrow> agree_on B s' s'' \<Longrightarrow> B \<subseteq> A \<Longrightarrow> agree_on B s s''"
  unfolding agree_on_def inst_data_def by (metis subsetD)

lemma agree_on_completed: "agree_on A s s' \<Longrightarrow> ti \<in> A \<Longrightarrow> completed s' ti = completed s ti"
  by (simp add: completed_def agree_on_inst_data) (simp add: agree_on_def)

lemma agree_on_events: "agree_on A s s' \<Longrightarrow> ti \<in> A \<Longrightarrow> reap_events s' ti = reap_events s ti"
  unfolding agree_on_def reap_events_def inst_data_def by (auto split: option.splits)

text \<open>Taking one instance with its data out of the server.\<close>

definition without :: "ptr \<Rightarrow> server \<Rightarrow> server \<Rightarrow> bool" where
  "without ti s s' \<longleftrightarrow>
     data_of s' = (data_of s)(inst_data s ti := None) \<and> inst_of s' = (inst_of s)(ti := None) \<and>
     trace s' = trace s @ reap_events s ti"

lemma without_agree:
  assumes ok: "server_ok s (xs @ ti # ys)" and w: "without ti s s'"
  shows "agree_on (set xs \<union> set ys) s s'"
proof -
  have "t \<noteq> ti \<and> inst_data s t \<noteq> inst_data s ti" if "t \<in> set xs \<union> set ys" for t
    using server_okD(2,5) [OF ok] that by (metis UnE distinct.simps(2) distinct_append disjoint_iff
        image_eqI list.simps(9) list.set_intros(1) map_append set_map)
  with w show ?thesis by (simp add: agree_on_def without_def)
qed

lemma without_ok:
  assumes ok: "server_ok s (xs @ ti # ys)" and w: "without ti s s'"
    and q: "queue_rep (queue_of s') (xs @ ys)"
  shows "server_ok s' (xs @ ys)"
proof -
  have m: "map (inst_data s') (xs @ ys) = map (inst_data s) (xs @ ys)"
    using agree_on_inst_data [OF without_agree [OF ok w]] by simp
  have d: "distinct (map (inst_data s) (xs @ ys))" and ti: "inst_data s ti \<notin> set (map (inst_data s) (xs @ ys))"
    using server_okD(5) [OF ok] by auto
  have "dom (data_of s') = set (map (inst_data s) (xs @ ys))"
    using server_okD(7) [OF ok] w ti by (auto simp: without_def)
  moreover have "dom (inst_of s') = set (xs @ ys)"
    using server_okD(2,4) [OF ok] w by (auto simp: without_def)
  moreover have "NULL \<notin> set (map (inst_data s) (xs @ ys))" using server_okD(6) [OF ok] by auto
  moreover have "distinct (xs @ ys)" "NULL \<notin> set (xs @ ys)" using server_okD(2,3) [OF ok] by auto
  ultimately show ?thesis using q d unfolding server_ok_def m by blast
qed

section \<open>Reaping: correctness\<close>

lemma reap_one_running:
  assumes "server_ok s tis" and "ti \<in> set tis" and "\<not> completed s ti"
  shows "reap_one ti s = Some (Inr s)"
proof -
  obtain inst td where "inst_of s ti = Some inst" "thread_data inst \<noteq> NULL"
      "data_of s (thread_data inst) = Some td" "inst_data s ti = thread_data inst"
    using assms(1,2) by (rule server_ok_lookup)
  with assms(3) show ?thesis by (simp add: reap_one_def completed_def)
qed

lemma reap_one_completed:
  assumes ok: "server_ok s (map (node_data (nodes (queue_of s))) (pre @ a # rest))"
    and q: "queue_nodes (queue_of s) (pre @ a # rest)"
  defines "ti \<equiv> node_data (nodes (queue_of s)) a"
  assumes "completed s ti"
  shows "\<exists>s'. reap_one ti s = Some (Inr s') \<and> unlinked (queue_of s) (queue_of s') (pre @ rest) \<and>
     without ti s s'"
proof -
  obtain inst td where i: "inst_of s ti = Some inst" "thread_data inst \<noteq> NULL"
      "data_of s (thread_data inst) = Some td" "inst_data s ti = thread_data inst"
    using server_ok_lookup [OF ok, of ti] unfolding ti_def by (metis in_set_conv_decomp map_append list.simps(9))
  have "ti \<notin> set (map (node_data (nodes (queue_of s))) pre)"
    using server_okD(2) [OF ok] by (auto simp: ti_def)
  then obtain q' where rm: "queue_remove ti (queue_of s) = Some (Inr (True, q'))"
      "unlinked (queue_of s) q' (pre @ rest)"
    using queue_remove_node [OF q] by (auto simp: ti_def)
  from i \<open>completed s ti\<close> have c: "thread_completed td" by (simp add: completed_def)
  define s1 where "s1 = (if client_fd td \<noteq> - 1 then log_event (CloseFd (client_fd td)) s else s)"
  define s' where "s' = free_instance ti (log_event (JoinThread (thread inst))
      (free_data (thread_data inst) s1)\<lparr>queue_of := q'\<rparr>)"
  have "reap_one ti s = Some (Inr s')"
    using i c rm by (simp add: reap_one_def s'_def s1_def log_event_def free_data_def)
  moreover have "unlinked (queue_of s) (queue_of s') (pre @ rest)"
    using rm by (simp add: s'_def free_instance_def log_event_def)
  moreover have "without ti s s'"
    using i by (simp add: without_def reap_events_def s'_def s1_def free_instance_def free_data_def log_event_def)
  ultimately show ?thesis by blast
qed

lemma chain_start: "chain ns p as NULL \<Longrightarrow> p = (case as of [] \<Rightarrow> NULL | a # _ \<Rightarrow> a)"
  by (cases as) auto

lemma chain_after: "queue_nodes q (pre @ rest) \<Longrightarrow> chain (nodes q) (case rest of [] \<Rightarrow> NULL | a # _ \<Rightarrow> a) rest NULL"
  unfolding queue_nodes_def chain_append by (metis chain_start)

text \<open>
  The whole walk, from any point of the list: the completed threads are reaped in the
  order of the queue, and exactly the others stay, untouched.
\<close>

lemma reap_loop_walk:
  assumes "queue_nodes (queue_of s) (pre @ rest)"
    and "server_ok s (map (node_data (nodes (queue_of s))) (pre @ rest))"
    and "tis = map (node_data (nodes (queue_of s))) rest"
    and "pis = map (node_data (nodes (queue_of s))) pre"
  shows "\<exists>s'. reap_loop (case rest of [] \<Rightarrow> NULL | a # _ \<Rightarrow> a) s = Some (Inr s') \<and>
     server_ok s' (pis @ filter (\<lambda>t. \<not> completed s t) tis) \<and>
     trace s' = trace s @ concat (map (reap_events s) (filter (completed s) tis)) \<and>
     agree_on (set pis \<union> set (filter (\<lambda>t. \<not> completed s t) tis)) s s'"
  using assms
proof (induction rest arbitrary: pre s tis pis)
  case Nil
  then show ?case by (simp add: reap_loop.simps)
next
  case (Cons a rest)
  let ?nd = "node_data (nodes (queue_of s))"
  have ok: "server_ok s (map ?nd (pre @ a # rest))" and q: "queue_nodes (queue_of s) (pre @ a # rest)"
    using Cons.prems by simp_all
  from chain_after [OF q] obtain n where n: "a \<noteq> NULL" "nodes (queue_of s) a = Some n"
      and ch: "chain (nodes (queue_of s)) (next_node n) rest NULL" by auto
  have nd: "?nd a = data n" using n by (simp add: node_data_def)
  have d: "data n \<noteq> NULL" using server_okD(3) [OF ok] nd by auto
  have step: "reap_loop a s = Option.bind (reap_one (data n) s) (\<lambda>r. case r of
      Inl f \<Rightarrow> Some (Inl f) | Inr s' \<Rightarrow> reap_loop (case rest of [] \<Rightarrow> NULL | a # _ \<Rightarrow> a) s')"
    using n d chain_start [OF ch] by (subst reap_loop.simps) (simp add: node_at_def)
  show ?case
  proof (cases "completed s (data n)")
    case False
    then have "reap_loop a s = reap_loop (case rest of [] \<Rightarrow> NULL | a # _ \<Rightarrow> a) s"
      using reap_one_running [OF ok, of "data n"] nd by (simp add: step)
    with Cons.IH [of s "pre @ [a]" "map ?nd rest" "pis @ [data n]"] Cons.prems False nd
    show ?thesis by simp
  next
    case True
    have ok': "server_ok s (map ?nd pre @ data n # map ?nd rest)" using ok nd by simp
    obtain s1 where s1: "reap_one (data n) s = Some (Inr s1)"
        "unlinked (queue_of s) (queue_of s1) (pre @ rest)" "without (data n) s s1"
      using reap_one_completed [OF ok q] True nd by metis
    have m: "map (node_data (nodes (queue_of s1))) pre = map ?nd pre"
        "map (node_data (nodes (queue_of s1))) rest = map ?nd rest"
      using s1(2) by (simp_all add: unlinked_def)
    have ok1: "server_ok s1 (map ?nd pre @ map ?nd rest)"
      using without_ok [OF ok' s1(3)] unlinked_rep [OF s1(2)] by simp
    have q1: "queue_nodes (queue_of s1) (pre @ rest)" using s1(2) by (simp add: unlinked_def)
    have ok1': "server_ok s1 (map (node_data (nodes (queue_of s1))) (pre @ rest))"
      using ok1 unfolding map_append m .
    have ag: "agree_on (set (map ?nd pre) \<union> set (map ?nd rest)) s s1"
      using without_agree [OF ok' s1(3)] by simp
    have c: "completed s1 t = completed s t" "reap_events s1 t = reap_events s t"
      if "t \<in> set (map ?nd rest)" for t
      using that by (simp_all only: agree_on_completed [OF ag] agree_on_events [OF ag] UnI2)
    then have f: "filter (\<lambda>t. \<not> completed s1 t) (map ?nd rest) = filter (\<lambda>t. \<not> completed s t) (map ?nd rest)"
        "map (reap_events s1) (filter (completed s1) (map ?nd rest)) =
         map (reap_events s) (filter (completed s) (map ?nd rest))"
      using c by (auto intro!: filter_cong map_filter_cong simp del: filter_map)
    obtain s' where s': "reap_loop (case rest of [] \<Rightarrow> NULL | a # _ \<Rightarrow> a) s1 = Some (Inr s')"
        "server_ok s' (map ?nd pre @ filter (\<lambda>t. \<not> completed s t) (map ?nd rest))"
        "trace s' = trace s1 @ concat (map (reap_events s) (filter (completed s) (map ?nd rest)))"
        "agree_on (set (map ?nd pre) \<union> set (filter (\<lambda>t. \<not> completed s t) (map ?nd rest))) s1 s'"
      using Cons.IH [OF q1 ok1' m(2) [symmetric] m(1) [symmetric]] unfolding f by blast
    have "agree_on (set (map ?nd pre) \<union> set (filter (\<lambda>t. \<not> completed s t) (map ?nd rest))) s s'"
      by (rule agree_on_trans [OF ag s'(4)]) auto
    with s' s1 True nd Cons.prems show ?thesis by (simp add: step without_def)
  qed
qed

lemma reap_loop_head:
  assumes ok: "server_ok s tis"
  shows "\<exists>s'. reap_loop (queue_get_head (queue_of s)) s = Some (Inr s') \<and>
     server_ok s' (filter (\<lambda>t. \<not> completed s t) tis) \<and>
     trace s' = trace s @ concat (map (reap_events s) (filter (completed s) tis)) \<and>
     agree_on (set (filter (\<lambda>t. \<not> completed s t) tis)) s s'"
proof -
  obtain as where q: "queue_nodes (queue_of s) as" and tis: "tis = map (node_data (nodes (queue_of s))) as"
    using server_okD(1) [OF ok] by (auto simp: queue_rep_def)
  then have "queue_get_head (queue_of s) = (case as of [] \<Rightarrow> NULL | a # _ \<Rightarrow> a)"
    using chain_start by (auto simp: queue_get_head_def queue_nodes_def)
  with reap_loop_walk [of s "[]" as tis "[]"] q tis ok show ?thesis by simp
qed

end
