(* ===== verification/Transition.thy ===== *)
theory Transition
  imports Main
begin

text \<open>
  Step relations and their invariants: a predicate that every step keeps holds along every
  run from a state where it holds. The driver's handlers, the server's threads and the
  threading example are interpreted on this contract.
\<close>

locale step_invariant =
  fixes step :: "'s \<Rightarrow> 's \<Rightarrow> bool"
    and inv :: "'s \<Rightarrow> bool"
  assumes step_inv: "inv s \<Longrightarrow> step s s' \<Longrightarrow> inv s'"
begin

lemma run_inv: "step\<^sup>*\<^sup>* s s' \<Longrightarrow> inv s \<Longrightarrow> inv s'"
  by (induction rule: rtranclp_induct) (auto intro: step_inv)

text \<open>A consequence of the invariant holds in every state a run reaches.\<close>

lemma run_safe: "step\<^sup>*\<^sup>* s s' \<Longrightarrow> inv s \<Longrightarrow> (\<And>t. inv t \<Longrightarrow> safe t) \<Longrightarrow> safe s'"
  using run_inv by blast

end

text \<open>
  A step relation that, in addition, only moves a measure of progress forward.
\<close>

locale monotone_steps = step_invariant step inv
  for step :: "'s \<Rightarrow> 's \<Rightarrow> bool" and inv :: "'s \<Rightarrow> bool" +
  fixes rank :: "'s \<Rightarrow> 'r :: preorder"
  assumes step_rank: "inv s \<Longrightarrow> step s s' \<Longrightarrow> rank s \<le> rank s'"
begin

lemma run_rank: "step\<^sup>*\<^sup>* s s' \<Longrightarrow> inv s \<Longrightarrow> rank s \<le> rank s'"
proof (induction rule: rtranclp_induct)
  case base
  show ?case by (rule order_refl)
next
  case (step t u)
  then have "rank s \<le> rank t" and "rank t \<le> rank u"
    using run_inv step_rank by blast+
  then show ?case by (rule order_trans)
qed

end

end
