(* ===== verification/Server_Loop.thy ===== *)
theory Server_Loop
  imports Listener Transition
begin

text \<open>
  Correctness of the listener: every branch of a round of the accept loop, the reaping walk
  in the context of a round, the shutdown loop; and the listener interleaved with the
  threads it started, as a step relation with its invariant.
\<close>

section \<open>The invariant of the server\<close>

text \<open>A thread that has completed has closed its connection and says so.\<close>

definition server_inv :: "server \<Rightarrow> ptr list \<Rightarrow> bool" where
  "server_inv s tis \<longleftrightarrow> server_ok s tis \<and>
     (\<forall>p td. data_of s p = Some td \<longrightarrow> thread_completed td \<longrightarrow> client_fd td = - 1)"

text \<open>The allocator hands out addresses that are not in use.\<close>

definition allocates :: "round_env \<Rightarrow> server \<Rightarrow> bool" where
  "allocates env s \<longleftrightarrow>
     data_of s (malloc_data env) = None \<and> inst_of s (malloc_inst env) = None \<and>
     nodes (queue_of s) (malloc_node env) = None"

lemma server_inv_init: "server_inv server_init []"
  by (simp add: server_inv_def server_init_ok) (simp add: server_init_def)

lemma server_inv_agree:
  assumes "server_inv s tis" and "server_ok s' tis'" and "agree_on (set tis') s s'"
    and "set tis' \<subseteq> set tis"
  shows "server_inv s' tis'"
proof -
  have "data_of s p = Some td" if "data_of s' p = Some td" for p td
  proof -
    from that server_okD(7) [OF assms(2)] obtain ti where "ti \<in> set tis'" "p = inst_data s' ti" by auto
    with assms(3) that show ?thesis by (simp add: agree_on_inst_data) (simp add: agree_on_def)
  qed
  with assms show ?thesis unfolding server_inv_def by blast
qed

section \<open>Rounds that fail\<close>

lemma spawn_accept_error: "accept_fd env = - 1 \<Longrightarrow> listener_spawn env s = Some (Inr (False, s))"
  by (simp add: listener_spawn_def)

lemma spawn_no_data:
  "accept_fd env \<noteq> - 1 \<Longrightarrow> malloc_data env = NULL \<Longrightarrow>
   listener_spawn env s = Some (Inr (False, s\<lparr>trace := trace s @ [CloseFd (accept_fd env)]\<rparr>))"
  by (simp add: listener_spawn_def listener_close_client_def log_event_def)

lemma spawn_no_instance:
  "accept_fd env \<noteq> - 1 \<Longrightarrow> malloc_data env \<noteq> NULL \<Longrightarrow> malloc_inst env = NULL \<Longrightarrow>
   listener_spawn env s = Some (Inl NullDeref)"
  by (simp add: listener_spawn_def)

lemma spawn_no_thread:
  assumes "accept_fd env \<noteq> - 1" and "malloc_data env \<noteq> NULL" and "malloc_inst env \<noteq> NULL"
    and "create_rc env \<noteq> 0" and "allocates env s"
  shows "listener_spawn env s = Some (Inr (False, s\<lparr>trace := trace s @
     [FreeInstance (malloc_inst env), FreeData (malloc_data env), CloseFd (accept_fd env)]\<rparr>))"
  using assms
  by (simp add: listener_spawn_def listener_free_thread_instance_def listener_free_thread_data_def
      listener_close_client_def free_instance_def free_data_def log_event_def allocates_def fun_upd_idem)

lemma spawn_no_node:
  assumes "accept_fd env \<noteq> - 1" and "malloc_data env \<noteq> NULL" and "malloc_inst env \<noteq> NULL"
    and "create_rc env = 0" and "malloc_node env = NULL" and "allocates env s"
  shows "listener_spawn env s = Some (Inr (False, s\<lparr>trace := trace s @
     [CreateThread (create_tid env) (malloc_data env), CancelThread (create_tid env),
      FreeInstance (malloc_inst env), FreeData (malloc_data env), CloseFd (accept_fd env)]\<rparr>))"
  using assms
  by (simp add: listener_spawn_def listener_kill_thread_def listener_free_thread_instance_def
      listener_free_thread_data_def listener_close_client_def free_instance_def free_data_def
      log_event_def allocates_def fun_upd_idem tq.enqueue_no_memory)

section \<open>Rounds that start a thread\<close>

lemma spawn_thread:
  assumes inv: "server_inv s tis" and al: "allocates env s"
    and "accept_fd env \<noteq> - 1" and "create_rc env = 0"
    and nn: "malloc_data env \<noteq> NULL" "malloc_inst env \<noteq> NULL" "malloc_node env \<noteq> NULL"
  shows "\<exists>s'. listener_spawn env s = Some (Inr (True, s')) \<and>
     server_inv s' (tis @ [malloc_inst env]) \<and> agree_on (set tis) s s' \<and>
     inst_of s' (malloc_inst env) = Some \<lparr>thread = create_tid env, thread_data = malloc_data env\<rparr> \<and>
     data_of s' (malloc_data env) = Some \<lparr>client_fd = accept_fd env, thread_completed = False\<rparr> \<and>
     trace s' = trace s @ [CreateThread (create_tid env) (malloc_data env)]"
proof -
  let ?d = "malloc_data env" and ?i = "malloc_inst env"
  have ok: "server_ok s tis" using inv by (simp add: server_inv_def)
  have i: "?i \<notin> set tis" using al server_okD(4) [OF ok] by (auto simp: allocates_def)
  have d: "?d \<notin> set (map (inst_data s) tis)" using al server_okD(7) [OF ok] by (metis allocates_def domIff)
  have "queue_fresh (malloc_node env) (queue_of s)"
    using al nn by (simp add: queue_fresh_def allocates_def)
  then obtain q where q: "queue_enqueue (malloc_node env) ?i (queue_of s) = Some (Inr (True, q))"
      "queue_rep q (tis @ [?i])"
    using tq.enqueue_ok [OF server_okD(1) [OF ok]] by blast
  define s' where "s' = s\<lparr>queue_of := q,
      data_of := (data_of s)(?d \<mapsto> \<lparr>client_fd = accept_fd env, thread_completed = False\<rparr>),
      inst_of := (inst_of s)(?i \<mapsto> \<lparr>thread = create_tid env, thread_data = ?d\<rparr>),
      trace := trace s @ [CreateThread (create_tid env) ?d]\<rparr>"
  have run: "listener_spawn env s = Some (Inr (True, s'))"
    using assms q by (simp add: listener_spawn_def log_event_def s'_def)
  have same: "map (inst_data s') tis = map (inst_data s) tis"
    using i by (auto simp: inst_data_def s'_def)
  have new: "inst_data s' ?i = ?d" by (simp add: inst_data_def s'_def)
  have "dom (data_of s') = set (map (inst_data s) tis @ [?d])"
    using server_okD(7) [OF ok] by (auto simp: s'_def)
  moreover have "dom (inst_of s') = set (tis @ [?i])" using server_okD(4) [OF ok] by (auto simp: s'_def)
  moreover have "queue_of s' = q" by (simp add: s'_def)
  ultimately have "server_ok s' (tis @ [?i])"
    using server_okD(2,3,5,6) [OF ok] q(2) i d nn unfolding server_ok_def map_append same
    by (simp add: new)
  then have "server_inv s' (tis @ [?i])" using inv by (auto simp: server_inv_def s'_def split: if_splits)
  moreover have "agree_on (set tis) s s'"
    unfolding agree_on_def
  proof
    fix ti assume "ti \<in> set tis"
    with i d have "ti \<noteq> ?i" "inst_data s ti \<noteq> ?d" by (blast, metis image_eqI set_map)
    then show "inst_of s' ti = inst_of s ti \<and> data_of s' (inst_data s ti) = data_of s (inst_data s ti)"
      by (simp add: s'_def)
  qed
  ultimately show ?thesis using run by (auto simp: s'_def)
qed

text \<open>The reaping walk keeps the invariant; what it reaps has closed its connection.\<close>

lemma reap_inv:
  assumes "server_inv s tis"
  shows "\<exists>s'. reap_loop (queue_get_head (queue_of s)) s = Some (Inr s') \<and>
     server_inv s' (filter (\<lambda>t. \<not> completed s t) tis) \<and>
     trace s' = trace s @ concat (map (reap_events s) (filter (completed s) tis)) \<and>
     agree_on (set (filter (\<lambda>t. \<not> completed s t) tis)) s s'"
proof -
  have ok: "server_ok s tis" using assms by (simp add: server_inv_def)
  obtain s' where s': "reap_loop (queue_get_head (queue_of s)) s = Some (Inr s')"
      "server_ok s' (filter (\<lambda>t. \<not> completed s t) tis)"
      "trace s' = trace s @ concat (map (reap_events s) (filter (completed s) tis))"
      "agree_on (set (filter (\<lambda>t. \<not> completed s t) tis)) s s'"
    using reap_loop_head [OF ok] by blast
  moreover have "server_inv s' (filter (\<lambda>t. \<not> completed s t) tis)"
    using server_inv_agree [OF assms s'(2) s'(4)] by auto
  ultimately show ?thesis by blast
qed

lemma reap_events_completed:
  assumes "server_inv s tis" and "ti \<in> set tis" and "completed s ti"
  shows "\<exists>inst. inst_of s ti = Some inst \<and>
     reap_events s ti = [FreeData (thread_data inst), JoinThread (thread inst), FreeInstance ti]"
proof -
  obtain inst td where "inst_of s ti = Some inst" "data_of s (thread_data inst) = Some td"
      "inst_data s ti = thread_data inst"
    using assms(1,2) server_ok_lookup unfolding server_inv_def by metis
  with assms show ?thesis by (auto simp: reap_events_def completed_def server_inv_def)
qed

section \<open>Shutdown\<close>

lemma shutdown_one:
  assumes ok: "server_ok s (ti # tis)" and q: "queue_rep q tis"
  shows "\<exists>s'. and_then (shutdown_release ti (s\<lparr>queue_of := q\<rparr>)) (shutdown_join ti) = Inr s' \<and>
     without ti s s' \<and> queue_of s' = q"
proof -
  obtain inst td where "inst_of s ti = Some inst" "thread_data inst \<noteq> NULL"
      "data_of s (thread_data inst) = Some td" "inst_data s ti = thread_data inst"
    using server_ok_lookup [OF ok, of ti] by auto
  then show ?thesis
    by (simp add: shutdown_release_def shutdown_join_def without_def reap_events_def free_data_def
        free_instance_def log_event_def)
qed

lemma shutdown_drains:
  assumes "server_ok s tis"
  shows "\<exists>s'. shutdown_loop s = Some (Inr s') \<and> server_ok s' [] \<and>
     trace s' = trace s @ concat (map (reap_events s) tis)"
  using assms
proof (induction tis arbitrary: s)
  case Nil
  then have "queue_dequeue (queue_of s) = Inr (NULL, queue_of s)"
    using server_okD(1) tq.dequeue_empty by blast
  with Nil show ?case by (subst shutdown_loop.simps) simp
next
  case (Cons ti tis)
  obtain q where q: "queue_dequeue (queue_of s) = Inr (ti, q)" "queue_rep q tis"
    using tq.dequeue_ok [OF server_okD(1) [OF Cons.prems]] by blast
  obtain s1 where s1: "and_then (shutdown_release ti (s\<lparr>queue_of := q\<rparr>)) (shutdown_join ti) = Inr s1"
      "without ti s s1" "queue_of s1 = q"
    using shutdown_one [OF Cons.prems q(2)] by blast
  have ok: "server_ok s ([] @ ti # tis)" using Cons.prems by simp
  have ok1: "server_ok s1 tis" using without_ok [OF ok s1(2)] q(2) s1(3) by simp
  have "concat (map (reap_events s1) tis) = concat (map (reap_events s) tis)"
    using agree_on_events [OF without_agree [OF ok s1(2)]] by (simp cong: map_cong)
  moreover have "ti \<noteq> NULL" using server_okD(3) [OF Cons.prems] by auto
  then have "shutdown_loop s = shutdown_loop s1"
    by (subst shutdown_loop.simps) (simp add: q(1) s1(1) del: and_then_eq_Inr)
  ultimately show ?case using Cons.IH [OF ok1] s1(2) by (auto simp: without_def)
qed

text \<open>A thread that still runs when its instance is released loses its data under its feet.\<close>

lemma shutdown_release_running:
  assumes ok: "server_ok s tis" and "ti \<in> set tis"
  shows "\<exists>s'. shutdown_release ti s = Inr s' \<and> worker_finish (inst_data s ti) s' = Inl UseAfterFree"
proof -
  obtain inst td where "inst_of s ti = Some inst" "thread_data inst \<noteq> NULL"
      "data_of s (thread_data inst) = Some td" "inst_data s ti = thread_data inst"
    using ok \<open>ti \<in> set tis\<close> by (rule server_ok_lookup)
  then show ?thesis
    by (simp add: shutdown_release_def worker_finish_def free_data_def log_event_def)
qed

section \<open>The listener and its threads, interleaved\<close>

text \<open>
  The listener alternates between accepting and reaping; between any two of its steps a
  running thread may finish.
\<close>

datatype listener_pc = Accepting | Reaping

definition running :: "server \<Rightarrow> ptr \<Rightarrow> bool" where
  "running s p \<longleftrightarrow> (case data_of s p of None \<Rightarrow> False | Some td \<Rightarrow> \<not> thread_completed td)"

inductive server_step :: "listener_pc \<times> server \<Rightarrow> listener_pc \<times> server \<Rightarrow> bool" where
  accept_round: "allocates env s \<Longrightarrow> listener_spawn env s = Some (Inr (reap, s')) \<Longrightarrow>
    server_step (Accepting, s) (if reap then Reaping else Accepting, s')"
| reap_walk: "reap_loop (queue_get_head (queue_of s)) s = Some (Inr s') \<Longrightarrow>
    server_step (Reaping, s) (Accepting, s')"
| thread_ends: "running s p \<Longrightarrow> worker_finish p s = Inr s' \<Longrightarrow> server_step (pc, s) (pc, s')"

text \<open>Every thread that was created is in the queue, or was joined, or was cancelled.\<close>

definition accounted :: "server \<Rightarrow> ptr list \<Rightarrow> bool" where
  "accounted s tis \<longleftrightarrow>
     (\<forall>t p. CreateThread t p \<in> set (trace s) \<longrightarrow>
        (\<exists>ti \<in> set tis. \<exists>inst. inst_of s ti = Some inst \<and> thread inst = t) \<or>
        JoinThread t \<in> set (trace s) \<or> CancelThread t \<in> set (trace s))"

definition listener_inv :: "listener_pc \<times> server \<Rightarrow> bool" where
  "listener_inv st \<longleftrightarrow> (\<exists>tis. server_inv (snd st) tis \<and> accounted (snd st) tis)"

lemma server_inv_trace: "server_inv (s\<lparr>trace := tr\<rparr>) tis = server_inv s tis"
proof -
  have "inst_data (s\<lparr>trace := tr\<rparr>) = inst_data s" by (simp add: inst_data_def fun_eq_iff)
  then show ?thesis by (simp add: server_inv_def server_ok_def)
qed

text \<open>A round that does not reach the reaping walk changes the trace only.\<close>

lemma spawn_no_reap:
  assumes "listener_spawn env s = Some (Inr (False, s'))" and "allocates env s"
    and "server_inv s tis"
  shows "\<exists>evs. s' = s\<lparr>trace := trace s @ evs\<rparr> \<and>
     (\<forall>t p. CreateThread t p \<in> set evs \<longrightarrow> CancelThread t \<in> set evs) \<and>
     (if accept_fd env = - 1 then evs = [] else \<exists>es. evs = es @ [CloseFd (accept_fd env)])"
proof -
  consider "accept_fd env = - 1" | "accept_fd env \<noteq> - 1" "malloc_data env = NULL"
    | "accept_fd env \<noteq> - 1" "malloc_data env \<noteq> NULL" "malloc_inst env = NULL"
    | "accept_fd env \<noteq> - 1" "malloc_data env \<noteq> NULL" "malloc_inst env \<noteq> NULL" "create_rc env \<noteq> 0"
    | "accept_fd env \<noteq> - 1" "malloc_data env \<noteq> NULL" "malloc_inst env \<noteq> NULL" "create_rc env = 0"
      "malloc_node env = NULL"
    | "accept_fd env \<noteq> - 1" "malloc_data env \<noteq> NULL" "malloc_inst env \<noteq> NULL" "create_rc env = 0"
      "malloc_node env \<noteq> NULL"
    by blast
  then show ?thesis
  proof cases
    case 1
    with assms(1) have "s' = s\<lparr>trace := trace s @ []\<rparr>" by (simp add: spawn_accept_error)
    with 1 show ?thesis by (intro exI [of _ "[]"]) simp
  next
    case 2
    with assms(1) show ?thesis by (auto simp: spawn_no_data)
  next
    case 3
    with assms(1) show ?thesis by (simp add: spawn_no_instance)
  next
    case 4
    with assms(1,2) show ?thesis by (auto simp: spawn_no_thread)
  next
    case 5
    with assms(1,2) show ?thesis by (auto simp: spawn_no_node)
  next
    case 6
    with assms spawn_thread [OF assms(3,2)] show ?thesis by auto
  qed
qed

lemma spawn_reap_env:
  assumes "listener_spawn env s = Some (Inr (True, s'))"
  shows "accept_fd env \<noteq> - 1 \<and> create_rc env = 0 \<and> malloc_data env \<noteq> NULL \<and>
     malloc_inst env \<noteq> NULL \<and> malloc_node env \<noteq> NULL"
  using assms
  by (cases "malloc_node env = NULL")
    (auto simp: listener_spawn_def Let_def tq.enqueue_no_memory split: if_splits)

lemma accounted_mono:
  assumes "accounted s tis" and "set (trace s) \<subseteq> set (trace s')"
    and "\<And>t p. CreateThread t p \<in> set (trace s') \<Longrightarrow> CreateThread t p \<notin> set (trace s) \<Longrightarrow>
      (\<exists>ti \<in> set tis'. \<exists>inst. inst_of s' ti = Some inst \<and> thread inst = t) \<or>
      JoinThread t \<in> set (trace s') \<or> CancelThread t \<in> set (trace s')"
    and "\<And>ti inst. ti \<in> set tis \<Longrightarrow> inst_of s ti = Some inst \<Longrightarrow>
      (ti \<in> set tis' \<and> inst_of s' ti = Some inst) \<or> JoinThread (thread inst) \<in> set (trace s')"
  shows "accounted s' tis'"
  unfolding accounted_def
proof (intro allI impI)
  fix t p assume c: "CreateThread t p \<in> set (trace s')"
  show "(\<exists>ti \<in> set tis'. \<exists>inst. inst_of s' ti = Some inst \<and> thread inst = t) \<or>
      JoinThread t \<in> set (trace s') \<or> CancelThread t \<in> set (trace s')"
  proof (cases "CreateThread t p \<in> set (trace s)")
    case False
    with c show ?thesis by (rule assms(3))
  next
    case True
    then consider ti inst where "ti \<in> set tis" "inst_of s ti = Some inst" "thread inst = t"
      | "JoinThread t \<in> set (trace s) \<or> CancelThread t \<in> set (trace s)"
      using assms(1) unfolding accounted_def by blast
    then show ?thesis
    proof cases
      case 1
      with assms(4) [of ti inst] show ?thesis by blast
    next
      case 2
      with assms(2) show ?thesis by blast
    qed
  qed
qed

lemma accept_step_inv:
  assumes inv: "server_inv s tis" "accounted s tis" and al: "allocates env s"
    and run: "listener_spawn env s = Some (Inr (reap, s'))"
  shows "\<exists>tis'. server_inv s' tis' \<and> accounted s' tis'"
proof (cases reap)
  case False
  then obtain evs where s': "s' = s\<lparr>trace := trace s @ evs\<rparr>"
      "\<forall>t p. CreateThread t p \<in> set evs \<longrightarrow> CancelThread t \<in> set evs"
    using spawn_no_reap [OF _ al inv(1), of s'] run by auto
  then have "accounted s' tis" using inv(2) by (auto simp: accounted_def)
  then show ?thesis using inv(1) s'(1) by (auto simp: server_inv_trace)
next
  case True
  with run have run': "listener_spawn env s = Some (Inr (True, s'))" by simp
  obtain s2 where s2: "listener_spawn env s = Some (Inr (True, s2))"
      "server_inv s2 (tis @ [malloc_inst env])" "agree_on (set tis) s s2"
      "inst_of s2 (malloc_inst env) = Some \<lparr>thread = create_tid env, thread_data = malloc_data env\<rparr>"
      "trace s2 = trace s @ [CreateThread (create_tid env) (malloc_data env)]"
    using spawn_thread [OF inv(1) al] spawn_reap_env [OF run'] by blast
  have "accounted s2 (tis @ [malloc_inst env])"
  proof (rule accounted_mono [OF inv(2)])
    show "set (trace s) \<subseteq> set (trace s2)" by (auto simp: s2(5))
    fix t p assume "CreateThread t p \<in> set (trace s2)" "CreateThread t p \<notin> set (trace s)"
    then have "t = create_tid env" by (auto simp: s2(5))
    then show "(\<exists>ti \<in> set (tis @ [malloc_inst env]). \<exists>inst. inst_of s2 ti = Some inst \<and> thread inst = t) \<or>
        JoinThread t \<in> set (trace s2) \<or> CancelThread t \<in> set (trace s2)"
      using s2(4) by auto
  next
    fix ti inst assume "ti \<in> set tis" "inst_of s ti = Some inst"
    then show "(ti \<in> set (tis @ [malloc_inst env]) \<and> inst_of s2 ti = Some inst) \<or>
        JoinThread (thread inst) \<in> set (trace s2)"
      using s2(3) by (simp add: agree_on_def)
  qed
  with s2 run True show ?thesis by auto
qed

lemma reap_step_inv:
  assumes inv: "server_inv s tis" "accounted s tis"
    and run: "reap_loop (queue_get_head (queue_of s)) s = Some (Inr s')"
  shows "\<exists>tis'. server_inv s' tis' \<and> accounted s' tis'"
proof -
  let ?keep = "filter (\<lambda>t. \<not> completed s t) tis"
  have s': "server_inv s' ?keep" "agree_on (set ?keep) s s'"
      and tr: "trace s' = trace s @ concat (map (reap_events s) (filter (completed s) tis))"
    using reap_inv [OF inv(1)] run by auto
  have "accounted s' ?keep"
  proof (rule accounted_mono [OF inv(2)])
    show "set (trace s) \<subseteq> set (trace s')" by (simp add: tr)
    fix t p assume "CreateThread t p \<in> set (trace s')" "CreateThread t p \<notin> set (trace s)"
    then have False by (auto simp: tr reap_events_def split: option.splits if_splits)
    then show "(\<exists>ti \<in> set ?keep. \<exists>inst. inst_of s' ti = Some inst \<and> thread inst = t) \<or>
        JoinThread t \<in> set (trace s') \<or> CancelThread t \<in> set (trace s')" ..
  next
    fix ti inst assume ti: "ti \<in> set tis" "inst_of s ti = Some inst"
    show "(ti \<in> set ?keep \<and> inst_of s' ti = Some inst) \<or> JoinThread (thread inst) \<in> set (trace s')"
    proof (cases "completed s ti")
      case True
      moreover have "JoinThread (thread inst) \<in> set (reap_events s ti)"
        using ti(2) by (simp add: reap_events_def)
      ultimately show ?thesis using ti(1) by (auto simp: tr)
    next
      case False
      with ti s'(2) show ?thesis by (simp add: agree_on_def)
    qed
  qed
  with s'(1) show ?thesis by blast
qed

lemma finish_step_inv:
  assumes inv: "server_inv s tis" "accounted s tis" and run: "running s p" "worker_finish p s = Inr s'"
  shows "server_inv s' tis \<and> accounted s' tis"
proof -
  from run(1) obtain td where td: "data_of s p = Some td" by (auto simp: running_def split: option.splits)
  have ok: "server_ok s tis" using inv by (simp add: server_inv_def)
  then have "p \<noteq> NULL" using td server_okD(6,7) [OF ok] by (metis domI)
  then have s': "s' = s\<lparr>trace := trace s @ [CloseFd (client_fd td)],
      data_of := (data_of s)(p \<mapsto> \<lparr>client_fd = - 1, thread_completed = True\<rparr>)\<rparr>"
    using run(2) td by (auto simp: worker_finish_def log_event_def)
  then have same: "inst_data s' = inst_data s" by (simp add: inst_data_def fun_eq_iff)
  have "dom (data_of s') = dom (data_of s)" using td by (auto simp: s')
  moreover have "inst_of s' = inst_of s" "queue_of s' = queue_of s" by (simp_all add: s')
  ultimately have "server_ok s' tis" using ok unfolding server_ok_def same by simp
  moreover have "accounted s' tis" using inv(2) by (simp add: accounted_def s')
  ultimately show ?thesis using inv(1) by (auto simp: server_inv_def s' split: if_splits)
qed

lemma server_step_inv: "listener_inv st \<Longrightarrow> server_step st st' \<Longrightarrow> listener_inv st'"
  by (erule server_step.cases)
    (auto simp: listener_inv_def dest: accept_step_inv reap_step_inv finish_step_inv)

interpretation srv: step_invariant server_step listener_inv
  by unfold_locales (rule server_step_inv)

lemma listener_inv_init: "listener_inv (Accepting, server_init)"
  using server_inv_init by (auto simp: listener_inv_def accounted_def server_init_def)

end
