(* ===== verification/Server_Main.thy ===== *)
theory Server_Main
  imports Server_Loop
begin

text \<open>
  Model of \<open>main\<close> of server/aesdsocket.c as a whole: the set-up of the listening socket with
  its error paths, the accept loop, the shutdown loop and the exit label, together with the
  signal handler and the two small helpers. The model covers both builds of the server: the
  flag says whether it works on the character device (\<open>USE_AESD_CHAR_DEVICE\<close>) or on a
  temporary file (with the timer).
\<close>

section \<open>Set-up\<close>

text \<open>The results of the calls \<open>main\<close> makes before it accepts connections.\<close>

record setup_env =
  getaddrinfo_rc :: int
  socket_fd :: int
  setsockopt_rc :: int
  bind_rc :: int
  daemon_rc :: int
  listen_rc :: int
  mutex_init_rc :: int
  timer_create_rc :: int
  new_timer :: nat
  timer_settime_rc :: int

text \<open>The variables of \<open>main\<close> that the exit label uses; an uninitialised one is None or False.\<close>

record main_vars =
  sockfd :: int
  mutex_ready :: bool
  timer_id :: "nat option"

datatype setup_result =
    ReturnNow int
  | GotoExit int main_vars
  | Listening main_vars

definition DAEMON_KEY :: string where
  "DAEMON_KEY = ''-d''"

definition start_in_daemon :: "string list \<Rightarrow> bool" where
  "start_in_daemon argv \<longleftrightarrow> length argv = 2 \<and> argv ! 1 = DAEMON_KEY"

definition setup_timer :: "bool \<Rightarrow> setup_env \<Rightarrow> main_vars \<Rightarrow> setup_result" where
  "setup_timer use_char env v =
     (if use_char then Listening v
      else if timer_create_rc env \<noteq> 0 then GotoExit 0 v
      else
        let v' = v\<lparr>timer_id := Some (new_timer env)\<rparr>
        in if timer_settime_rc env \<noteq> 0 then GotoExit 0 v' else Listening v')"

definition main_setup :: "bool \<Rightarrow> string list \<Rightarrow> setup_env \<Rightarrow> setup_result" where
  "main_setup use_char argv env =
     (if getaddrinfo_rc env \<noteq> 0 then ReturnNow (- 1)
      else
        let v = \<lparr>sockfd = socket_fd env, mutex_ready = False, timer_id = None\<rparr> in
        if socket_fd env = - 1 then GotoExit (- 1) v
        else if setsockopt_rc env = - 1 then GotoExit (- 1) v
        else if bind_rc env = - 1 then GotoExit (- 1) v
        else if start_in_daemon argv \<and> daemon_rc env = - 1 then GotoExit (- 1) v
        else if listen_rc env = - 1 then GotoExit (- 1) v
        else if mutex_init_rc env \<noteq> 0 then GotoExit (- 1) v
        else setup_timer use_char env (v\<lparr>mutex_ready := True\<rparr>))"

section \<open>The exit label\<close>

text \<open>What leaving the program does, in order; the argument of \<open>TimerDelete\<close> is None when the
  variable was never set, that of \<open>MutexDestroy\<close> tells whether the mutex was initialised.\<close>

datatype exit_event =
    TimerDelete "nat option"
  | MutexDestroy bool
  | FreeAddrinfo
  | CloseSocket int
  | RemoveFile string
  | CloseLog

definition data_file_name :: "bool \<Rightarrow> string" where
  "data_file_name use_char = (if use_char then ''/dev/aesdchar'' else ''/var/tmp/aesdsocketdata'')"

definition remove_data_file :: "bool \<Rightarrow> exit_event list" where
  "remove_data_file use_char = (if use_char then [] else [RemoveFile (data_file_name use_char)])"

definition main_exit :: "bool \<Rightarrow> main_vars \<Rightarrow> main_vars \<times> exit_event list" where
  "main_exit use_char v =
     (v\<lparr>sockfd := - 1\<rparr>,
      (if use_char then [] else [TimerDelete (timer_id v), MutexDestroy (mutex_ready v)]) @
      [FreeAddrinfo, CloseSocket (sockfd v)] @ remove_data_file use_char @ [CloseLog])"

section \<open>The program\<close>

text \<open>The rounds run while the flag \<open>is_active\<close> is set; the list ends where a signal clears it.
  Between rounds the thread with given data may come to its end.\<close>

datatype main_event = Round round_env | ThreadEnds ptr

fun accept_loop :: "main_event list \<Rightarrow> server \<Rightarrow> (fault + server) option" where
  "accept_loop [] s = Some (Inr s)"
| "accept_loop (Round env # es) s =
     Option.bind (listener_round env s)
       (\<lambda>r. case r of Inl f \<Rightarrow> Some (Inl f) | Inr s' \<Rightarrow> accept_loop es s')"
| "accept_loop (ThreadEnds p # es) s =
     (case worker_finish p s of Inl f \<Rightarrow> Some (Inl f) | Inr s' \<Rightarrow> accept_loop es s')"

definition server_main ::
  "bool \<Rightarrow> string list \<Rightarrow> setup_env \<Rightarrow> main_event list \<Rightarrow> (fault + int \<times> exit_event list \<times> server) option" where
  "server_main use_char argv env es =
     (case main_setup use_char argv env of
        ReturnNow rc \<Rightarrow> Some (Inr (rc, [], server_init))
      | GotoExit rc v \<Rightarrow> Some (Inr (rc, snd (main_exit use_char v), server_init))
      | Listening v \<Rightarrow>
          Option.bind (accept_loop es server_init)
            (\<lambda>r. case r of
               Inl f \<Rightarrow> Some (Inl f)
             | Inr s \<Rightarrow>
                 Option.bind (shutdown_loop s)
                   (\<lambda>r'. Some (and_then r' (\<lambda>s'. Inr (0, snd (main_exit use_char v), s'))))))"

section \<open>The signal handler and the address helper\<close>

datatype signal = SIGINT | SIGTERM | SIGALRM | OtherSignal

record process =
  is_active :: bool
  listen_fd :: int
  errno_val :: int

text \<open>The second argument is what the calls in the handler leave in \<open>errno\<close>; the result lists
  the sockets that were shut down.\<close>

definition signal_handler :: "signal \<Rightarrow> int \<Rightarrow> process \<Rightarrow> process \<times> int list" where
  "signal_handler sig clobber p =
     (let old_errno = errno_val p in
      if sig = SIGINT \<or> sig = SIGTERM then
        let p1 = p\<lparr>is_active := False, errno_val := clobber\<rparr>;
            downs = (if listen_fd p1 \<noteq> - 1 then [listen_fd p1] else [])
        in (p1\<lparr>errno_val := old_errno\<rparr>, downs)
      else if sig = SIGALRM then ((p\<lparr>errno_val := clobber\<rparr>)\<lparr>errno_val := old_errno\<rparr>, [])
      else (p\<lparr>errno_val := old_errno\<rparr>, []))"

datatype in_addr = Sin_addr | Sin6_addr

definition AF_INET :: nat where
  "AF_INET = 2"

definition get_in_addr :: "nat \<Rightarrow> in_addr" where
  "get_in_addr family = (if family = AF_INET then Sin_addr else Sin6_addr)"

section \<open>Lemmas\<close>

lemma signal_handler_result:
  "signal_handler sig clobber p =
     (if sig \<in> {SIGINT, SIGTERM}
      then (p\<lparr>is_active := False\<rparr>, if listen_fd p = - 1 then [] else [listen_fd p])
      else (p, []))"
  by (simp add: signal_handler_def Let_def)

text \<open>A set-up in which every call succeeds.\<close>

definition setup_succeeds :: "setup_env \<Rightarrow> bool" where
  "setup_succeeds env \<longleftrightarrow> getaddrinfo_rc env = 0 \<and> socket_fd env \<noteq> - 1 \<and> setsockopt_rc env \<noteq> - 1 \<and>
     bind_rc env \<noteq> - 1 \<and> daemon_rc env \<noteq> - 1 \<and> listen_rc env \<noteq> - 1 \<and> mutex_init_rc env = 0 \<and>
     timer_create_rc env = 0 \<and> timer_settime_rc env = 0"

lemma setup_listening:
  "setup_succeeds env \<Longrightarrow>
   main_setup use_char argv env =
     Listening \<lparr>sockfd = socket_fd env, mutex_ready = True,
       timer_id = if use_char then None else Some (new_timer env)\<rparr>"
  by (simp add: setup_succeeds_def main_setup_def setup_timer_def Let_def)

text \<open>Rounds in which the allocator works and the one unchecked allocation succeeds, with ends of
  threads that run; in the end no thread runs.\<close>

fun events_ok :: "main_event list \<Rightarrow> server \<Rightarrow> bool" where
  "events_ok [] s \<longleftrightarrow> (\<forall>p \<in> dom (data_of s). \<not> running s p)"
| "events_ok (Round env # es) s \<longleftrightarrow> allocates env s \<and> malloc_inst env \<noteq> NULL \<and>
     (case listener_round env s of Some (Inr s') \<Rightarrow> events_ok es s' | _ \<Rightarrow> True)"
| "events_ok (ThreadEnds p # es) s \<longleftrightarrow> running s p \<and>
     (case worker_finish p s of Inr s' \<Rightarrow> events_ok es s' | _ \<Rightarrow> True)"

lemma spawn_total:
  assumes inv: "server_inv s tis" and al: "allocates env s" and "malloc_inst env \<noteq> NULL"
  shows "\<exists>reap s'. listener_spawn env s = Some (Inr (reap, s'))"
proof (cases "accept_fd env = - 1 \<or> malloc_data env = NULL \<or> create_rc env \<noteq> 0 \<or> malloc_node env = NULL")
  case True
  with assms show ?thesis
    by (cases "accept_fd env = - 1"; cases "malloc_data env = NULL"; cases "create_rc env = 0")
      (auto simp: spawn_accept_error spawn_no_data spawn_no_thread spawn_no_node)
next
  case False
  then obtain s' where "listener_spawn env s = Some (Inr (True, s'))"
    using spawn_thread [OF inv al _ _ _ assms(3)] by auto
  then show ?thesis by blast
qed

lemma round_inv:
  assumes inv: "server_inv s tis" "accounted s tis" and al: "allocates env s" "malloc_inst env \<noteq> NULL"
  shows "\<exists>s' tis'. listener_round env s = Some (Inr s') \<and> server_inv s' tis' \<and> accounted s' tis'"
proof -
  obtain reap s1 where s1: "listener_spawn env s = Some (Inr (reap, s1))"
    using spawn_total [OF inv(1) al] by blast
  then obtain tis1 where inv1: "server_inv s1 tis1" "accounted s1 tis1"
    using accept_step_inv [OF inv al(1)] by blast
  obtain s2 where s2: "reap_loop (queue_get_head (queue_of s1)) s1 = Some (Inr s2)"
    using reap_inv [OF inv1(1)] by blast
  with reap_step_inv [OF inv1 s2] inv1 s1 show ?thesis
    by (cases reap) (auto simp: listener_round_def)
qed

lemma running_finishes: "running s p \<Longrightarrow> \<exists>s'. worker_finish p s = Inr s'"
  by (auto simp: running_def worker_finish_def Let_def split: option.splits)

lemma accept_loop_inv:
  "server_inv s tis \<Longrightarrow> accounted s tis \<Longrightarrow> events_ok es s \<Longrightarrow>
   \<exists>s' tis'. accept_loop es s = Some (Inr s') \<and> server_inv s' tis' \<and> accounted s' tis' \<and>
     (\<forall>p \<in> dom (data_of s'). \<not> running s' p)"
proof (induction es s arbitrary: tis rule: accept_loop.induct)
  case (1 s)
  then show ?case by auto
next
  case (2 env es s)
  then obtain s1 tis1 where s1: "listener_round env s = Some (Inr s1)" "server_inv s1 tis1" "accounted s1 tis1"
    using round_inv by (metis events_ok.simps(2))
  with 2 show ?case by simp
next
  case (3 p es s)
  then have "running s p" by simp
  then obtain s1 where s1: "running s p" "worker_finish p s = Inr s1"
    using running_finishes by blast
  have inv1: "server_inv s1 tis" "accounted s1 tis" using finish_step_inv [OF 3(2,3) s1] by blast+
  have "events_ok es s1" using 3(4) s1 by simp
  from "3.IH" [OF s1(2) inv1 this] s1 show ?case by simp
qed

lemma shutdown_accounted:
  assumes "server_ok s tis" and "accounted s tis"
  shows "\<exists>s'. shutdown_loop s = Some (Inr s') \<and> server_ok s' [] \<and> accounted s' []"
proof -
  obtain s' where s': "shutdown_loop s = Some (Inr s')" "server_ok s' []"
      and tr: "trace s' = trace s @ concat (map (reap_events s) tis)"
    using shutdown_drains [OF assms(1)] by blast
  have "accounted s' []"
  proof (rule accounted_mono [OF assms(2)])
    show "set (trace s) \<subseteq> set (trace s')" by (simp add: tr)
    fix t p assume "CreateThread t p \<in> set (trace s')" "CreateThread t p \<notin> set (trace s)"
    then have False by (auto simp: tr reap_events_def split: option.splits if_splits)
    then show "(\<exists>ti \<in> set []. \<exists>inst. inst_of s' ti = Some inst \<and> thread inst = t) \<or>
        JoinThread t \<in> set (trace s') \<or> CancelThread t \<in> set (trace s')" ..
  next
    fix ti inst assume "ti \<in> set tis" "inst_of s ti = Some inst"
    then have "JoinThread (thread inst) \<in> set (reap_events s ti)" by (simp add: reap_events_def)
    with \<open>ti \<in> set tis\<close> show "(ti \<in> set [] \<and> inst_of s' ti = Some inst) \<or>
        JoinThread (thread inst) \<in> set (trace s')" by (auto simp: tr)
  qed
  with s' show ?thesis by blast
qed

end
