(* ===== verification/Server_Threads.thy ===== *)
theory Server_Threads
  imports Server_Loop
begin

text \<open>
  The life of the server's threads, with the threads that run at any moment as part of the
  state: the listener accepts, reaps, and at the signal drains its queue, freeing the data of
  every thread and joining it, while threads end at any point between. A join returns only
  when the thread has ended; a cancelled thread ends at some later moment, or gets to its own
  end before. Touching freed memory leads to the state \<open>Crashed\<close>. What a thread does before its
  end is not part of this model: its conversation, with its own faults, is in
  \<open>Connection_Handler\<close>.
\<close>

section \<open>Steps\<close>

datatype server_pc = Accept | Reap | Drain | Join ptr | Exited | Crashed

text \<open>Whether a round gets as far as a running thread.\<close>

definition creates_thread :: "round_env \<Rightarrow> bool" where
  "creates_thread env \<longleftrightarrow> accept_fd env \<noteq> - 1 \<and> malloc_data env \<noteq> NULL \<and> malloc_inst env \<noteq> NULL \<and>
     create_rc env = 0"

definition start_thread :: "round_env \<Rightarrow> (nat \<rightharpoonup> ptr) \<Rightarrow> (nat \<rightharpoonup> ptr)" where
  "start_thread env live = (if creates_thread env then live(create_tid env \<mapsto> malloc_data env) else live)"

text \<open>The identifier of a new thread is not that of a thread that runs or has not been joined.\<close>

definition fresh_thread :: "round_env \<Rightarrow> server \<Rightarrow> (nat \<rightharpoonup> ptr) \<Rightarrow> bool" where
  "fresh_thread env s live \<longleftrightarrow>
     create_tid env \<notin> dom live \<and> (\<forall>inst \<in> ran (inst_of s). thread inst \<noteq> create_tid env)"

text \<open>
  The parameters: \<open>has_memory\<close>, the allocations of the thread instance and of the queue's node
  succeed; \<open>patient\<close>, the signal comes when no thread runs. The threads that run are a map
  from their identifiers to their data.
\<close>

inductive threads_step ::
  "bool \<Rightarrow> bool \<Rightarrow> server_pc \<times> server \<times> (nat \<rightharpoonup> ptr) \<Rightarrow> server_pc \<times> server \<times> (nat \<rightharpoonup> ptr) \<Rightarrow> bool"
  for has_memory patient where
  round: "allocates env s \<Longrightarrow> fresh_thread env s live \<Longrightarrow>
    has_memory \<longrightarrow> malloc_inst env \<noteq> NULL \<and> malloc_node env \<noteq> NULL \<Longrightarrow>
    listener_spawn env s = Some (Inr (reap, s')) \<Longrightarrow>
    threads_step has_memory patient (Accept, s, live) (if reap then Reap else Accept, s', start_thread env live)"
| round_faults: "allocates env s \<Longrightarrow> fresh_thread env s live \<Longrightarrow>
    has_memory \<longrightarrow> malloc_inst env \<noteq> NULL \<and> malloc_node env \<noteq> NULL \<Longrightarrow>
    listener_spawn env s = Some (Inl f) \<Longrightarrow>
    threads_step has_memory patient (Accept, s, live) (Crashed, s, live)"
| reap: "reap_loop (queue_get_head (queue_of s)) s = Some (Inr s') \<Longrightarrow>
    threads_step has_memory patient (Reap, s, live) (Accept, s', live)"
| reap_faults: "reap_loop (queue_get_head (queue_of s)) s = Some (Inl f) \<Longrightarrow>
    threads_step has_memory patient (Reap, s, live) (Crashed, s, live)"
| signal: "patient \<longrightarrow> live = Map.empty \<Longrightarrow>
    threads_step has_memory patient (Accept, s, live) (Drain, s, live)"
| release: "queue_dequeue (queue_of s) = Inr (ti, q) \<Longrightarrow> ti \<noteq> NULL \<Longrightarrow>
    shutdown_release ti (s\<lparr>queue_of := q\<rparr>) = Inr s' \<Longrightarrow>
    threads_step has_memory patient (Drain, s, live) (Join ti, s', live)"
| release_faults: "queue_dequeue (queue_of s) = Inr (ti, q) \<Longrightarrow> ti \<noteq> NULL \<Longrightarrow>
    shutdown_release ti (s\<lparr>queue_of := q\<rparr>) = Inl f \<Longrightarrow>
    threads_step has_memory patient (Drain, s, live) (Crashed, s, live)"
| join: "inst_of s ti = Some inst \<Longrightarrow> live (thread inst) = None \<Longrightarrow> shutdown_join ti s = Inr s' \<Longrightarrow>
    threads_step has_memory patient (Join ti, s, live) (Drain, s', live)"
| leave: "queue_dequeue (queue_of s) = Inr (NULL, q) \<Longrightarrow>
    threads_step has_memory patient (Drain, s, live) (Exited, s\<lparr>queue_of := q\<rparr>, live)"
| thread_ends: "live t = Some p \<Longrightarrow> worker_finish p s = Inr s' \<Longrightarrow> pc \<notin> {Exited, Crashed} \<Longrightarrow>
    threads_step has_memory patient (pc, s, live) (pc, s', live(t := None))"
| thread_faults: "live t = Some p \<Longrightarrow> worker_finish p s = Inl f \<Longrightarrow> pc \<notin> {Exited, Crashed} \<Longrightarrow>
    threads_step has_memory patient (pc, s, live) (Crashed, s, live)"
| thread_cancelled: "live t = Some p \<Longrightarrow> CancelThread t \<in> set (trace s) \<Longrightarrow> pc \<notin> {Exited, Crashed} \<Longrightarrow>
    threads_step has_memory patient (pc, s, live) (pc, s, live(t := None))"

section \<open>Every running thread has its data\<close>

text \<open>
  While the queue takes every thread, a thread that runs is that of an instance of the
  queue, with the data it was created with, and it has not completed; instances have
  different threads.
\<close>

definition threads_inv :: "server \<Rightarrow> ptr list \<Rightarrow> (nat \<rightharpoonup> ptr) \<Rightarrow> bool" where
  "threads_inv s tis live \<longleftrightarrow>
     server_inv s tis \<and> accounted s tis \<and> (\<forall>t. CancelThread t \<notin> set (trace s)) \<and>
     inj_on (\<lambda>ti. map_option thread (inst_of s ti)) (set tis) \<and>
     (\<forall>t p. live t = Some p \<longrightarrow>
        (\<exists>ti \<in> set tis. inst_of s ti = Some \<lparr>thread = t, thread_data = p\<rparr> \<and> \<not> completed s ti))"

lemma threads_invD:
  assumes "threads_inv s tis live"
  shows "server_inv s tis" and "server_ok s tis" and "accounted s tis" and "CancelThread t \<notin> set (trace s)"
    and "inj_on (\<lambda>ti. map_option thread (inst_of s ti)) (set tis)"
    and "live t = Some p \<Longrightarrow>
        \<exists>ti \<in> set tis. inst_of s ti = Some \<lparr>thread = t, thread_data = p\<rparr> \<and> \<not> completed s ti"
  using assms by (simp_all add: threads_inv_def server_inv_def)

lemma threads_inv_init: "threads_inv server_init [] Map.empty"
  using server_inv_init by (simp add: threads_inv_def accounted_def server_init_def)

text \<open>The end of a running thread: its data is there.\<close>

lemma running_thread:
  assumes inv: "threads_inv s tis live" and t: "live t = Some p"
  obtains td where "p \<noteq> NULL" and "data_of s p = Some td" and "\<not> thread_completed td" and "running s p"
proof -
  obtain ti where ti: "ti \<in> set tis" "inst_of s ti = Some \<lparr>thread = t, thread_data = p\<rparr>" "\<not> completed s ti"
    using threads_invD(6) [OF inv t] by blast
  obtain inst td where "inst_of s ti = Some inst" "thread_data inst \<noteq> NULL"
      "data_of s (thread_data inst) = Some td" "inst_data s ti = thread_data inst"
    using threads_invD(2) [OF inv] ti(1) by (rule server_ok_lookup)
  moreover from this(1) ti(2) have "thread_data inst = p" by auto
  ultimately show thesis using ti(3) that by (simp add: completed_def running_def)
qed

lemma worker_finish_result:
  "data_of s p = Some td \<Longrightarrow> p \<noteq> NULL \<Longrightarrow>
   worker_finish p s = Inr (s\<lparr>trace := trace s @ [CloseFd (client_fd td)],
      data_of := (data_of s)(p \<mapsto> \<lparr>client_fd = - 1, thread_completed = True\<rparr>)\<rparr>)"
  by (simp add: worker_finish_def log_event_def)

lemma threads_inv_ends:
  assumes inv: "threads_inv s tis live" and t: "live t = Some p"
  shows "\<exists>s'. worker_finish p s = Inr s' \<and> threads_inv s' tis (live(t := None))"
proof -
  obtain td where td: "p \<noteq> NULL" "data_of s p = Some td" "running s p"
    using inv t by (rule running_thread)
  define s' where "s' = s\<lparr>trace := trace s @ [CloseFd (client_fd td)],
      data_of := (data_of s)(p \<mapsto> \<lparr>client_fd = - 1, thread_completed = True\<rparr>)\<rparr>"
  have fin: "worker_finish p s = Inr s'" using worker_finish_result [OF td(2,1)] by (simp add: s'_def)
  have sv: "server_inv s' tis \<and> accounted s' tis"
    using finish_step_inv [OF threads_invD(1,3) [OF inv] td(3) fin] .
  have same: "inst_of s' = inst_of s" "\<forall>t. CancelThread t \<notin> set (trace s')"
    using threads_invD(4) [OF inv] by (simp_all add: s'_def)
  have "\<exists>ti \<in> set tis. inst_of s' ti = Some \<lparr>thread = u, thread_data = r\<rparr> \<and> \<not> completed s' ti"
    if u: "(live(t := None)) u = Some r" for u r
  proof -
    obtain ti where ti: "ti \<in> set tis" "inst_of s ti = Some \<lparr>thread = t, thread_data = p\<rparr>"
      using threads_invD(6) [OF inv t] by blast
    from u have "u \<noteq> t" "live u = Some r" by (auto split: if_splits)
    then obtain tj where tj: "tj \<in> set tis" "inst_of s tj = Some \<lparr>thread = u, thread_data = r\<rparr>" "\<not> completed s tj"
      using threads_invD(6) [OF inv] by blast
    with ti \<open>u \<noteq> t\<close> have "ti \<noteq> tj" by auto
    then have "inst_data s ti \<noteq> inst_data s tj"
      using server_okD(5) [OF threads_invD(2) [OF inv]] ti(1) tj(1) by (auto simp: distinct_map inj_on_def)
    then have "r \<noteq> p" using ti(2) tj(2) by (simp add: inst_data_def)
    then have "\<not> completed s' tj" using tj by (simp add: completed_def inst_data_def s'_def)
    with tj same(1) show ?thesis by auto
  qed
  with sv same threads_invD(5) [OF inv] have "threads_inv s' tis (live(t := None))"
    unfolding threads_inv_def by simp
  with fin show ?thesis by blast
qed

text \<open>A round: no fault, and the new thread is in the queue.\<close>

lemma spawn_cases:
  assumes inv: "server_inv s tis" and al: "allocates env s"
    and mem: "malloc_inst env \<noteq> NULL" "malloc_node env \<noteq> NULL"
  obtains (none) evs where "\<not> creates_thread env"
      and "listener_spawn env s = Some (Inr (False, s\<lparr>trace := trace s @ evs\<rparr>))"
      and "\<forall>t p. CreateThread t p \<notin> set evs \<and> CancelThread t \<notin> set evs"
  | (thread) s' where "creates_thread env" and "listener_spawn env s = Some (Inr (True, s'))"
      and "server_inv s' (tis @ [malloc_inst env])" and "agree_on (set tis) s s'"
      and "inst_of s' (malloc_inst env) = Some \<lparr>thread = create_tid env, thread_data = malloc_data env\<rparr>"
      and "data_of s' (malloc_data env) = Some \<lparr>client_fd = accept_fd env, thread_completed = False\<rparr>"
      and "trace s' = trace s @ [CreateThread (create_tid env) (malloc_data env)]"
proof (cases "creates_thread env")
  case True
  with spawn_thread [OF inv al] mem thread show thesis by (auto simp: creates_thread_def)
next
  case False
  consider "accept_fd env = - 1" | "accept_fd env \<noteq> - 1" "malloc_data env = NULL"
    | "accept_fd env \<noteq> - 1" "malloc_data env \<noteq> NULL" "create_rc env \<noteq> 0"
    using False mem by (auto simp: creates_thread_def)
  then show thesis
  proof cases
    case 1
    then have "listener_spawn env s = Some (Inr (False, s\<lparr>trace := trace s @ []\<rparr>))"
      by (simp add: spawn_accept_error)
    then show thesis using none [OF False] by (metis empty_iff empty_set)
  next
    case 2
    from none [OF False spawn_no_data [OF 2]] show thesis by simp
  next
    case 3
    from none [OF False spawn_no_thread [OF 3(1,2) mem(1) 3(3) al]] show thesis by simp
  qed
qed

lemma threads_inv_round:
  assumes inv: "threads_inv s tis live" and al: "allocates env s" and fresh: "fresh_thread env s live"
    and mem: "malloc_inst env \<noteq> NULL" "malloc_node env \<noteq> NULL"
    and run: "listener_spawn env s = Some r"
  shows "\<exists>reap s' tis'. r = Inr (reap, s') \<and> threads_inv s' tis' (start_thread env live)"
  using threads_invD(1) [OF inv] al mem
proof (cases rule: spawn_cases)
  case (none evs)
  let ?s = "s\<lparr>trace := trace s @ evs\<rparr>"
  have "accounted ?s tis" using threads_invD(3) [OF inv] none(3) by (simp add: accounted_def) blast
  moreover have "completed ?s ti = completed s ti" for ti by (simp add: completed_def inst_data_def)
  ultimately have "threads_inv ?s tis live"
    using inv none(3) by (simp add: threads_inv_def server_inv_trace)
  with none run show ?thesis by (auto simp: start_thread_def)
next
  case (thread s')
  let ?ti = "malloc_inst env"
  have new: "?ti \<notin> set tis"
    using al server_okD(4) [OF threads_invD(2) [OF inv]] by (auto simp: allocates_def)
  obtain tis1 where "server_inv s' tis1" "accounted s' tis1"
    using accept_step_inv [OF threads_invD(1,3) [OF inv] al thread(2)] by blast
  then have "set tis1 = set (tis @ [?ti])"
    using thread(3) unfolding server_inv_def server_ok_def by metis
  with \<open>accounted s' tis1\<close> have acc: "accounted s' (tis @ [?ti])" by (simp add: accounted_def)
  have same: "inst_of s' ti = inst_of s ti" "completed s' ti = completed s ti" if "ti \<in> set tis" for ti
    using thread(4) that agree_on_completed [OF thread(4) that] by (simp_all add: agree_on_def)
  have other: "map_option thread_instance.thread (inst_of s ti) \<noteq> Some (create_tid env)" if "ti \<in> set tis" for ti
    using fresh by (auto simp: fresh_thread_def ran_def)
  have inj: "inj_on (\<lambda>ti. map_option thread_instance.thread (inst_of s' ti)) (set (tis @ [?ti]))"
  proof -
    have "map_option thread_instance.thread (inst_of s' ?ti) \<notin> (\<lambda>ti. map_option thread_instance.thread (inst_of s' ti)) ` set tis"
    proof
      let ?f = "\<lambda>ti. map_option thread_instance.thread (inst_of s' ti)"
      assume "?f ?ti \<in> ?f ` set tis"
      then obtain x where x: "x \<in> set tis" "?f ?ti = ?f x" by (rule imageE)
      have "?f ?ti = Some (create_tid env)" by (simp add: thread(5))
      with x other [of x] same(1) [of x] show False by metis
    qed
    moreover have "inj_on (\<lambda>ti. map_option thread_instance.thread (inst_of s' ti)) (set tis)"
      using threads_invD(5) [OF inv] same(1) by (simp add: inj_on_def)
    ultimately show ?thesis using new by simp
  qed
  have "\<exists>ti \<in> set (tis @ [?ti]). inst_of s' ti = Some \<lparr>thread = t, thread_data = p\<rparr> \<and> \<not> completed s' ti"
    if "start_thread env live t = Some p" for t p
  proof (cases "t = create_tid env")
    case True
    with that thread(1) have "p = malloc_data env" by (simp add: start_thread_def)
    with True thread(5,6) show ?thesis by (simp add: completed_def inst_data_def)
  next
    case False
    with that thread(1) have "live t = Some p" by (simp add: start_thread_def)
    with threads_invD(6) [OF inv this] same show ?thesis by auto
  qed
  moreover have "\<forall>t. CancelThread t \<notin> set (trace s')"
    using threads_invD(4) [OF inv] by (simp add: thread(7))
  ultimately have "threads_inv s' (tis @ [?ti]) (start_thread env live)"
    unfolding threads_inv_def using thread(3) acc inj by blast
  moreover have "r = Inr (True, s')" using thread(2) run by simp
  ultimately show ?thesis by blast
qed

text \<open>The reaping walk takes away completed threads only, and these do not run.\<close>

lemma threads_inv_reap:
  assumes inv: "threads_inv s tis live"
    and run: "reap_loop (queue_get_head (queue_of s)) s = Some r"
  shows "\<exists>s' tis'. r = Inr s' \<and> threads_inv s' tis' live"
proof -
  let ?keep = "filter (\<lambda>t. \<not> completed s t) tis"
  obtain s' where s': "reap_loop (queue_get_head (queue_of s)) s = Some (Inr s')" "server_inv s' ?keep"
      "trace s' = trace s @ concat (map (reap_events s) (filter (completed s) tis))"
      "agree_on (set ?keep) s s'"
    using reap_inv [OF threads_invD(1) [OF inv]] by blast
  obtain tis1 where "server_inv s' tis1" "accounted s' tis1"
    using reap_step_inv [OF threads_invD(1,3) [OF inv] s'(1)] by blast
  then have "set tis1 = set ?keep"
    using s'(2) unfolding server_inv_def server_ok_def by metis
  with \<open>accounted s' tis1\<close> have acc: "accounted s' ?keep" by (simp add: accounted_def)
  have same: "inst_of s' ti = inst_of s ti \<and> completed s' ti = completed s ti" if "ti \<in> set ?keep" for ti
    using agree_on_completed [OF s'(4) that] s'(4) that by (simp add: agree_on_def)
  have "CancelThread t \<notin> set (trace s')" for t
    using threads_invD(4) [OF inv] by (auto simp: s'(3) reap_events_def split: option.splits if_splits)
  moreover have "inj_on (\<lambda>ti. map_option thread (inst_of s' ti)) (set ?keep)"
    using threads_invD(5) [OF inv] same unfolding inj_on_def by auto
  moreover have "\<exists>ti \<in> set ?keep. inst_of s' ti = Some \<lparr>thread = t, thread_data = p\<rparr> \<and> \<not> completed s' ti"
    if "live t = Some p" for t p
    using threads_invD(6) [OF inv that] same by fastforce
  ultimately have "threads_inv s' ?keep live"
    unfolding threads_inv_def using s'(2) acc by blast
  with s'(1) run show ?thesis by auto
qed

section \<open>Draining when no thread runs\<close>

lemma threads_inv_drain:
  assumes inv: "threads_inv s tis Map.empty" and deq: "queue_dequeue (queue_of s) = Inr (ti, q)" and ti: "ti \<noteq> NULL"
  shows "\<exists>s1 inst s2 tis'. shutdown_release ti (s\<lparr>queue_of := q\<rparr>) = Inr s1 \<and> inst_of s1 ti = Some inst \<and>
     shutdown_join ti s1 = Inr s2 \<and> threads_inv s2 tis' Map.empty"
proof -
  note ok = threads_invD(2) [OF inv]
  obtain tis' where tis: "tis = ti # tis'" and q: "queue_rep q tis'"
  proof (cases tis)
    case Nil
    with deq ti server_okD(1) [OF ok] tq.dequeue_empty show thesis by fastforce
  next
    case (Cons x xs)
    obtain q' where "queue_dequeue (queue_of s) = Inr (x, q')" "queue_rep q' xs"
      using tq.dequeue_ok server_okD(1) [OF ok] Cons by blast
    with deq Cons that show thesis by simp
  qed
  have ok': "server_ok s ([] @ ti # tis')" using ok tis by simp
  obtain s2 where s2: "and_then (shutdown_release ti (s\<lparr>queue_of := q\<rparr>)) (shutdown_join ti) = Inr s2"
      "without ti s s2" "queue_of s2 = q"
    using shutdown_one [of s ti tis' q] ok' q by auto
  then obtain s1 where s1: "shutdown_release ti (s\<lparr>queue_of := q\<rparr>) = Inr s1" "shutdown_join ti s1 = Inr s2" by auto
  then obtain inst where i: "inst_of s1 ti = Some inst" by (auto simp: shutdown_join_def split: option.splits)
  have sok: "server_ok s2 tis'" using without_ok [OF ok' s2(2)] q s2(3) by simp
  have ag: "agree_on (set tis') s s2" using without_agree [OF ok' s2(2)] by simp
  have sinv: "server_inv s2 tis'"
    using server_inv_agree [OF threads_invD(1) [OF inv] sok ag] tis by auto
  have ins: "inst_of s2 = (inst_of s)(ti := None)" and tr: "trace s2 = trace s @ reap_events s ti"
    using s2(2) by (simp_all add: without_def)
  have "accounted s2 tis'"
  proof (rule accounted_mono [OF threads_invD(3) [OF inv]])
    show "set (trace s) \<subseteq> set (trace s2)" by (simp add: tr)
    fix t p assume "CreateThread t p \<in> set (trace s2)" "CreateThread t p \<notin> set (trace s)"
    then have False by (auto simp: tr reap_events_def split: option.splits if_splits)
    then show "(\<exists>ti \<in> set tis'. \<exists>inst. inst_of s2 ti = Some inst \<and> thread inst = t) \<or>
        JoinThread t \<in> set (trace s2) \<or> CancelThread t \<in> set (trace s2)" ..
  next
    fix x inst assume x: "x \<in> set tis" "inst_of s x = Some inst"
    show "(x \<in> set tis' \<and> inst_of s2 x = Some inst) \<or> JoinThread (thread inst) \<in> set (trace s2)"
    proof (cases "x = ti")
      case True
      with x show ?thesis by (simp add: tr reap_events_def)
    next
      case False
      with x tis show ?thesis by (simp add: ins)
    qed
  qed
  moreover have "CancelThread t \<notin> set (trace s2)" for t
    using threads_invD(4) [OF inv] by (auto simp: tr reap_events_def split: option.splits if_splits)
  moreover have "inj_on (\<lambda>ti. map_option thread (inst_of s2 ti)) (set tis')"
  proof -
    have "ti \<notin> set tis'" using server_okD(2) [OF ok'] by simp
    then have "\<forall>x \<in> set tis'. inst_of s2 x = inst_of s x" by (auto simp: ins)
    moreover have "inj_on (\<lambda>ti. map_option thread (inst_of s ti)) (set tis')"
      using threads_invD(5) [OF inv] tis by (auto intro: inj_on_subset)
    ultimately show ?thesis by (simp add: inj_on_def)
  qed
  ultimately have "threads_inv s2 tis' Map.empty" using sinv by (simp add: threads_inv_def)
  with s1 i show ?thesis by blast
qed

text \<open>The whole system, patient and with memory: what holds at every place of the listener.\<close>

fun patient_inv :: "server_pc \<times> server \<times> (nat \<rightharpoonup> ptr) \<Rightarrow> bool" where
  "patient_inv (Join ti, s, live) \<longleftrightarrow>
     live = Map.empty \<and> (\<exists>s' tis. shutdown_join ti s = Inr s' \<and> threads_inv s' tis Map.empty)"
| "patient_inv (Drain, s, live) \<longleftrightarrow> live = Map.empty \<and> (\<exists>tis. threads_inv s tis Map.empty)"
| "patient_inv (Exited, s, live) \<longleftrightarrow> live = Map.empty \<and> threads_inv s [] Map.empty"
| "patient_inv (Crashed, s, live) \<longleftrightarrow> False"
| "patient_inv (_, s, live) \<longleftrightarrow> (\<exists>tis. threads_inv s tis live)"

lemma threads_inv_leave:
  assumes inv: "threads_inv s tis Map.empty" and deq: "queue_dequeue (queue_of s) = Inr (NULL, q)"
  shows "threads_inv (s\<lparr>queue_of := q\<rparr>) [] Map.empty"
proof -
  note ok = threads_invD(2) [OF inv]
  have tis: "tis = []"
  proof (cases tis)
    case (Cons x xs)
    then obtain q' where "queue_dequeue (queue_of s) = Inr (x, q')"
      using tq.dequeue_ok server_okD(1) [OF ok] by blast
    with deq Cons server_okD(3) [OF ok] show ?thesis by auto
  qed simp
  then have "q = queue_of s" using deq tq.dequeue_empty server_okD(1) [OF ok] by fastforce
  then have "s\<lparr>queue_of := q\<rparr> = s" by simp
  then show ?thesis using inv tis by simp
qed

lemma patient_step:
  assumes "threads_step True True st st'" and "patient_inv st"
  shows "patient_inv st'"
  using assms
proof (induction rule: threads_step.induct)
  case (round env s live reap s')
  then obtain tis where inv: "threads_inv s tis live" by auto
  from threads_inv_round [OF inv round(1,2) _ _ round(4)] round(3) show ?case by (cases reap) auto
next
  case (round_faults env s live f)
  then obtain tis where inv: "threads_inv s tis live" by auto
  from threads_inv_round [OF inv round_faults(1,2) _ _ round_faults(4)] round_faults(3) show ?case by auto
next
  case (reap s s' live)
  then show ?case using threads_inv_reap by fastforce
next
  case (reap_faults s f live)
  then show ?case using threads_inv_reap by fastforce
next
  case (signal live s)
  then show ?case by auto
next
  case (release s ti q s' live)
  then obtain tis where "threads_inv s tis Map.empty" "live = Map.empty" by auto
  with threads_inv_drain [OF this(1) release(1,2)] release(3) show ?case by auto
next
  case (release_faults s ti q f live)
  then obtain tis where "threads_inv s tis Map.empty" "live = Map.empty" by auto
  with threads_inv_drain [OF this(1) release_faults(1,2)] release_faults(3) show ?case by auto
next
  case (join s ti inst live s')
  then show ?case by auto
next
  case (leave s q live)
  then show ?case using threads_inv_leave by auto
next
  case (thread_ends live t p s s' pc)
  show ?case
  proof (cases pc)
    case Accept
    with thread_ends show ?thesis using threads_inv_ends by fastforce
  next
    case Reap
    with thread_ends show ?thesis using threads_inv_ends by fastforce
  qed (use thread_ends in auto)
next
  case (thread_faults live t p s f pc)
  show ?case
  proof (cases pc)
    case Accept
    with thread_faults show ?thesis using threads_inv_ends by fastforce
  next
    case Reap
    with thread_faults show ?thesis using threads_inv_ends by fastforce
  qed (use thread_faults in auto)
next
  case (thread_cancelled live t p s pc)
  show ?case
    using thread_cancelled by (cases pc) (auto dest: threads_invD(4))
qed

interpretation patient_server: step_invariant "threads_step True True" patient_inv
  by unfold_locales (rule patient_step)

section \<open>Draining under a running thread\<close>

text \<open>
  Once the data of a running thread is freed, the listener waits in the join for a thread
  whose end is a fault.
\<close>

definition doomed :: "ptr \<Rightarrow> server_pc \<times> server \<times> (nat \<rightharpoonup> ptr) \<Rightarrow> bool" where
  "doomed ti st \<longleftrightarrow>
     (case st of (pc, s, live) \<Rightarrow> pc = Crashed \<or>
        pc = Join ti \<and> (\<exists>inst p. inst_of s ti = Some inst \<and> live (thread inst) = Some p \<and> p \<noteq> NULL \<and>
          data_of s p = None \<and> CancelThread (thread inst) \<notin> set (trace s)))"

lemma worker_finish_frame:
  assumes "worker_finish p s = Inr s'"
  shows "inst_of s' = inst_of s" and "data_of s r = None \<Longrightarrow> data_of s' r = None"
    and "CancelThread t \<in> set (trace s') \<longleftrightarrow> CancelThread t \<in> set (trace s)"
  using assms
  by (auto simp: worker_finish_def log_event_def Let_def split: if_splits option.splits)

lemma doomed_step:
  assumes "threads_step has_memory patient st st'" and "doomed ti st"
  shows "doomed ti st'"
  using assms
proof (induction rule: threads_step.induct)
  case (thread_ends live t p s s' pc)
  note frame = worker_finish_frame [OF thread_ends(2)]
  obtain inst r where d: "pc = Join ti" "inst_of s ti = Some inst" "live (thread inst) = Some r" "r \<noteq> NULL"
      "data_of s r = None" "CancelThread (thread inst) \<notin> set (trace s)"
    using thread_ends(3,4) by (auto simp: doomed_def)
  have "t \<noteq> thread inst"
  proof
    assume "t = thread inst"
    with d thread_ends(1) have "p = r" by simp
    with d thread_ends(2) show False by (simp add: worker_finish_def)
  qed
  with d frame show ?case by (auto simp: doomed_def)
next
  case (thread_cancelled live t p s pc)
  then show ?case by (auto simp: doomed_def)
qed (auto simp: doomed_def)

interpretation doomed_server: step_invariant "threads_step has_memory patient" "doomed ti"
  for has_memory patient ti
  by unfold_locales (rule doomed_step)

lemma release_dooms:
  assumes inv: "threads_inv s tis live" and deq: "queue_dequeue (queue_of s) = Inr (ti, q)" and ti: "ti \<in> set tis"
    and inst: "inst_of s ti = Some \<lparr>thread = t, thread_data = p\<rparr>" and live: "live t = Some p"
  shows "\<exists>s'. shutdown_release ti (s\<lparr>queue_of := q\<rparr>) = Inr s' \<and> doomed ti (Join ti, s', live)"
proof -
  obtain td where td: "p \<noteq> NULL" "data_of s p = Some td"
    using running_thread [OF inv live] by metis
  have "CancelThread t \<notin> set (trace s)" using threads_invD(4) [OF inv] .
  with td inst live show ?thesis
    by (simp add: shutdown_release_def doomed_def free_data_def log_event_def)
qed

end
