(* ===== verification/Byte_Stream.thy ===== *)
theory Byte_Stream
  imports Prelude
begin

text \<open>
  The contract between a readable file and a program that reads it: a read of at most \<open>n\<close>
  bytes returns a prefix of what remains, and at least one byte while something remains.
  From this alone follow the behaviour of a stdio read (\<open>fread\<close>, which repeats reads until
  it has its bytes or the end) and of a loop that reads to the end. The character driver
  provides the contract; the server's reply loop uses it.
\<close>

text \<open>
  \<open>fread\<close> on an unbuffered stream: reads are repeated until \<open>want\<close> bytes have arrived or a
  read returns nothing.
\<close>

function fread :: "('d \<Rightarrow> nat \<Rightarrow> byte list \<times> 'd) \<Rightarrow> nat \<Rightarrow> 'd \<Rightarrow> byte list \<times> 'd" where
  "fread rd want d =
     (if want = 0 then ([], d)
      else case rd d want of (bs, d') \<Rightarrow>
        if bs = [] then ([], d')
        else case fread rd (want - length bs) d' of (cs, d'') \<Rightarrow> (bs @ cs, d''))"
  by pat_completeness auto
termination
  by (relation "measure (\<lambda>(rd, want, d). want)") (auto simp flip: length_greater_0_conv)

declare fread.simps [simp del]

locale byte_stream =
  fixes read_chunk :: "'d \<Rightarrow> nat \<Rightarrow> byte list \<times> 'd"
    and remaining :: "'d \<Rightarrow> byte list"
    and inv :: "'d \<Rightarrow> bool"
    and max_read :: nat
  assumes read_prefix: "inv d \<Longrightarrow> n < max_read \<Longrightarrow> read_chunk d n = (bs, d') \<Longrightarrow>
        remaining d = bs @ remaining d' \<and> length bs \<le> n \<and> inv d'"
    and read_progress: "inv d \<Longrightarrow> n < max_read \<Longrightarrow> 0 < n \<Longrightarrow> remaining d \<noteq> [] \<Longrightarrow>
        fst (read_chunk d n) \<noteq> []"
begin

text \<open>A stdio read returns exactly the next bytes, all of them if fewer remain.\<close>

lemma fread_spec:
  assumes "inv d" and "want < max_read"
  shows "\<exists>d'. fread read_chunk want d = (take want (remaining d), d') \<and>
     inv d' \<and> remaining d' = drop want (remaining d)"
  using assms
proof (induction want arbitrary: d rule: less_induct)
  case (less want)
  show ?case
  proof (cases "want = 0")
    case True
    with less.prems show ?thesis by (simp add: fread.simps)
  next
    case False
    obtain bs d' where res: "read_chunk d want = (bs, d')" by fastforce
    note prefix = read_prefix [OF less.prems res]
    show ?thesis
    proof (cases "bs = []")
      case True
      with res read_progress [OF less.prems] False have "remaining d = []" by auto
      with True False res prefix show ?thesis by (simp add: fread.simps)
    next
      case ne: False
      then have "want - length bs < want" using \<open>want \<noteq> 0\<close> by simp
      moreover have "want - length bs < max_read" using less.prems(2) by linarith
      ultimately obtain d'' where
        "fread read_chunk (want - length bs) d' = (take (want - length bs) (remaining d'), d'')"
        "inv d''" "remaining d'' = drop (want - length bs) (remaining d')"
        using less.IH [of "want - length bs" d'] prefix by auto
      with \<open>want \<noteq> 0\<close> ne res prefix show ?thesis by (simp add: fread.simps)
    qed
  qed
qed

end

end
