(* ===== verification/Kernel_Interface.thy ===== *)
theory Kernel_Interface
  imports Prelude
begin

text \<open>
  The kernel services the character driver calls. They are not part of this repository, so
  they are a parameter of the model: a record of functions, each component documented with
  the kernel function it stands for. What the driver relies on is stated as named
  predicates over the record, one per service, which the theorems that need them assume.
  The theory ends with one concrete kernel, used only to show that the predicates can hold.
\<close>

section \<open>The services\<close>

text \<open>The argument of the seek command of aesd_ioctl.h.\<close>

record aesd_seekto =
  write_cmd :: u32
  write_cmd_offset :: u32

text \<open>
  \<^item> \<open>krealloc h p n\<close>: the heap after \<open>krealloc(p, n, GFP_KERNEL)\<close> and the pointer returned;
  \<^item> \<open>kfree h p\<close>: the heap after \<open>kfree(p)\<close>;
  \<^item> \<open>copy_from_user dst src\<close>: the \<open>length dst\<close> kernel bytes after a copy from the readable
    user bytes \<open>src\<close>, and the number of bytes not copied;
  \<^item> \<open>copy_to_user dst src\<close>: the writable user bytes \<open>dst\<close> after a copy of the kernel bytes
    \<open>src\<close>, and the number of bytes not copied;
  \<^item> \<open>copy_seekto arg\<close>: the same call for the ioctl argument at user address \<open>arg\<close>;
  \<^item> \<open>mutex_lock_interruptible\<close>, \<open>mutex_lock\<close>, \<open>mutex_unlock\<close>: on the state of a mutex
    (held or not), the first with its return value;
  \<^item> \<open>fixed_size_llseek f_pos off whence sz\<close>: the file position after the call and the
    value returned, an error number or the new position;
  \<^item> \<open>ioc_type\<close>, \<open>ioc_nr\<close>, \<open>iowr\<close>: the macros \<open>_IOC_TYPE\<close>, \<open>_IOC_NR\<close> and \<open>_IOWR\<close>;
  \<^item> \<open>kmalloc_max\<close>: \<open>KMALLOC_MAX_SIZE\<close>;
  \<^item> \<open>checks_reads\<close>: whether the kernel traps a read of its own past the end of a block, as one
    built with the address sanitizer does; any other reads on into what follows the block.
\<close>

record kernel =
  krealloc :: "heap \<Rightarrow> ptr \<Rightarrow> size_t \<Rightarrow> heap \<times> ptr"
  kfree :: "heap \<Rightarrow> ptr \<Rightarrow> heap"
  copy_from_user :: "byte list \<Rightarrow> byte list \<Rightarrow> byte list \<times> size_t"
  copy_to_user :: "byte list \<Rightarrow> byte list \<Rightarrow> byte list \<times> size_t"
  copy_seekto :: "size_t \<Rightarrow> aesd_seekto \<times> size_t"
  mutex_lock_interruptible :: "bool \<Rightarrow> bool \<times> int"
  mutex_lock :: "bool \<Rightarrow> bool"
  mutex_unlock :: "bool \<Rightarrow> bool"
  fixed_size_llseek :: "loff_t \<Rightarrow> loff_t \<Rightarrow> u32 \<Rightarrow> loff_t \<Rightarrow> loff_t \<times> (int + loff_t)"
  ioc_type :: "u32 \<Rightarrow> u32"
  ioc_nr :: "u32 \<Rightarrow> u32"
  iowr :: "u32 \<Rightarrow> u32 \<Rightarrow> nat \<Rightarrow> u32"
  kmalloc_max :: nat
  checks_reads :: bool

section \<open>What the driver relies on\<close>

text \<open>
  \<open>krealloc\<close>: null on failure, and then the old block is left as it was; otherwise a block
  of the requested size that begins with the old content, and the old block is gone. The
  size is at most \<open>KMALLOC_MAX_SIZE\<close>. A zero-size request gives a block with no bytes.
\<close>

definition krealloc_spec :: "nat \<Rightarrow> heap \<Rightarrow> ptr \<Rightarrow> nat \<Rightarrow> heap \<times> ptr \<Rightarrow> bool" where
  "krealloc_spec limit h p n res =
     (case res of (h', q) \<Rightarrow>
        if q = NULL then h' = h
        else n \<le> limit \<and> (q = p \<or> h q = None) \<and>
          (\<exists>bs. h' = (h(p := None))(q \<mapsto> bs) \<and> length bs = n \<and>
             (\<forall>old. h p = Some old \<longrightarrow> take (length old) bs = take n old)))"

definition krealloc_ok :: "kernel \<Rightarrow> bool" where
  "krealloc_ok K \<longleftrightarrow>
     (\<forall>h p n. h NULL = None \<longrightarrow> p = NULL \<or> h p \<noteq> None \<longrightarrow>
        krealloc_spec (kmalloc_max K) h p (unat n) (krealloc K h p n))"

definition kfree_ok :: "kernel \<Rightarrow> bool" where
  "kfree_ok K \<longleftrightarrow> (\<forall>h p. kfree K h p = h(p := None))"

text \<open>Ten blocks of the largest size stay below 2^31 bytes (\<open>KMALLOC_MAX_SIZE\<close> is a few
  megabytes).\<close>

definition kmalloc_limit_ok :: "kernel \<Rightarrow> bool" where
  "kmalloc_limit_ok K \<longleftrightarrow> 10 * kmalloc_max K < 2 ^ 31"

definition copy_from_user_ok :: "kernel \<Rightarrow> bool" where
  "copy_from_user_ok K \<longleftrightarrow>
     (\<forall>dst src dst' r. copy_from_user K dst src = (dst', r) \<longrightarrow>
        length dst' = length dst \<and>
        (r = 0 \<longrightarrow> length dst \<le> length src \<and> dst' = take (length dst) src))"

definition copy_to_user_ok :: "kernel \<Rightarrow> bool" where
  "copy_to_user_ok K \<longleftrightarrow>
     (\<forall>dst src dst' r. copy_to_user K dst src = (dst', r) \<longrightarrow>
        length dst' = length dst \<and>
        (r = 0 \<longrightarrow> length src \<le> length dst \<and> dst' = src @ drop (length src) dst))"

text \<open>No fault on the user's side: a copy within the user's buffer succeeds.\<close>

definition user_memory_mapped :: "kernel \<Rightarrow> bool" where
  "user_memory_mapped K \<longleftrightarrow>
     (\<forall>dst src. length dst \<le> length src \<longrightarrow> snd (copy_from_user K dst src) = 0) \<and>
     (\<forall>dst src. length src \<le> length dst \<longrightarrow> snd (copy_to_user K dst src) = 0)"

definition mutex_ok :: "kernel \<Rightarrow> bool" where
  "mutex_ok K \<longleftrightarrow>
     (\<forall>m m' r. mutex_lock_interruptible K m = (m', r) \<longrightarrow> (if r = 0 then m' else m' = m)) \<and>
     (\<forall>m. mutex_lock K m) \<and> (\<forall>m. \<not> mutex_unlock K m)"

definition not_interrupted :: "kernel \<Rightarrow> bool" where
  "not_interrupted K \<longleftrightarrow> (\<forall>m. snd (mutex_lock_interruptible K m) = 0)"

text \<open>The ioctl macros decode what \<open>_IOWR\<close> encodes (for fields within their widths).\<close>

definition ioc_ok :: "kernel \<Rightarrow> bool" where
  "ioc_ok K \<longleftrightarrow>
     (\<forall>t n s. unat t < 256 \<longrightarrow> unat n < 256 \<longrightarrow> s < 2 ^ 14 \<longrightarrow>
        ioc_type K (iowr K t n s) = t \<and> ioc_nr K (iowr K t n s) = n)"

text \<open>
  \<open>fixed_size_llseek\<close> for a file of a fixed size: \<open>SEEK_SET\<close>, \<open>SEEK_CUR\<close> and \<open>SEEK_END\<close>
  (0, 1, 2) are relative to the start, the position and the size; a result below zero or
  beyond the size is refused and leaves the position alone. Asking for the position
  (\<open>SEEK_CUR\<close> by 0) is answered without a check.
\<close>

definition llseek_target :: "loff_t \<Rightarrow> loff_t \<Rightarrow> u32 \<Rightarrow> loff_t \<Rightarrow> int" where
  "llseek_target f_pos off whence sz =
     sint off + (if whence = 0 then 0 else if whence = 1 then sint f_pos else sint sz)"

definition fixed_size_llseek_ok :: "kernel \<Rightarrow> bool" where
  "fixed_size_llseek_ok K \<longleftrightarrow>
     (\<forall>f_pos off whence sz. unat whence \<le> 2 \<longrightarrow>
        (let t = llseek_target f_pos off whence sz in
         if whence = 1 \<and> off = 0 then fixed_size_llseek K f_pos off whence sz = (f_pos, Inr f_pos)
         else if 0 \<le> t \<and> t \<le> sint sz
         then fixed_size_llseek K f_pos off whence sz = (word_of_int t, Inr (word_of_int t))
         else \<exists>e. fixed_size_llseek K f_pos off whence sz = (f_pos, Inl e)))"

text \<open>All of it together, and a kernel in which no call is interrupted or refused and no read by
  the kernel itself is trapped.\<close>

definition kernel_ok :: "kernel \<Rightarrow> bool" where
  "kernel_ok K \<longleftrightarrow> krealloc_ok K \<and> kfree_ok K \<and> kmalloc_limit_ok K \<and> copy_from_user_ok K \<and>
     copy_to_user_ok K \<and> mutex_ok K \<and> fixed_size_llseek_ok K \<and> ioc_ok K"

lemma kernel_ok_checks [simp]:
  "kernel_ok (K\<lparr>checks_reads := c\<rparr>) = kernel_ok K"
  "not_interrupted (K\<lparr>checks_reads := c\<rparr>) = not_interrupted K"
  by (cases K, simp only: kernel_ok_def krealloc_ok_def kfree_ok_def kmalloc_limit_ok_def
      copy_from_user_ok_def copy_to_user_ok_def mutex_ok_def fixed_size_llseek_ok_def ioc_ok_def kernel.simps)
    (simp add: not_interrupted_def)

definition kernel_calm :: "kernel \<Rightarrow> bool" where
  "kernel_calm K \<longleftrightarrow> user_memory_mapped K \<and> not_interrupted K \<and> \<not> checks_reads K"

text \<open>
  A kernel with memory to spare: while no more than eleven blocks are allocated (ten stored
  lines and a pending one), a request up to the largest size is not refused.
\<close>

definition kernel_roomy :: "kernel \<Rightarrow> bool" where
  "kernel_roomy K \<longleftrightarrow>
     (\<forall>h p n. finite (dom h) \<longrightarrow> card (dom h) \<le> 11 \<longrightarrow> h NULL = None \<longrightarrow>
        p = NULL \<or> h p \<noteq> None \<longrightarrow> unat n \<le> kmalloc_max K \<longrightarrow> snd (krealloc K h p n) \<noteq> NULL)"

section \<open>Consequences\<close>

lemma krealloc_null:
  assumes "krealloc_ok K" and "h NULL = None" and "p = NULL \<or> h p \<noteq> None"
    and "krealloc K h p n = (h', NULL)"
  shows "h' = h"
proof -
  have "krealloc_spec (kmalloc_max K) h p (unat n) (krealloc K h p n)"
    using assms(1-3) unfolding krealloc_ok_def by blast
  with assms(4) show ?thesis by (simp add: krealloc_spec_def)
qed

lemma krealloc_block:
  assumes "krealloc_ok K" and "h NULL = None" and "p = NULL \<or> h p \<noteq> None"
    and "krealloc K h p n = (h', q)" and "q \<noteq> NULL"
  obtains bs where "h' = (h(p := None))(q \<mapsto> bs)" and "length bs = unat n"
    and "unat n \<le> kmalloc_max K" and "q = p \<or> h q = None"
    and "\<And>old. h p = Some old \<Longrightarrow> take (length old) bs = take (unat n) old"
proof -
  have "krealloc_spec (kmalloc_max K) h p (unat n) (krealloc K h p n)"
    using assms(1-3) unfolding krealloc_ok_def by blast
  with assms(4,5) that show ?thesis by (auto simp: krealloc_spec_def)
qed

lemma copy_from_userD:
  assumes "copy_from_user_ok K" and "copy_from_user K dst src = (dst', r)"
  shows "length dst' = length dst"
    and "r = 0 \<Longrightarrow> length dst \<le> length src \<and> dst' = take (length dst) src"
  using assms unfolding copy_from_user_ok_def by blast+

lemma copy_to_userD:
  assumes "copy_to_user_ok K" and "copy_to_user K dst src = (dst', r)"
  shows "length dst' = length dst"
    and "r = 0 \<Longrightarrow> length src \<le> length dst \<and> dst' = src @ drop (length src) dst"
  using assms unfolding copy_to_user_ok_def by blast+

lemma mutex_ok_simps [simp]:
  "mutex_ok K \<Longrightarrow> mutex_lock K m" "mutex_ok K \<Longrightarrow> \<not> mutex_unlock K m"
  by (simp_all add: mutex_ok_def)

lemma mutex_lock_interruptibleD:
  "mutex_ok K \<Longrightarrow> mutex_lock_interruptible K m = (m', r) \<Longrightarrow> r \<noteq> 0 \<Longrightarrow> m' = m"
  unfolding mutex_ok_def by metis

section \<open>A concrete kernel\<close>

text \<open>
  For the witnesses: in-place reallocation of existing blocks, new blocks at the first free
  address of a small pool, copies that succeed within the user's buffer, an uncontended
  mutex, and the bit layout of the ioctl numbers of asm-generic/ioctl.h.
\<close>

definition demo_pool :: "ptr list" where
  "demo_pool = [16..<64]"

definition demo_krealloc :: "heap \<Rightarrow> ptr \<Rightarrow> size_t \<Rightarrow> heap \<times> ptr" where
  "demo_krealloc h p n =
     (if 4194304 < unat n then (h, NULL)
      else if p = NULL then
        (case List.find (\<lambda>q. h q = None) demo_pool of
           None \<Rightarrow> (h, NULL)
         | Some q \<Rightarrow> (h(q \<mapsto> replicate (unat n) 0), q))
      else
        (case h p of
           None \<Rightarrow> (h, NULL)
         | Some bs \<Rightarrow> (h(p \<mapsto> take (unat n) bs @ replicate (unat n - length bs) 0), p)))"

definition demo_kernel :: kernel where
  "demo_kernel =
     \<lparr>krealloc = demo_krealloc,
      kfree = (\<lambda>h p. h(p := None)),
      copy_from_user = (\<lambda>dst src. if length dst \<le> length src then (take (length dst) src, 0)
                          else (dst, 1)),
      copy_to_user = (\<lambda>dst src. if length src \<le> length dst then (src @ drop (length src) dst, 0)
                          else (dst, 1)),
      copy_seekto = (\<lambda>arg. (\<lparr>write_cmd = ucast arg, write_cmd_offset = 0\<rparr>, 0)),
      mutex_lock_interruptible = (\<lambda>_. (True, 0)),
      mutex_lock = (\<lambda>_. True),
      mutex_unlock = (\<lambda>_. False),
      fixed_size_llseek = (\<lambda>f_pos off whence sz.
         let t = llseek_target f_pos off whence sz in
         if whence = 1 \<and> off = 0 then (f_pos, Inr f_pos)
         else if 0 \<le> t \<and> t \<le> sint sz then (word_of_int t, Inr (word_of_int t)) else (f_pos, Inl 22)),
      ioc_type = (\<lambda>c. of_nat ((unat c div 256) mod 256)),
      ioc_nr = (\<lambda>c. of_nat (unat c mod 256)),
      iowr = (\<lambda>t n s. of_nat (3 * 2 ^ 30 + s * 65536 + unat t * 256 + unat n)),
      kmalloc_max = 4194304, checks_reads = False\<rparr>"

lemma find_Some_pool:
  assumes "List.find P demo_pool = Some q"
  shows "P q \<and> q \<noteq> 0"
proof -
  from assms have "P q" and "q \<in> set demo_pool" by (auto simp: find_Some_iff)
  then show ?thesis by (auto simp: demo_pool_def simp del: upt_Suc)
qed

lemma demo_krealloc_ok: "krealloc_ok demo_kernel"
  unfolding krealloc_ok_def
proof (intro allI impI)
  fix h :: heap and p :: ptr and n :: size_t
  assume h0: "h NULL = None" and p: "p = NULL \<or> h p \<noteq> None"
  have "krealloc_spec 4194304 h p (unat n) (demo_krealloc h p n)"
  proof (cases "4194304 < unat n")
    case True
    then show ?thesis by (simp add: demo_krealloc_def krealloc_spec_def)
  next
    case small: False
    show ?thesis
    proof (cases "p = NULL")
      case True
      show ?thesis
      proof (cases "List.find (\<lambda>q. h q = None) demo_pool")
        case None
        with True small show ?thesis by (simp add: demo_krealloc_def krealloc_spec_def)
      next
        case (Some q)
        then have "h q = None" and "q \<noteq> 0" using find_Some_pool by auto
        with Some True small h0 show ?thesis
          by (auto simp: demo_krealloc_def krealloc_spec_def fun_upd_idem
              intro!: exI [of _ "replicate (unat n) 0"])
      qed
    next
      case False
      with p obtain old where "h p = Some old" by auto
      with False small show ?thesis
        by (auto simp: demo_krealloc_def krealloc_spec_def min_def
            intro!: exI [of _ "take (unat n) old @ replicate (unat n - length old) 0"])
    qed
  qed
  then show "krealloc_spec (kmalloc_max demo_kernel) h p (unat n) (krealloc demo_kernel h p n)"
    by (simp add: demo_kernel_def)
qed

lemma demo_kernel_ok [simp]:
  "kfree_ok demo_kernel" "kmalloc_limit_ok demo_kernel" "copy_from_user_ok demo_kernel"
  "copy_to_user_ok demo_kernel" "user_memory_mapped demo_kernel" "mutex_ok demo_kernel"
  "not_interrupted demo_kernel" "fixed_size_llseek_ok demo_kernel" "krealloc_ok demo_kernel"
  by (auto simp: demo_krealloc_ok)
     (auto simp: demo_kernel_def kfree_ok_def kmalloc_limit_ok_def copy_from_user_ok_def
       copy_to_user_ok_def user_memory_mapped_def mutex_ok_def not_interrupted_def
       fixed_size_llseek_ok_def Let_def split: if_splits)

lemma demo_unchecked [simp]: "\<not> checks_reads demo_kernel"
  by (simp add: demo_kernel_def)

lemma demo_ioc_ok [simp]: "ioc_ok demo_kernel"
  unfolding ioc_ok_def
proof (intro allI impI)
  fix t n :: u32 and s :: nat
  assume t: "unat t < 256" and n: "unat n < 256" and s: "s < 2 ^ 14"
  let ?c = "3 * 2 ^ 30 + s * 65536 + unat t * 256 + unat n"
  have "unat (of_nat ?c :: u32) = ?c"
    using t n s by (intro unat_of_nat_lt) simp
  moreover have digit: "(x * 256 + r) mod 256 = r" "(x * 256 + r) div 256 = x"
    if "r < 256" for x r :: nat
    using that by simp_all
  have "?c = ((3 * 2 ^ 14 + s) * 256 + unat t) * 256 + unat n" by simp
  then have "?c mod 256 = unat n" "(?c div 256) mod 256 = unat t"
    by (simp_all only: digit [OF t] digit [OF n])
  ultimately show "ioc_type demo_kernel (iowr demo_kernel t n s) = t \<and>
      ioc_nr demo_kernel (iowr demo_kernel t n s) = n"
    by (simp add: demo_kernel_def)
qed

lemma demo_pool_free:
  assumes "finite (dom h)" and "card (dom h) \<le> 11"
  shows "List.find (\<lambda>q. h q = None) demo_pool \<noteq> None"
proof
  assume "List.find (\<lambda>q. h q = None) demo_pool = None"
  then have "set demo_pool \<subseteq> dom h" by (auto simp: find_None_iff)
  then have "card (set demo_pool) \<le> 11"
    using card_mono [OF assms(1)] assms(2) by (meson order_trans)
  then show False by (simp add: demo_pool_def)
qed

lemma demo_kernel_roomy [simp]: "kernel_roomy demo_kernel"
  unfolding kernel_roomy_def
proof (intro allI impI)
  fix h :: heap and p :: ptr and n :: size_t
  assume fin: "finite (dom h)" "card (dom h) \<le> 11" and h0: "h NULL = None"
    and p: "p = NULL \<or> h p \<noteq> None" and n: "unat n \<le> kmalloc_max demo_kernel"
  obtain q where q: "List.find (\<lambda>q. h q = None) demo_pool = Some q" using demo_pool_free [OF fin] by blast
  have q0: "q \<noteq> NULL" using find_Some_pool [OF q] by blast
  show "snd (krealloc demo_kernel h p n) \<noteq> NULL"
  proof (cases "p = NULL")
    case True
    with q q0 n show ?thesis by (simp add: demo_kernel_def demo_krealloc_def)
  next
    case False
    with p n show ?thesis by (auto simp: demo_kernel_def demo_krealloc_def)
  qed
qed

lemma demo_kernel_all [simp]: "kernel_ok demo_kernel" "kernel_calm demo_kernel"
  by (simp_all add: kernel_ok_def kernel_calm_def)

end
