(* ===== verification/Data_File.thy ===== *)
theory Data_File
  imports Byte_Stream Kernel_Interface
begin

text \<open>
  The file the server keeps its data in, seen through the C library: an interface of the
  operating system's calls on the open file, the buffered stream the library puts before
  it, and the contract a connection relies on. The character device and the temporary file
  of the two builds provide it (\<open>Device_Data_File\<close>, \<open>Temp_File\<close>). When the library writes its
  buffer out before it must is not specified; it is the parameter \<open>flush_policy\<close>, the number
  of buffered bytes written out after an \<open>fwrite\<close>.
\<close>

section \<open>The calls and the stream\<close>

text \<open>\<open>api_write\<close> returns how many bytes were written, 0 for an error.\<close>

record 'd file_api =
  api_read :: "'d \<Rightarrow> nat \<Rightarrow> byte list \<times> 'd"
  api_write :: "'d \<Rightarrow> byte list \<Rightarrow> nat \<times> 'd"
  api_ioctl :: "'d \<Rightarrow> aesd_seekto \<Rightarrow> int \<times> 'd"
  api_rewind :: "'d \<Rightarrow> int \<times> 'd"
  flush_policy :: "byte list \<Rightarrow> nat"

record 'd stream =
  dev_of :: 'd
  wbuf :: "byte list"
  ferror :: bool

text \<open>Writing a block out: the call is repeated until all is written or it fails.\<close>

function write_all :: "'d file_api \<Rightarrow> 'd \<Rightarrow> byte list \<Rightarrow> bool \<times> 'd" where
  "write_all api d bs =
     (if bs = [] then (True, d)
      else case api_write api d bs of (n, d') \<Rightarrow>
        if n = 0 then (False, d') else write_all api d' (drop n bs))"
  by pat_completeness auto
termination
  by (relation "measure (\<lambda>(api, d, bs). length bs)") auto

declare write_all.simps [simp del]

definition stream_flush :: "'d file_api \<Rightarrow> 'd stream \<Rightarrow> bool \<times> 'd stream" where
  "stream_flush api f =
     (case write_all api (dev_of f) (wbuf f) of (ok, d) \<Rightarrow>
        (ok, f\<lparr>dev_of := d, wbuf := [], ferror := (ferror f \<or> \<not> ok)\<rparr>))"

definition stream_write :: "'d file_api \<Rightarrow> 'd stream \<Rightarrow> byte list \<Rightarrow> 'd stream" where
  "stream_write api f bs =
     (let b = wbuf f @ bs; n = min (flush_policy api b) (length b) in
      case write_all api (dev_of f) (take n b) of (ok, d) \<Rightarrow>
        f\<lparr>dev_of := d, wbuf := (if ok then drop n b else []), ferror := (ferror f \<or> \<not> ok)\<rparr>)"

definition stream_read :: "'d file_api \<Rightarrow> 'd stream \<Rightarrow> nat \<Rightarrow> byte list \<times> 'd stream" where
  "stream_read api f n =
     (case stream_flush api f of (ok, f1) \<Rightarrow>
        if \<not> ok then ([], f1)
        else case fread (api_read api) n (dev_of f1) of (bs, d) \<Rightarrow> (bs, f1\<lparr>dev_of := d\<rparr>))"

definition stream_rewind :: "'d file_api \<Rightarrow> 'd stream \<Rightarrow> int \<times> 'd stream" where
  "stream_rewind api f =
     (case stream_flush api f of (ok, f1) \<Rightarrow>
        if \<not> ok then (- 1, f1)
        else case api_rewind api (dev_of f1) of (rc, d) \<Rightarrow> (rc, f1\<lparr>dev_of := d\<rparr>))"

definition stream_ioctl :: "'d file_api \<Rightarrow> 'd stream \<Rightarrow> aesd_seekto \<Rightarrow> int \<times> 'd stream" where
  "stream_ioctl api f seek =
     (case api_ioctl api (dev_of f) seek of (rc, d) \<Rightarrow> (rc, f\<lparr>dev_of := d\<rparr>))"

lemma set_take_butlast: "n < length xs \<Longrightarrow> set (take n xs) \<subseteq> set (butlast xs)"
  by (metis set_take_subset take_butlast)

section \<open>The contract\<close>

text \<open>
  \<open>content\<close> is what the file keeps (and all that room for more depends on), \<open>bytes\<close> what of it can be read, \<open>at\<close> the position: the
  bytes that remain are those from the position on. A write extends the content by the bytes
  it took and leaves the position; it takes all of them while
  the content leaves \<open>room\<close>. Two writes, the
  first of which does not end a line, extend the content as one.
\<close>

locale data_file = byte_stream "api_read api" remaining inv max_read
  for api :: "'d file_api" and remaining :: "'d \<Rightarrow> byte list" and inv :: "'d \<Rightarrow> bool"
    and max_read :: nat +
  fixes content :: "'d \<Rightarrow> 'h" and at :: "'d \<Rightarrow> nat"
    and extend :: "'h \<Rightarrow> byte list \<Rightarrow> 'h" and bytes :: "'h \<Rightarrow> byte list" and room :: "'h \<Rightarrow> nat"
  assumes reads_512: "512 < max_read"
    and read_content: "inv d \<Longrightarrow> n < max_read \<Longrightarrow> api_read api d n = (bs, d') \<Longrightarrow> content d' = content d"
    and remaining_at: "inv d \<Longrightarrow> remaining d = drop (at d) (bytes (content d))"
    and extend_join: "xs \<noteq> [] \<Longrightarrow> last xs \<noteq> newline \<Longrightarrow> ys \<noteq> [] \<Longrightarrow>
        extend (extend h xs) ys = extend h (xs @ ys)"
    and write_law: "inv d \<Longrightarrow> bs \<noteq> [] \<Longrightarrow> length bs < 2 ^ 31 \<Longrightarrow> api_write api d bs = (n, d') \<Longrightarrow>
        0 < n \<Longrightarrow> n \<le> length bs \<and> inv d' \<and> content d' = extend (content d) (take n bs) \<and>
        at d' = at d"
    and extend_room: "room h \<le> room (extend h xs) + length xs"
    and write_room: "inv d \<Longrightarrow> bs \<noteq> [] \<Longrightarrow> length bs < 2 ^ 31 \<Longrightarrow> length bs \<le> room (content d) \<Longrightarrow>
        fst (api_write api d bs) = length bs"
    and rewind_law: "inv d \<Longrightarrow> api_rewind api d = (rc, d') \<Longrightarrow>
        rc = 0 \<and> inv d' \<and> content d' = content d \<and> at d' = 0"
begin

text \<open>A stream without an error, the content its file has once the buffer is written, and
  whether there is room for that and \<open>k\<close> more bytes.\<close>

definition good :: "'d stream \<Rightarrow> bool" where
  "good f \<longleftrightarrow> \<not> ferror f \<and> inv (dev_of f) \<and> length (wbuf f) < 2 ^ 30 \<and> newline \<notin> set (butlast (wbuf f))"

definition content_after :: "'d stream \<Rightarrow> 'h" where
  "content_after f =
     (if wbuf f = [] then content (dev_of f) else extend (content (dev_of f)) (wbuf f))"

definition fits :: "'d stream \<Rightarrow> nat \<Rightarrow> bool" where
  "fits f k \<longleftrightarrow> length (wbuf f) + k \<le> room (content (dev_of f))"

lemma fread_content:
  "inv d \<Longrightarrow> n < max_read \<Longrightarrow> fread (api_read api) n d = (bs, d') \<Longrightarrow> content d' = content d"
proof (induction n arbitrary: d bs rule: less_induct)
  case (less n)
  obtain cs d1 where r: "api_read api d n = (cs, d1)" by fastforce
  note one = read_prefix [OF less.prems(1,2) r] read_content [OF less.prems(1,2) r]
  show ?case
  proof (cases "n = 0 \<or> cs = []")
    case True
    with less.prems(3) r one show ?thesis by (auto simp: fread.simps [of _ n] split: if_splits)
  next
    case False
    then have "n - length cs < n" by simp
    moreover obtain es d2 where "fread (api_read api) (n - length cs) d1 = (es, d2)" by fastforce
    ultimately show ?thesis
      using less.IH [of "n - length cs" d1 es] less.prems False r one
      by (simp add: fread.simps [of _ n])
  qed
qed

lemma write_all_ok:
  assumes "inv d" and "length bs < 2 ^ 31" and "newline \<notin> set (butlast bs)"
    and "write_all api d bs = (True, d')"
  shows "inv d' \<and> at d' = at d \<and>
     content d' = (if bs = [] then content d else extend (content d) bs)"
  using assms
proof (induction "length bs" arbitrary: d bs rule: less_induct)
  case less
  show ?case
  proof (cases "bs = []")
    case True
    with less.prems show ?thesis by (simp add: write_all.simps)
  next
    case False
    obtain n d1 where w: "api_write api d bs = (n, d1)" by fastforce
    with less.prems(4) False have n: "0 < n" and rest: "write_all api d1 (drop n bs) = (True, d')"
      by (simp_all add: write_all.simps [of api d bs] split: if_splits)
    note law = write_law [OF less.prems(1) False less.prems(2) w n]
    show ?thesis
    proof (cases "n = length bs")
      case True
      with rest have "d' = d1" by (simp add: write_all.simps)
      with law True False show ?thesis by simp
    next
      case short: False
      have nl: "newline \<notin> set (butlast (drop n bs))"
        using less.prems(3) by (auto dest: in_set_dropD simp flip: drop_butlast)
      from law short have len: "n < length bs" by simp
      with False n nl less.prems(2)
      have "inv d' \<and> at d' = at d1 \<and> content d' = extend (content d1) (drop n bs)"
        using less.hyps [of "drop n bs" d1] law rest by simp
      moreover have "last (take n bs) \<noteq> newline"
      proof -
        have "take n bs \<noteq> []" using n False by simp
        then have "last (take n bs) \<in> set (butlast bs)"
          using set_take_butlast [OF len] last_in_set by blast
        with less.prems(3) show ?thesis by metis
      qed
      then have "extend (extend (content d) (take n bs)) (drop n bs) = extend (content d) bs"
        using extend_join [of "take n bs" "drop n bs"] n False len by simp
      ultimately show ?thesis using law False by simp
    qed
  qed
qed

lemma write_all_room:
  assumes "inv d" and "length bs < 2 ^ 31" and "length bs \<le> room (content d)"
  shows "fst (write_all api d bs)"
proof (cases "bs = []")
  case True
  then show ?thesis by (simp add: write_all.simps)
next
  case False
  obtain n d1 where w: "api_write api d bs = (n, d1)" by fastforce
  with write_room [OF assms(1) False assms(2,3)] have "n = length bs" by simp
  with w False show ?thesis
    by (simp add: write_all.simps [of api d bs] write_all.simps [of api d1 "[]"])
qed

lemma flush_good:
  assumes "good f" and "stream_flush api f = (True, f')"
  shows "good f' \<and> wbuf f' = [] \<and> content (dev_of f') = content_after f \<and> at (dev_of f') = at (dev_of f)"
proof -
  obtain d where w: "write_all api (dev_of f) (wbuf f) = (True, d)"
    using assms(2) by (auto simp: stream_flush_def split: prod.splits)
  with assms write_all_ok [of "dev_of f" "wbuf f" d] show ?thesis
    by (auto simp: stream_flush_def good_def content_after_def)
qed

lemma flush_fits: "good f \<Longrightarrow> fits f 0 \<Longrightarrow> fst (stream_flush api f)"
  using write_all_room [of "dev_of f" "wbuf f"]
  by (auto simp: good_def fits_def stream_flush_def split: prod.splits)

text \<open>One \<open>fwrite\<close>, of bytes whose only newline is the last, after bytes without one.\<close>

lemma stream_write_good:
  assumes f: "good f" and nl: "newline \<notin> set (wbuf f)" and bs: "bs \<noteq> []" "newline \<notin> set (butlast bs)"
    and len: "length (wbuf f) + length bs < 2 ^ 30"
  defines "f' \<equiv> stream_write api f bs"
  shows "\<not> ferror f' \<Longrightarrow> good f' \<and> content_after f' = extend (content_after f) bs \<and>
      at (dev_of f') = at (dev_of f) \<and> length (wbuf f') \<le> length (wbuf f) + length bs \<and>
      set (wbuf f') \<subseteq> set (wbuf f) \<union> set bs"
    and "fits f (length bs + k) \<Longrightarrow> \<not> ferror f' \<and> fits f' k"
proof -
  let ?v = "content (dev_of f)"
  define b where "b = wbuf f @ bs"
  define n where "n = min (flush_policy api b) (length b)"
  obtain ok d where w: "write_all api (dev_of f) (take n b) = (ok, d)" by fastforce
  have f': "f' = f\<lparr>dev_of := d, wbuf := (if ok then drop n b else []), ferror := \<not> ok\<rparr>"
    using f w by (simp add: f'_def stream_write_def Let_def good_def flip: b_def n_def)
  have nlb: "newline \<notin> set (butlast b)" and b: "b \<noteq> []" "length b < 2 ^ 30" "n \<le> length b"
    using nl bs len by (simp_all add: b_def butlast_append n_def)
  have nld: "newline \<notin> set (butlast (drop n b))"
    using nlb by (auto dest: in_set_dropD simp flip: drop_butlast)
  have nlt: "newline \<notin> set (butlast (take n b))"
  proof (cases "n < length b")
    case True
    with nlb set_take_butlast [of n b] show ?thesis by (blast dest: in_set_butlastD)
  next
    case False
    with nlb b(3) show ?thesis by simp
  qed
  have inv: "inv (dev_of f)" using f by (simp add: good_def)
  have d: "inv d \<and> at d = at (dev_of f) \<and> content d = (if take n b = [] then ?v else extend ?v (take n b))" if "ok"
    using write_all_ok [of "dev_of f" "take n b" d] inv w that b nlt by simp
  {
    assume "\<not> ferror f'"
    then have ok: "ok" by (simp add: f')
    have all: "extend (content_after f) bs = extend ?v b"
    proof (cases "wbuf f = []")
      case False
      with nl have "last (wbuf f) \<noteq> newline" by (metis last_in_set)
      with False bs extend_join show ?thesis by (simp add: content_after_def b_def)
    qed (simp add: content_after_def b_def)
    have "content_after f' = extend ?v b"
    proof (cases "take n b = [] \<or> drop n b = []")
      case True
      with append_take_drop_id [of n b] have "take n b = [] \<and> drop n b = b \<or> drop n b = [] \<and> take n b = b"
        by (metis append_Nil append_Nil2)
      then show ?thesis using d b ok by (auto simp: content_after_def f')
    next
      case False
      then have "n < length b" by (metis drop_all not_le)
      then have "last (take n b) \<noteq> newline"
        using nlb False set_take_butlast [of n b] by (metis last_in_set subsetD)
      with False extend_join [of "take n b" "drop n b" ?v] d ok show ?thesis
        by (simp add: content_after_def f')
    qed
    moreover have "set (drop n b) \<subseteq> set (wbuf f) \<union> set bs"
      using set_drop_subset [of n b] by (simp add: b_def)
    moreover have "length (drop n b) \<le> length (wbuf f) + length bs" by (simp add: b_def)
    ultimately show "good f' \<and> content_after f' = extend (content_after f) bs \<and>
        at (dev_of f') = at (dev_of f) \<and> length (wbuf f') \<le> length (wbuf f) + length bs \<and>
        set (wbuf f') \<subseteq> set (wbuf f) \<union> set bs"
      using d ok b nld all by (simp add: f' good_def)
  next
    assume fit: "fits f (length bs + k)"
    then have "length (take n b) \<le> room ?v" by (simp add: fits_def b_def)
    with write_all_room [OF inv, of "take n b"] w b have ok: "ok" by simp
    have "length (drop n b) + k + n \<le> room ?v" using fit b(3) by (simp add: fits_def b_def)
    moreover have "room ?v \<le> room (content d) + n"
      using d [OF ok] extend_room [of ?v "take n b"] b(3) by (simp split: if_splits)
    ultimately show "\<not> ferror f' \<and> fits f' k" using ok by (simp add: f' fits_def)
  }
qed

end

text \<open>
  A file of lines with the seek command: the position moves to a byte of a line, if there is
  such a byte; otherwise the call fails and leaves the position.
\<close>

locale seekable_file = data_file api remaining inv max_read content at extend bytes room
  for api :: "'d file_api" and remaining :: "'d \<Rightarrow> byte list" and inv :: "'d \<Rightarrow> bool"
    and max_read :: nat and content :: "'d \<Rightarrow> 'h" and at :: "'d \<Rightarrow> nat"
    and extend :: "'h \<Rightarrow> byte list \<Rightarrow> 'h" and bytes :: "'h \<Rightarrow> byte list" and room :: "'h \<Rightarrow> nat" +
  fixes lines_of :: "'h \<Rightarrow> byte list list"
  assumes seek_law: "inv d \<Longrightarrow> api_ioctl api d seek = (rc, d') \<Longrightarrow>
        inv d' \<and> content d' = content d \<and>
        (let ls = lines_of (content d); c = unat (write_cmd seek); off = unat (write_cmd_offset seek)
         in if c < length ls \<and> off \<le> length (ls ! c)
            then rc = 0 \<and> remaining d' = drop off (ls ! c) @ concat (drop (Suc c) ls)
            else rc = - 1 \<and> at d' = at d)"

end
