(* ===== verification/Socket_Commands.thy ===== *)
theory Socket_Commands
  imports Kernel_Interface
begin

text \<open>
  The seek command of server/aesdsocket.c: recognising the keyword in the receive buffer
  and parsing its two numbers, with the C library's \<open>strncmp\<close>, \<open>strtok_r\<close>, \<open>atoi\<close> and
  \<open>memchr\<close> on a buffer that need not hold a terminating null byte: reading past its end is
  the fault \<open>OutOfBounds\<close>, converting the null pointer the fault \<open>NullDeref\<close>.
\<close>

section \<open>The C library's string functions\<close>

definition bytes_of :: "string \<Rightarrow> byte list" where
  "bytes_of s = map of_char s"

definition AESD_SEEKTO_KEYWORD :: "byte list" where
  "AESD_SEEKTO_KEYWORD = bytes_of ''AESDCHAR_IOCSEEKTO''"

definition RECV_BUFFER_LEN :: nat where
  "RECV_BUFFER_LEN = 512"

text \<open>\<open>strncmp (s, t, strlen t) == 0\<close> for a constant \<open>t\<close> without null bytes.\<close>

definition starts_with :: "byte list \<Rightarrow> byte list \<Rightarrow> bool" where
  "starts_with t s \<longleftrightarrow> take (length t) s = t"

text \<open>The delimiters are the colon and the comma.\<close>

definition is_delimiter :: "byte \<Rightarrow> bool" where
  "is_delimiter b \<longleftrightarrow> b = 58 \<or> b = 44"

text \<open>\<open>strtok_r\<close>: how many bytes to skip, how many bytes the token has.\<close>

fun skip_delimiters :: "byte list \<Rightarrow> fault + nat" where
  "skip_delimiters [] = Inl OutOfBounds"
| "skip_delimiters (b # bs) =
     (if is_delimiter b then and_then (skip_delimiters bs) (\<lambda>n. Inr (Suc n)) else Inr 0)"

fun token_length :: "byte list \<Rightarrow> fault + nat" where
  "token_length [] = Inl OutOfBounds"
| "token_length (b # bs) =
     (if b = 0 \<or> is_delimiter b then Inr 0 else and_then (token_length bs) (\<lambda>n. Inr (Suc n)))"

text \<open>The result: the start of the token (None for the null pointer), the buffer with the
  token terminated, the position saved for the next call.\<close>

definition strtok_r :: "byte list \<Rightarrow> nat \<Rightarrow> fault + nat option \<times> byte list \<times> nat" where
  "strtok_r buf pos =
     and_then (skip_delimiters (drop pos buf)) (\<lambda>k.
       let start = pos + k in
       if buf ! start = 0 then Inr (None, buf, start)
       else and_then (token_length (drop start buf)) (\<lambda>l.
         let stop = start + l in
         if buf ! stop = 0 then Inr (Some start, buf, stop)
         else Inr (Some start, buf[stop := 0], Suc stop)))"

definition is_space :: "byte \<Rightarrow> bool" where
  "is_space b \<longleftrightarrow> b = 32 \<or> (9 \<le> b \<and> b \<le> 13)"

definition is_digit :: "byte \<Rightarrow> bool" where
  "is_digit b \<longleftrightarrow> 48 \<le> b \<and> b \<le> 57"

fun digits_value :: "nat \<Rightarrow> byte list \<Rightarrow> nat" where
  "digits_value acc [] = acc"
| "digits_value acc (b # bs) =
     (if is_digit b then digits_value (10 * acc + (unat b - 48)) bs else acc)"

definition sign_of :: "byte list \<Rightarrow> int" where
  "sign_of s = (case s of [] \<Rightarrow> 1 | b # _ \<Rightarrow> if b = 45 then - 1 else 1)"

definition strip_sign :: "byte list \<Rightarrow> byte list" where
  "strip_sign s = (case s of [] \<Rightarrow> [] | b # bs \<Rightarrow> if b = 45 \<or> b = 43 then bs else s)"

text \<open>\<open>atoi\<close> is \<open>(int) strtol (s, NULL, 10)\<close>: the value saturates at 64 bits and is cut to 32.\<close>

definition strtol10 :: "byte list \<Rightarrow> int" where
  "strtol10 s =
     (let t = dropWhile is_space s
      in max (- (2 ^ 63)) (min (2 ^ 63 - 1) (sign_of t * int (digits_value 0 (strip_sign t)))))"

definition atoi :: "byte list \<Rightarrow> nat option \<Rightarrow> fault + u32" where
  "atoi buf tok =
     (case tok of
        None \<Rightarrow> Inl NullDeref
      | Some start \<Rightarrow>
          if 0 \<in> set (drop start buf)
          then Inr (word_of_int (strtol10 (takeWhile (\<lambda>b. b \<noteq> 0) (drop start buf))))
          else Inl OutOfBounds)"

section \<open>The seek command\<close>

definition is_seek_command :: "byte list \<Rightarrow> nat \<Rightarrow> bool" where
  "is_seek_command buf res \<longleftrightarrow>
     length AESD_SEEKTO_KEYWORD \<le> res \<and> starts_with AESD_SEEKTO_KEYWORD buf"

definition parse_seek_command :: "byte list \<Rightarrow> fault + aesd_seekto \<times> byte list" where
  "parse_seek_command recv_buffer =
     and_then (strtok_r recv_buffer 0) (\<lambda>(_, buf1, save1).
     and_then (strtok_r buf1 save1) (\<lambda>(token2, buf2, save2).
     and_then (atoi buf2 token2) (\<lambda>cmd_offset.
     and_then (strtok_r buf2 save2) (\<lambda>(token3, buf3, _).
     and_then (atoi buf3 token3) (\<lambda>cmd_char_offset.
       Inr (\<lparr>write_cmd = cmd_offset, write_cmd_offset = cmd_char_offset\<rparr>, buf3))))))"

definition newline_received :: "byte list \<Rightarrow> nat \<Rightarrow> bool" where
  "newline_received buf res \<longleftrightarrow> newline \<in> set (take res buf)"

text \<open>What a client sends: the decimal digits of a number, and the whole command.\<close>

fun decimal :: "nat \<Rightarrow> byte list" where
  "decimal n = (if n < 10 then [48 + of_nat n] else decimal (n div 10) @ [48 + of_nat (n mod 10)])"

declare decimal.simps [simp del]

definition seek_command :: "nat \<Rightarrow> nat \<Rightarrow> byte list" where
  "seek_command a b = AESD_SEEKTO_KEYWORD @ [58] @ decimal a @ [44] @ decimal b @ [newline]"

text \<open>The receive buffer after a message: the message, then null bytes.\<close>

definition padded :: "byte list \<Rightarrow> byte list" where
  "padded bs = bs @ replicate (RECV_BUFFER_LEN - length bs) 0"

section \<open>Tokens\<close>

lemma skip_delimiters_word: "\<not> is_delimiter b \<Longrightarrow> skip_delimiters (b # bs) = Inr 0"
  by simp

lemma token_length_span:
  assumes "\<forall>b \<in> set t. b \<noteq> 0 \<and> \<not> is_delimiter b" and "d = 0 \<or> is_delimiter d"
  shows "token_length (t @ d # rest) = Inr (length t)"
  using assms by (induction t) auto

text \<open>A call at the start of a token followed by a terminator.\<close>

lemma strtok_r_token:
  assumes "t \<noteq> []" and t: "\<forall>b \<in> set t. b \<noteq> 0 \<and> \<not> is_delimiter b" and d: "d = 0 \<or> is_delimiter d"
    and "buf = pre @ t @ d # rest" and "pos = length pre"
  shows "strtok_r buf pos = Inr (Some pos, pre @ t @ 0 # rest, pos + length t + (if d = 0 then 0 else 1))"
proof -
  obtain c cs where c: "t = c # cs" "c \<noteq> 0" "\<not> is_delimiter c"
    using assms(1) t by (cases t) auto
  have "skip_delimiters (drop pos buf) = Inr 0" using c by (simp add: assms(4,5))
  moreover have "buf ! pos = c" using c by (simp add: assms(4,5))
  moreover have "token_length (drop pos buf) = Inr (length t)"
    using token_length_span [OF t d] by (simp add: assms(4,5))
  moreover have "buf ! (pos + length t) = d" by (simp add: assms(4,5) nth_append)
  moreover have "buf[pos + length t := 0] = pre @ t @ 0 # rest"
    by (simp add: assms(4,5) list_update_append)
  ultimately show ?thesis
    using c by (auto simp: strtok_r_def Let_def assms(4))
qed

section \<open>Numbers\<close>

lemma digits_value_append:
  "\<forall>b \<in> set ds. is_digit b \<Longrightarrow> digits_value acc (ds @ s) = digits_value (digits_value acc ds) s"
  by (induction ds arbitrary: acc) auto

lemma digit_byte: "d < 10 \<Longrightarrow> is_digit (48 + of_nat d) \<and> unat (48 + of_nat d :: byte) = 48 + d"
proof -
  assume "d < 10"
  then have "unat (48 + of_nat d :: byte) = 48 + d"
    by (subst unat_plus_no_overflow) (simp_all add: no_wrap)
  then show ?thesis using \<open>d < 10\<close> by (simp add: is_digit_def word_le_nat_alt)
qed

lemma decimal_digits: "b \<in> set (decimal n) \<Longrightarrow> is_digit b"
proof (induction n rule: decimal.induct)
  case (1 n)
  then show ?case
    by (subst (asm) decimal.simps) (auto simp: digit_byte split: if_splits)
qed

lemma decimal_value: "digits_value 0 (decimal n) = n"
proof (induction n rule: decimal.induct)
  case (1 n)
  show ?case
  proof (cases "n < 10")
    case True
    then show ?thesis by (subst decimal.simps) (simp add: digit_byte)
  next
    case False
    then have "decimal n = decimal (n div 10) @ [48 + of_nat (n mod 10)]"
      by (subst decimal.simps) simp
    then show ?thesis
      using 1 False decimal_digits digit_byte [of "n mod 10"] by (simp add: digits_value_append)
  qed
qed

lemma decimal_nonempty: "decimal n \<noteq> []"
  by (subst decimal.simps) simp

lemma digit_not_special:
  "is_digit b \<Longrightarrow> b \<noteq> 0 \<and> b \<noteq> newline \<and> b \<noteq> 45 \<and> b \<noteq> 43 \<and> \<not> is_delimiter b \<and> \<not> is_space b"
  by (auto simp: is_digit_def is_delimiter_def is_space_def word_le_nat_alt)

lemma strtol10_decimal:
  assumes "n < 2 ^ 32" and "s = [] \<or> \<not> is_digit (hd s)"
  shows "strtol10 (decimal n @ s) = int n"
proof -
  obtain d ds where d: "decimal n = d # ds" using decimal_nonempty by (cases "decimal n") auto
  then have "is_digit d" using decimal_digits [of d n] by simp
  note sp = digit_not_special [OF this]
  have "digits_value 0 (decimal n @ s) = digits_value n s"
    using decimal_digits by (simp add: digits_value_append decimal_value)
  also have "\<dots> = n" using assms(2) by (cases s) auto
  finally show ?thesis using assms(1) sp
    by (simp add: strtol10_def Let_def d sign_of_def strip_sign_def)
qed

lemma atoi_decimal:
  assumes "n < 2 ^ 32" and "buf = pre @ decimal n @ s @ 0 # rest" and "0 \<notin> set s"
    and "s = [] \<or> \<not> is_digit (hd s)"
  shows "atoi buf (Some (length pre)) = Inr (of_nat n)"
proof -
  have "\<forall>b \<in> set (decimal n @ s). b \<noteq> 0"
    using assms(3) decimal_digits digit_not_special by (metis Un_iff set_append)
  then have "takeWhile (\<lambda>b. b \<noteq> 0) (drop (length pre) buf) = decimal n @ s"
    using takeWhile_append2 [of "decimal n @ s" "\<lambda>b. b \<noteq> 0"] by (simp add: assms(2))
  then show ?thesis
    using strtol10_decimal [OF assms(1,4)] by (simp add: atoi_def assms(2))
qed

section \<open>Parsing what a client sends\<close>

lemma keyword_plain: "\<forall>b \<in> set AESD_SEEKTO_KEYWORD. b \<noteq> 0 \<and> \<not> is_delimiter b"
  by (simp add: AESD_SEEKTO_KEYWORD_def bytes_of_def is_delimiter_def of_char_def)

lemma keyword_length: "length AESD_SEEKTO_KEYWORD = 18"
  by (simp add: AESD_SEEKTO_KEYWORD_def bytes_of_def)

lemma decimal_length: "n < 10 ^ k \<Longrightarrow> 0 < k \<Longrightarrow> length (decimal n) \<le> k"
proof (induction k arbitrary: n)
  case 0
  then show ?case by simp
next
  case (Suc k)
  show ?case
  proof (cases "n < 10")
    case True
    then show ?thesis by (subst decimal.simps) simp
  next
    case False
    with Suc.prems have "n div 10 < 10 ^ k" "0 < k" by (auto intro!: gr0I)
    with Suc.IH False show ?thesis by (subst decimal.simps) simp
  qed
qed

lemma seek_command_length:
  assumes "a < 2 ^ 32" and "b < 2 ^ 32"
  shows "length (seek_command a b) \<le> 41"
  using decimal_length [of a 10] decimal_length [of b 10] assms
  by (simp add: seek_command_def keyword_length)

lemma parse_padded:
  fixes zs :: "byte list"
  assumes "a < 2 ^ 32" and "b < 2 ^ 32"
  defines "buf \<equiv> AESD_SEEKTO_KEYWORD @ 0 # decimal a @ 0 # decimal b @ newline # 0 # zs"
  shows "parse_seek_command (seek_command a b @ 0 # zs) =
     Inr (\<lparr>write_cmd = of_nat a, write_cmd_offset = of_nat b\<rparr>, buf)"
proof -
  let ?kw = AESD_SEEKTO_KEYWORD
  have plain: "\<forall>x \<in> set (decimal n). x \<noteq> 0 \<and> \<not> is_delimiter x" for n
    using decimal_digits digit_not_special by blast
  have nl: "(newline :: byte) \<noteq> 0" "\<not> is_delimiter newline" "\<not> is_digit newline"
    by (simp_all add: is_delimiter_def is_digit_def)
  have delim: "is_delimiter 58" "is_delimiter 44" by (simp_all add: is_delimiter_def)
  have ne: "?kw \<noteq> []" using keyword_length by auto
  let ?b1 = "?kw @ 0 # decimal a @ 44 # decimal b @ newline # 0 # zs"
  have s1: "strtok_r (seek_command a b @ 0 # zs) 0 = Inr (Some 0, ?b1, 19)"
    using strtok_r_token [OF ne keyword_plain, of 58 "seek_command a b @ 0 # zs" "[]"] delim
    by (simp add: seek_command_def keyword_length)
  have s2: "strtok_r ?b1 19 = Inr (Some 19, buf, 19 + length (decimal a) + 1)"
    using strtok_r_token [OF decimal_nonempty [of a] plain, of 44 ?b1 "?kw @ [0]"] delim
    by (simp add: buf_def keyword_length)
  have a2: "atoi buf (Some 19) = Inr (of_nat a)"
    using atoi_decimal [OF assms(1), of buf "?kw @ [0]" "[]"] by (simp add: buf_def keyword_length)
  have s3: "strtok_r buf (19 + length (decimal a) + 1) =
      Inr (Some (20 + length (decimal a)), buf, 20 + length (decimal a) + length (decimal b @ [newline]))"
    using strtok_r_token [of "decimal b @ [newline]" 0 buf "?kw @ 0 # decimal a @ [0]" zs] plain nl
    by (simp add: buf_def keyword_length)
  have a3: "atoi buf (Some (20 + length (decimal a))) = Inr (of_nat b)"
    using atoi_decimal [OF assms(2), of buf "?kw @ 0 # decimal a @ [0]" "[newline]" zs] nl
    by (simp add: buf_def keyword_length)
  show ?thesis
    unfolding parse_seek_command_def
    by (simp add: s1 s2 a2 s3 [simplified] a3 del: and_then_eq_Inr)
qed

text \<open>A seek command without numbers: the second token is the null pointer.\<close>

lemma parse_no_numbers:
  assumes "\<forall>b \<in> set t. b \<noteq> 0 \<and> \<not> is_delimiter b" and "t \<noteq> []"
  shows "parse_seek_command (t @ 0 # zs) = Inl NullDeref"
proof -
  have s1: "strtok_r (t @ 0 # zs) 0 = Inr (Some 0, t @ 0 # zs, length t)"
    using strtok_r_token [OF assms(2,1), of 0 "t @ 0 # zs" "[]"] by simp
  have "skip_delimiters (0 # zs) = Inr 0" by (simp add: is_delimiter_def)
  then have "strtok_r (t @ 0 # zs) (length t) = Inr (None, t @ 0 # zs, length t)"
    by (simp add: strtok_r_def Let_def nth_append)
  with s1 show ?thesis by (simp add: parse_seek_command_def atoi_def)
qed

text \<open>A buffer filled by the client without a delimiter: the search for one leaves the buffer.\<close>

lemma token_length_overrun:
  "\<forall>b \<in> set t. b \<noteq> 0 \<and> \<not> is_delimiter b \<Longrightarrow> token_length t = Inl OutOfBounds"
  by (induction t) auto

lemma parse_overrun:
  assumes "\<forall>b \<in> set t. b \<noteq> 0 \<and> \<not> is_delimiter b"
  shows "parse_seek_command t = Inl OutOfBounds"
  using assms token_length_overrun [OF assms]
  by (cases t) (simp_all add: parse_seek_command_def strtok_r_def Let_def)

text \<open>The seek command is recognised in the buffer, and its newline is still there.\<close>

lemma seek_command_recognised:
  "is_seek_command (seek_command a b @ zs) (length (seek_command a b))"
  by (simp add: is_seek_command_def starts_with_def seek_command_def)

lemma seek_command_newline:
  "newline_received (AESD_SEEKTO_KEYWORD @ 0 # decimal a @ 0 # decimal b @ newline # zs)
     (length (seek_command a b))"
proof -
  let ?pre = "AESD_SEEKTO_KEYWORD @ 0 # decimal a @ 0 # decimal b"
  have "take (length (?pre @ [newline])) ((?pre @ [newline]) @ zs) = ?pre @ [newline]"
    by (rule append_eq_conv_conj [THEN iffD1, OF refl, THEN conjunct1, symmetric])
  moreover have "length (?pre @ [newline]) = length (seek_command a b)"
    by (simp add: seek_command_def)
  ultimately have "take (length (seek_command a b)) (?pre @ newline # zs) = ?pre @ [newline]"
    by (metis append.assoc append_Cons append_Nil)
  then show ?thesis by (simp add: newline_received_def)
qed

end
