(* ===== verification/Connection_Handler.thy ===== *)
theory Connection_Handler
  imports Data_File Socket_Commands
begin

text \<open>
  Model of \<open>connection_handler\<close> of server/aesdsocket.c, the function a connection's thread
  runs: lock the file mutex, open the data file, receive until a newline (writing the bytes
  to the file, or performing the seek command), send the file back, close, unlock. What the
  client sends is the list of results of \<open>recv\<close>; where the list ends the thread waits for
  ever. The handler is proved on the contract of the data file, and so holds for the
  character device.
\<close>

section \<open>The model\<close>

datatype recv_result = Received "byte list" | PeerClosed | RecvFailed

datatype recv_status = PacketComplete | ConnectionClosed | RecvError

text \<open>
  The receive loop. The buffer is all null bytes before each call, so after it the buffer
  is the received bytes, padded.
\<close>

fun recv_loop ::
  "'d file_api \<Rightarrow> bool \<Rightarrow> recv_result list \<Rightarrow> 'd stream \<Rightarrow> (fault + recv_status \<times> 'd stream) option" where
  "recv_loop api use_char [] f = None"
| "recv_loop api use_char (PeerClosed # _) f = Some (Inr (ConnectionClosed, f))"
| "recv_loop api use_char (RecvFailed # _) f = Some (Inr (RecvError, f))"
| "recv_loop api use_char (Received bs # rest) f =
     (let recv_buffer = padded bs; res = length bs in
      if use_char \<and> is_seek_command recv_buffer res
      then (case parse_seek_command recv_buffer of
              Inl e \<Rightarrow> Some (Inl e)
            | Inr (seek, recv_buffer') \<Rightarrow>
                let f' = snd (stream_ioctl api f seek) in
                if newline_received recv_buffer' res then Some (Inr (PacketComplete, f'))
                else recv_loop api use_char rest f')
      else
        let f' = stream_write api f (take res recv_buffer) in
        if newline_received recv_buffer res then Some (Inr (PacketComplete, f'))
        else recv_loop api use_char rest f')"

text \<open>
  The reply loop; \<open>send sent bs\<close> is what \<open>send\<close> returns for the bytes \<open>bs\<close> after those in
  \<open>sent\<close>: -1, or the number of bytes it took. The flag tells whether it reached the end of
  the file.
\<close>

partial_function (option) reply_loop ::
  "'d file_api \<Rightarrow> (byte list list \<Rightarrow> byte list \<Rightarrow> int) \<Rightarrow> byte list list \<Rightarrow> 'd stream \<Rightarrow>
   (bool \<times> byte list list \<times> 'd stream) option" where
  "reply_loop api send sent f =
     (case stream_read api f RECV_BUFFER_LEN of (bs, f') \<Rightarrow>
        if bs = [] then Some (True, sent, f')
        else
          let res = send sent bs in
          if res = - 1 then Some (False, sent, f')
          else reply_loop api send (sent @ [take (nat res) bs]) f')"

text \<open>What the thread meets, and what it leaves.\<close>

record 'd conn_env =
  lock_rc :: int
  opened :: "'d option"
  recvs :: "recv_result list"
  send_rc :: "byte list list \<Rightarrow> byte list \<Rightarrow> int"

datatype handler_event =
    MutexLocked | MutexUnlocked | FileOpened | FileClosed | ConnectionShut | MarkedCompleted

record 'd outcome =
  final_file :: "'d stream option"
  sent_data :: "byte list list"
  log :: "handler_event list"

definition close_client :: "'d stream option \<Rightarrow> byte list list \<Rightarrow> handler_event list \<Rightarrow> 'd outcome" where
  "close_client f sent evs =
     \<lparr>final_file = f, sent_data = sent, log = evs @ [MutexUnlocked, ConnectionShut, MarkedCompleted]\<rparr>"

definition close_client_file ::
  "'d file_api \<Rightarrow> 'd stream \<Rightarrow> byte list list \<Rightarrow> handler_event list \<Rightarrow> 'd outcome" where
  "close_client_file api f sent evs =
     close_client (Some (snd (stream_flush api f))) sent (evs @ [FileClosed])"

definition send_file ::
  "'d file_api \<Rightarrow> bool \<Rightarrow> 'd conn_env \<Rightarrow> 'd stream \<Rightarrow> handler_event list \<Rightarrow> 'd outcome option" where
  "send_file api use_char env f evs =
     (case (if use_char then (0, f) else stream_rewind api f) of (rc, f1) \<Rightarrow>
        if rc = - 1 then Some (close_client_file api f1 [] evs)
        else Option.bind (reply_loop api (send_rc env) [] f1)
               (\<lambda>(_, sent, f2). Some (close_client_file api f2 sent evs)))"

definition connection_handler ::
  "'d file_api \<Rightarrow> bool \<Rightarrow> 'd conn_env \<Rightarrow> ptr \<Rightarrow> (fault + 'd outcome) option" where
  "connection_handler api use_char env current_thread_data =
     (if current_thread_data = NULL
      then Some (Inr \<lparr>final_file = None, sent_data = [], log = []\<rparr>)
      else if lock_rc env \<noteq> 0 then Some (Inr (close_client None [] []))
      else case opened env of
        None \<Rightarrow> Some (Inr (close_client None [] [MutexLocked]))
      | Some d \<Rightarrow>
          let evs = [MutexLocked, FileOpened] in
          Option.bind (recv_loop api use_char (recvs env) \<lparr>dev_of = d, wbuf = [], ferror = False\<rparr>)
            (\<lambda>r. case r of
               Inl e \<Rightarrow> Some (Inl e)
             | Inr (PacketComplete, f) \<Rightarrow> map_option Inr (send_file api use_char env f evs)
             | Inr (_, f) \<Rightarrow> Some (Inr (close_client_file api f [] evs))))"

section \<open>Receiving and replying, on the contract of the data file\<close>

text \<open>The messages of a line: parts without a newline, then a part that ends in one, none of
  them a seek command where there are seek commands.\<close>

definition line_parts :: "bool \<Rightarrow> byte list list \<Rightarrow> bool" where
  "line_parts use_char parts \<longleftrightarrow> parts \<noteq> [] \<and>
     (\<forall>p \<in> set parts. p \<noteq> [] \<and> length p \<le> RECV_BUFFER_LEN \<and>
        \<not> (use_char \<and> is_seek_command (padded p) (length p))) \<and>
     newline \<notin> set (concat (butlast parts)) \<and> newline \<notin> set (butlast (last parts)) \<and>
     last (last parts) = newline \<and> length (concat parts) < 2 ^ 30"

lemma take_padded [simp]: "take (length bs) (padded bs) = bs"
  by (simp add: padded_def)

lemma newline_padded [simp]: "newline_received (padded bs) (length bs) \<longleftrightarrow> newline \<in> set bs"
  by (simp add: newline_received_def)

text \<open>An error of the stream is never cleared.\<close>

lemma stream_write_sticky: "ferror f \<Longrightarrow> ferror (stream_write api f bs)"
  by (auto simp: stream_write_def Let_def split: prod.splits)

lemma stream_ioctl_sticky: "ferror f \<Longrightarrow> ferror (snd (stream_ioctl api f seek))"
  by (simp add: stream_ioctl_def split: prod.splits)

text \<open>One round of the loop, for data and for a seek command.\<close>

lemma recv_loop_data:
  "\<not> (use_char \<and> is_seek_command (padded bs) (length bs)) \<Longrightarrow>
   recv_loop api use_char (Received bs # rest) f =
     (if newline \<in> set bs then Some (Inr (PacketComplete, stream_write api f bs))
      else recv_loop api use_char rest (stream_write api f bs))"
  by (simp only: recv_loop.simps Let_def if_False take_padded newline_padded)

lemma recv_loop_seek:
  "is_seek_command (padded bs) (length bs) \<Longrightarrow>
   recv_loop api True (Received bs # rest) f =
     (case parse_seek_command (padded bs) of
        Inl e \<Rightarrow> Some (Inl e)
      | Inr (seek, buf) \<Rightarrow>
          if newline_received buf (length bs)
          then Some (Inr (PacketComplete, snd (stream_ioctl api f seek)))
          else recv_loop api True rest (snd (stream_ioctl api f seek)))"
  by (simp only: recv_loop.simps Let_def if_True simp_thms)

declare recv_loop.simps(4) [simp del]

lemma recv_loop_sticky:
  "ferror f \<Longrightarrow> recv_loop api use_char rs f = Some (Inr (st, f')) \<Longrightarrow> ferror f'"
proof (induction rs arbitrary: f)
  case Nil
  then show ?case by simp
next
  case (Cons r rest)
  show ?case
  proof (cases r)
    case (Received bs)
    show ?thesis
    proof (cases "use_char \<and> is_seek_command (padded bs) (length bs)")
      case False
      with Cons.prems Received stream_write_sticky [OF Cons.prems(1), of api bs] Cons.IH show ?thesis
        by (auto simp: recv_loop_data split: if_splits)
    next
      case True
      then obtain seek buf where "parse_seek_command (padded bs) = Inr (seek, buf)"
        using Cons.prems Received by (auto simp: recv_loop_seek split: sum.splits)
      with True Cons.prems Received stream_ioctl_sticky [OF Cons.prems(1), of api seek] Cons.IH
      show ?thesis by (auto simp: recv_loop_seek split: if_splits)
    qed
  qed (use Cons.prems in auto)
qed

lemma recv_loop_returns:
  assumes "parts \<noteq> []" and "last (last parts) = newline"
    and "\<forall>p \<in> set parts. p \<noteq> [] \<and> \<not> (use_char \<and> is_seek_command (padded p) (length p))"
  shows "\<exists>f'. recv_loop api use_char (map Received parts @ rest) f = Some (Inr (PacketComplete, f'))"
  using assms
proof (induction parts arbitrary: f)
  case (Cons q qs)
  then have "newline \<in> set q" if "qs = []" using that by (metis last.simps last_in_set list.set_intros(1))
  with Cons show ?case by (cases "qs = []") (auto simp: recv_loop_data)
qed simp

definition full_sends :: "(byte list list \<Rightarrow> byte list \<Rightarrow> int) \<Rightarrow> bool" where
  "full_sends send \<longleftrightarrow> (\<forall>sent bs. send sent bs = int (length bs))"

context data_file
begin

text \<open>The loop on the messages of a line: the stream without an error, or with the room for the
  line.\<close>

lemma recv_loop_line:
  assumes "good f" and "newline \<notin> set (wbuf f)" and "parts \<noteq> []"
    and "\<forall>p \<in> set parts. p \<noteq> [] \<and> \<not> (use_char \<and> is_seek_command (padded p) (length p))"
    and "newline \<notin> set (concat (butlast parts))" and "newline \<notin> set (butlast (last parts))"
    and "last (last parts) = newline" and "length (wbuf f) + length (concat parts) < 2 ^ 30"
  shows "\<exists>f'. recv_loop api use_char (map Received parts @ rest) f = Some (Inr (PacketComplete, f')) \<and>
     (\<not> ferror f' \<longrightarrow> good f' \<and> content_after f' = extend (content_after f) (concat parts) \<and>
        at (dev_of f') = at (dev_of f)) \<and>
     (fits f (length (concat parts)) \<longrightarrow> \<not> ferror f' \<and> fits f' 0)"
  using assms
proof (induction parts arbitrary: f)
  case Nil
  then show ?case by simp
next
  case (Cons p parts)
  let ?f = "stream_write api f p"
  have p: "p \<noteq> []" "\<not> (use_char \<and> is_seek_command (padded p) (length p))" using Cons.prems(4) by simp_all
  have len: "length (wbuf f) + length p < 2 ^ 30" using Cons.prems(8) by simp
  show ?case
  proof (cases "parts = []")
    case True
    with Cons.prems have nl: "last p = newline" "newline \<notin> set (butlast p)" by simp_all
    from nl p have "newline \<in> set p" by (metis last_in_set)
    with True p stream_write_good(1) [OF Cons.prems(1,2) p(1) nl(2) len]
      stream_write_good(2) [OF Cons.prems(1,2) p(1) nl(2) len, of 0] show ?thesis
      by (simp add: recv_loop_data)
  next
    case False
    with Cons.prems have nl: "newline \<notin> set p" by simp
    then have nlb: "newline \<notin> set (butlast p)" by (meson in_set_butlastD)
    note w = stream_write_good [OF Cons.prems(1,2) p(1) nlb len]
    have step: "recv_loop api use_char (map Received (p # parts) @ rest) f =
        recv_loop api use_char (map Received parts @ rest) ?f"
      using p nl by (simp add: recv_loop_data)
    show ?thesis
    proof (cases "ferror ?f")
      case True
      obtain f' where f': "recv_loop api use_char (map Received parts @ rest) ?f = Some (Inr (PacketComplete, f'))"
        using recv_loop_returns [of parts use_char api rest ?f] False Cons.prems(4,7) by auto
      from f' have "ferror f'" by (rule recv_loop_sticky [OF True])
      moreover have "\<not> fits f (length p + length (concat parts))" using w(2) True by blast
      ultimately show ?thesis using f' step by simp
    next
      case ok: False
      note g = w(1) [OF ok]
      have "newline \<notin> set (wbuf ?f)" using g nl Cons.prems(2) by blast
      moreover have "length (wbuf ?f) + length (concat parts) < 2 ^ 30"
        using g Cons.prems(8) by simp
      moreover have "\<forall>p \<in> set parts. p \<noteq> [] \<and> \<not> (use_char \<and> is_seek_command (padded p) (length p))"
          "newline \<notin> set (concat (butlast parts))" "newline \<notin> set (butlast (last parts))"
          "last (last parts) = newline"
        using Cons.prems False by simp_all
      ultimately obtain f' where f': "recv_loop api use_char (map Received parts @ rest) ?f = Some (Inr (PacketComplete, f'))"
          "\<not> ferror f' \<longrightarrow> good f' \<and> content_after f' = extend (content_after ?f) (concat parts) \<and>
             at (dev_of f') = at (dev_of ?f)"
          "fits ?f (length (concat parts)) \<longrightarrow> \<not> ferror f' \<and> fits f' 0"
        using Cons.IH [of ?f] g False by blast
      have "concat parts \<noteq> []" using False Cons.prems(4) by (cases parts) auto
      moreover have "last p \<noteq> newline" using nl p by (metis last_in_set)
      ultimately have "extend (extend (content_after f) p) (concat parts) =
          extend (content_after f) (p @ concat parts)"
        using extend_join p by blast
      with g f' step w(2) show ?thesis by simp
    qed
  qed
qed

lemma flush_empty: "wbuf f = [] \<Longrightarrow> stream_flush api f = (True, f)"
  by (simp add: stream_flush_def write_all.simps)

lemma read_after_flush:
  assumes "stream_flush api f = (True, f1)"
  shows "stream_read api f n = stream_read api f1 n"
proof -
  have "wbuf f1 = []" using assms by (auto simp: stream_flush_def split: prod.splits)
  then show ?thesis using assms by (simp add: stream_read_def flush_empty)
qed

lemma reply_loop_flushed:
  "stream_flush api f = (True, f1) \<Longrightarrow> reply_loop api send sent f = reply_loop api send sent f1"
  using read_after_flush [of f f1 RECV_BUFFER_LEN]
  by (simp add: reply_loop.simps [of api send sent f] reply_loop.simps [of api send sent f1])

lemma stream_read_good:
  assumes "good f" and "wbuf f = []"
  shows "\<exists>f'. stream_read api f RECV_BUFFER_LEN = (take 512 (remaining (dev_of f)), f') \<and> good f' \<and>
     wbuf f' = [] \<and> remaining (dev_of f') = drop 512 (remaining (dev_of f)) \<and>
     content (dev_of f') = content (dev_of f)"
proof -
  obtain d where d: "fread (api_read api) 512 (dev_of f) = (take 512 (remaining (dev_of f)), d)"
      "inv d" "remaining d = drop 512 (remaining (dev_of f))"
    using fread_spec [of "dev_of f" 512] assms reads_512 by (auto simp: good_def)
  moreover have "content d = content (dev_of f)"
    using fread_content [OF _ reads_512 d(1)] assms by (simp add: good_def)
  ultimately show ?thesis
    using assms by (simp add: stream_read_def flush_empty RECV_BUFFER_LEN_def good_def)
qed

lemma reply_loop_sends_rest:
  assumes "good f" and "wbuf f = []" and full: "full_sends send"
  shows "\<exists>cs f'. reply_loop api send sent f = Some (True, sent @ cs, f') \<and>
     concat cs = remaining (dev_of f) \<and> good f' \<and> wbuf f' = [] \<and>
     content (dev_of f') = content (dev_of f)"
  using assms(1,2)
proof (induction "length (remaining (dev_of f))" arbitrary: f sent rule: less_induct)
  case less
  obtain f1 where f1: "stream_read api f RECV_BUFFER_LEN = (take 512 (remaining (dev_of f)), f1)" "good f1"
      "wbuf f1 = []" "remaining (dev_of f1) = drop 512 (remaining (dev_of f))"
      "content (dev_of f1) = content (dev_of f)"
    using stream_read_good [OF less.prems] by blast
  show ?case
  proof (cases "remaining (dev_of f) = []")
    case True
    with f1 show ?thesis by (subst reply_loop.simps) auto
  next
    case False
    let ?bs = "take 512 (remaining (dev_of f))"
    have "take (nat (send sent ?bs)) ?bs = ?bs" "send sent ?bs \<noteq> - 1" "?bs \<noteq> []"
      using full False by (simp_all only: full_sends_def nat_int take_all) auto
    then have step: "reply_loop api send sent f = reply_loop api send (sent @ [?bs]) f1"
      using f1(1) by (simp add: reply_loop.simps [of api send sent f] Let_def)
    have "length (remaining (dev_of f1)) < length (remaining (dev_of f))"
      using False f1(4) by (cases "remaining (dev_of f)") auto
    then obtain cs f' where r: "reply_loop api send (sent @ [?bs]) f1 = Some (True, (sent @ [?bs]) @ cs, f')"
        "concat cs = remaining (dev_of f1)" "good f'" "wbuf f' = []" "content (dev_of f') = content (dev_of f1)"
      using less.hyps f1(2,3) by blast
    have "concat (?bs # cs) = remaining (dev_of f)" by (simp add: r(2) f1(4))
    with r step f1(5) show ?thesis by (intro exI [of _ "?bs # cs"]) auto
  qed
qed

text \<open>Replying with a stream whose buffer is still to be written.\<close>

lemma send_file_result:
  assumes f: "good f" and full: "full_sends (send_rc env)"
  shows "\<exists>sent f'. send_file api use_char env f evs =
       Some (close_client (Some f') sent (evs @ [FileClosed])) \<and>
     (if fst (stream_flush api f)
      then good f' \<and> content (dev_of f') = content_after f \<and>
        concat sent = drop (if use_char then at (dev_of f) else 0) (bytes (content_after f))
      else ferror f')"
proof -
  obtain ok f1 where fl: "stream_flush api f = (ok, f1)" by fastforce
  have f1: "wbuf f1 = []" "ferror f1 = (ferror f \<or> \<not> ok)"
    using fl by (auto simp: stream_flush_def split: prod.splits)
  show ?thesis
  proof (cases ok)
    case False
    have "reply_loop api (send_rc env) [] f = Some (True, [], f1)"
      using fl False by (subst reply_loop.simps) (simp add: stream_read_def)
    moreover have "stream_rewind api f = (- 1, f1)" using fl False by (simp add: stream_rewind_def)
    ultimately show ?thesis
      using f1 False fl
      by (intro exI [of _ "[]"] exI [of _ f1]) (simp add: send_file_def close_client_file_def flush_empty)
  next
    case True
    with fl have fl': "stream_flush api f = (True, f1)" by simp
    note g = flush_good [OF f fl']
    define f2 where "f2 = (if use_char then f1 else snd (stream_rewind api f))"
    have f2: "good f2" "wbuf f2 = []" "content (dev_of f2) = content_after f"
        "at (dev_of f2) = (if use_char then at (dev_of f) else 0)"
      and rc: "use_char \<or> stream_rewind api f = (0, f2)"
    proof -
      obtain rc d where rw: "api_rewind api (dev_of f1) = (rc, d)" by fastforce
      have "inv (dev_of f1)" using g by (simp add: good_def)
      note law = rewind_law [OF this rw]
      from fl' rw law have "stream_rewind api f = (0, f1\<lparr>dev_of := d\<rparr>)" by (simp add: stream_rewind_def)
      with law g show "good f2" "wbuf f2 = []" "content (dev_of f2) = content_after f"
        "at (dev_of f2) = (if use_char then at (dev_of f) else 0)" "use_char \<or> stream_rewind api f = (0, f2)"
        by (simp_all add: f2_def good_def)
    qed
    obtain cs f3 where "reply_loop api (send_rc env) [] f2 = Some (True, [] @ cs, f3)"
        "concat cs = remaining (dev_of f2)" "good f3" "wbuf f3 = []"
        "content (dev_of f3) = content (dev_of f2)"
      using reply_loop_sends_rest [OF f2(1,2) full] by blast
    moreover have "remaining (dev_of f2) = drop (if use_char then at (dev_of f) else 0) (bytes (content_after f))"
      using remaining_at [of "dev_of f2"] f2 by (simp add: good_def)
    moreover have "send_file api use_char env f evs = Some (close_client (Some f3) cs (evs @ [FileClosed]))"
    proof (cases use_char)
      case True
      with calculation(1,4) reply_loop_flushed [OF fl', of "send_rc env" "[]"] show ?thesis
        by (simp add: send_file_def close_client_file_def flush_empty f2_def)
    next
      case False
      then have "stream_rewind api f = (0, f2)" using rc by simp
      with False calculation(1,4) show ?thesis
        by (simp add: send_file_def close_client_file_def flush_empty)
    qed
    ultimately show ?thesis
      using f2 True fl by (intro exI [of _ cs] exI [of _ f3]) simp
  qed
qed

end

section \<open>The handler\<close>

text \<open>The mutex and file events of a conversation that gets as far as the file.\<close>

definition full_log :: "handler_event list" where
  "full_log = [MutexLocked, FileOpened, FileClosed, MutexUnlocked, ConnectionShut, MarkedCompleted]"

lemma padded_seek_command:
  assumes "a < 2 ^ 32" and "b < 2 ^ 32"
  obtains zs where "padded (seek_command a b) = seek_command a b @ 0 # zs"
proof -
  have "512 - length (seek_command a b) = Suc (511 - length (seek_command a b))"
    using seek_command_length [OF assms] by simp
  then show thesis using that by (simp add: padded_def RECV_BUFFER_LEN_def)
qed

lemma recv_loop_seek_command:
  assumes "a < 2 ^ 32" and "b < 2 ^ 32"
  shows "recv_loop api True (Received (seek_command a b) # rest) f =
     Some (Inr (PacketComplete,
       snd (stream_ioctl api f \<lparr>write_cmd = of_nat a, write_cmd_offset = of_nat b\<rparr>)))"
proof -
  obtain zs where zs: "padded (seek_command a b) = seek_command a b @ 0 # zs"
    using padded_seek_command [OF assms] by blast
  have "is_seek_command (padded (seek_command a b)) (length (seek_command a b))"
    by (simp add: zs seek_command_recognised)
  then show ?thesis
    using parse_padded [OF assms, of zs] seek_command_newline [of a b "0 # zs"]
    by (simp add: recv_loop_seek zs)
qed

text \<open>From the stream the receive loop leaves to the end of the conversation.\<close>

lemma handler_complete:
  assumes "p \<noteq> NULL" and "lock_rc env = 0" and "opened env = Some d"
    and "recv_loop api use_char (recvs env) \<lparr>dev_of = d, wbuf = [], ferror = False\<rparr> = Some (Inr (PacketComplete, f))"
    and "send_file api use_char env f [MutexLocked, FileOpened] =
      Some (close_client (Some f') sent ([MutexLocked, FileOpened] @ [FileClosed]))"
  shows "connection_handler api use_char env p =
     Some (Inr \<lparr>final_file = Some f', sent_data = sent, log = full_log\<rparr>)"
  using assms by (simp add: connection_handler_def close_client_def full_log_def)

context data_file
begin

text \<open>
  A client that sends a line (in any number of messages) gets back the file, from the
  position it was opened at or from the start, with that line appended; unless the library
  reported an error when it wrote the line out. With room for the line it reports none.
\<close>

lemma handler_line:
  assumes d: "inv d" and env: "lock_rc env = 0" "opened env = Some d" "full_sends (send_rc env)"
    and parts: "line_parts use_char parts" "recvs env = map Received parts @ rest" and p: "p \<noteq> NULL"
  defines "final \<equiv> extend (content d) (concat parts)"
  shows "\<exists>f. recv_loop api use_char (recvs env) \<lparr>dev_of = d, wbuf = [], ferror = False\<rparr> =
       Some (Inr (PacketComplete, f)) \<and>
     (ferror f \<and> room (content d) < length (concat parts) \<or> (\<exists>sent f'.
        connection_handler api use_char env p =
          Some (Inr \<lparr>final_file = Some f', sent_data = sent, log = full_log\<rparr>) \<and>
        (ferror f' \<and> room (content d) < length (concat parts) \<or> good f' \<and> content (dev_of f') = final \<and>
          concat sent = drop (if use_char then at d else 0) (bytes final))))"
proof -
  let ?start = "\<lparr>dev_of = d, wbuf = [], ferror = False\<rparr>"
  have "good ?start" using d by (simp add: good_def)
  then obtain f where f: "recv_loop api use_char (recvs env) ?start = Some (Inr (PacketComplete, f))"
      "\<not> ferror f \<longrightarrow> good f \<and> content_after f = final \<and> at (dev_of f) = at d"
      "length (concat parts) \<le> room (content d) \<longrightarrow> \<not> ferror f \<and> fits f 0"
    using recv_loop_line [of ?start parts use_char rest] parts
    by (auto simp: line_parts_def final_def content_after_def fits_def)
  show ?thesis
  proof (cases "ferror f")
    case True
    with f show ?thesis by (metis not_le)
  next
    case False
    with f(2) have g: "good f" "content_after f = final" "at (dev_of f) = at d" by blast+
    obtain sent f' where s: "send_file api use_char env f [MutexLocked, FileOpened] =
          Some (close_client (Some f') sent ([MutexLocked, FileOpened] @ [FileClosed]))"
        "if fst (stream_flush api f) then good f' \<and> content (dev_of f') = content_after f \<and>
           concat sent = drop (if use_char then at (dev_of f) else 0) (bytes (content_after f)) else ferror f'"
      using send_file_result [OF g(1) env(3)] by blast
    have "room (content d) < length (concat parts)" if "\<not> fst (stream_flush api f)"
      using flush_fits [OF g(1)] f(3) that by (metis not_le)
    with s(2) have "ferror f' \<and> room (content d) < length (concat parts) \<or> good f' \<and> content (dev_of f') = final \<and>
        concat sent = drop (if use_char then at d else 0) (bytes final)"
      unfolding g(2,3) by (cases "fst (stream_flush api f)") simp_all
    with handler_complete [OF p env(1,2) f(1) s(1)] f(1) show ?thesis by blast
  qed
qed

text \<open>With room for the line: nothing goes wrong.\<close>

lemma handler_line_served:
  assumes d: "inv d" and env: "lock_rc env = 0" "opened env = Some d" "full_sends (send_rc env)"
    and parts: "line_parts use_char parts" "recvs env = map Received parts @ rest" and p: "p \<noteq> NULL"
    and room: "length (concat parts) \<le> room (content d)"
  shows "\<exists>sent f'. connection_handler api use_char env p =
       Some (Inr \<lparr>final_file = Some f', sent_data = sent, log = full_log\<rparr>) \<and>
     \<not> ferror f' \<and> inv (dev_of f') \<and> content (dev_of f') = extend (content d) (concat parts) \<and>
     concat sent = drop (if use_char then at d else 0) (bytes (extend (content d) (concat parts)))"
proof -
  have "\<not> room (content d) < length (concat parts)" using room by simp
  with handler_line [OF d env parts p] show ?thesis unfolding good_def by blast
qed

end

text \<open>A client that sends a seek command gets the file from the byte sought.\<close>

context seekable_file
begin

lemma handler_seek:
  assumes d: "inv d" and env: "lock_rc env = 0" "opened env = Some d" "full_sends (send_rc env)"
    and recvs: "recvs env = Received (seek_command a b) # rest" "a < 2 ^ 32" "b < 2 ^ 32" and p: "p \<noteq> NULL"
  defines "ls \<equiv> lines_of (content d)"
  shows "\<exists>sent f'. connection_handler api True env p =
       Some (Inr \<lparr>final_file = Some f', sent_data = sent, log = full_log\<rparr>) \<and>
     \<not> ferror f' \<and> inv (dev_of f') \<and> content (dev_of f') = content d \<and>
     concat sent =
         (if a < length ls \<and> b \<le> length (ls ! a) then drop b (ls ! a) @ concat (drop (Suc a) ls)
          else drop (at d) (bytes (content d)))"
proof -
  let ?start = "\<lparr>dev_of = d, wbuf = [], ferror = False\<rparr>"
  let ?seek = "\<lparr>write_cmd = of_nat a :: u32, write_cmd_offset = of_nat b :: u32\<rparr>"
  obtain rc d' where io: "api_ioctl api d ?seek = (rc, d')" by fastforce
  have un: "unat (of_nat a :: u32) = a" "unat (of_nat b :: u32) = b"
    using recvs(2,3) by (auto intro: unat_of_nat_lt)
  have law: "inv d' \<and> content d' = content d \<and>
      (if a < length ls \<and> b \<le> length (ls ! a)
       then rc = 0 \<and> remaining d' = drop b (ls ! a) @ concat (drop (Suc a) ls) else rc = - 1 \<and> at d' = at d)"
    using seek_law [OF d io] by (simp add: ls_def Let_def un)
  let ?f = "\<lparr>dev_of = d', wbuf = [], ferror = False\<rparr>"
  have "stream_ioctl api ?start ?seek = (rc, ?f)" by (simp add: stream_ioctl_def io)
  then have f: "recv_loop api True (recvs env) ?start = Some (Inr (PacketComplete, ?f))"
    unfolding recvs(1) recv_loop_seek_command [OF recvs(2,3)] by simp
  have g: "good ?f" "content_after ?f = content d" "fst (stream_flush api ?f)"
    using law by (simp_all add: good_def content_after_def flush_empty)
  obtain sent f' where s: "send_file api True env ?f [MutexLocked, FileOpened] =
        Some (close_client (Some f') sent ([MutexLocked, FileOpened] @ [FileClosed]))"
      "good f' \<and> content (dev_of f') = content d \<and> concat sent = drop (at d') (bytes (content d))"
    using send_file_result [OF g(1) env(3), of True "[MutexLocked, FileOpened]"] g(2,3) by auto
  have "drop (at d') (bytes (content d)) =
      (if a < length ls \<and> b \<le> length (ls ! a) then drop b (ls ! a) @ concat (drop (Suc a) ls)
       else drop (at d) (bytes (content d)))"
    using law remaining_at [of d'] by (auto split: if_splits)
  then show ?thesis
    using s(2) handler_complete [OF p env(1,2) f s(1)] by (auto simp: good_def)
qed

end

section \<open>Conversations that end early\<close>

lemma handler_lock_failed:
  "p \<noteq> NULL \<Longrightarrow> lock_rc env \<noteq> 0 \<Longrightarrow>
   connection_handler api use_char env p =
     Some (Inr \<lparr>final_file = None, sent_data = [], log = [MutexUnlocked, ConnectionShut, MarkedCompleted]\<rparr>)"
  by (simp add: connection_handler_def close_client_def)

lemma handler_seek_without_numbers:
  assumes "p \<noteq> NULL" and "lock_rc env = 0" and "opened env = Some d"
    and "recvs env = Received (AESD_SEEKTO_KEYWORD @ [newline]) # rest"
  shows "connection_handler api True env p = Some (Inl NullDeref)"
proof -
  let ?m = "AESD_SEEKTO_KEYWORD @ [newline]"
  have "is_seek_command (padded ?m) (length ?m)"
    by (simp add: is_seek_command_def starts_with_def padded_def)
  moreover have "padded ?m = ?m @ 0 # replicate 492 0"
    by (simp add: padded_def keyword_length RECV_BUFFER_LEN_def numeral_eq_Suc)
  moreover have "parse_seek_command (?m @ 0 # replicate 492 0) = Inl NullDeref"
    using keyword_plain by (intro parse_no_numbers) (auto simp: is_delimiter_def)
  ultimately show ?thesis using assms by (simp add: connection_handler_def recv_loop_seek)
qed

lemma handler_waits:
  assumes "p \<noteq> NULL" and "lock_rc env = 0" and "opened env = Some d" and "recvs env = []"
  shows "connection_handler api use_char env p = None"
  using assms by (simp add: connection_handler_def)

end
