(* ===== verification/Shared_File.thy ===== *)
theory Shared_File
  imports Connection_Handler Transition
begin

text \<open>
  Several clients at once: every connection has its thread, each thread holds the file mutex
  from before it opens the data file until after it closes it, and so the conversations
  follow one another in the order in which the threads got the mutex. The model is a step
  relation in which a free mutex goes to any waiting thread and the thread that has it runs
  \<open>connection_handler\<close> on the file as the last one left it. Whether the mutex is free again
  after a conversation is read off what the handler did: a handler that does not unlock leaves
  every other thread waiting. What every client gets back is proved on the contract of the
  data file.
\<close>

section \<open>Clients and steps\<close>

text \<open>A client sends one line in some messages; \<open>later\<close> is what it would send after that.\<close>

record client =
  thread_data_ptr :: ptr
  messages :: "byte list list"
  later :: "recv_result list"

definition client_line :: "client \<Rightarrow> byte list" where
  "client_line c = concat (messages c)"

definition client_ok :: "bool \<Rightarrow> client \<Rightarrow> bool" where
  "client_ok use_char c \<longleftrightarrow> thread_data_ptr c \<noteq> NULL \<and> line_parts use_char (messages c)"

text \<open>What the client's thread meets: \<open>fopen\<close> gives the file at its start, \<open>send\<close> takes all.\<close>

definition client_env :: "('d \<Rightarrow> 'd) \<Rightarrow> client \<Rightarrow> 'd \<Rightarrow> 'd conn_env" where
  "client_env reopen c d =
     \<lparr>lock_rc = 0, opened = Some (reopen d), recvs = map Received (messages c) @ later c,
      send_rc = (\<lambda>_ bs. int (length bs))\<rparr>"

text \<open>The mutex after what a handler did.\<close>

fun mutex_after :: "handler_event list \<Rightarrow> bool \<Rightarrow> bool" where
  "mutex_after [] locked = locked"
| "mutex_after (MutexLocked # evs) locked = mutex_after evs True"
| "mutex_after (MutexUnlocked # evs) locked = mutex_after evs False"
| "mutex_after (_ # evs) locked = mutex_after evs locked"

text \<open>The file, whether its mutex is locked, the thread that is in its conversation, the threads
  in the order they got the mutex, and the replies.\<close>

record 'd service =
  disk :: 'd
  file_mutex :: bool
  busy :: "nat option"
  served :: "nat list"
  replies :: "nat \<rightharpoonup> byte list"

inductive service_step ::
  "'d file_api \<Rightarrow> bool \<Rightarrow> ('d \<Rightarrow> 'd) \<Rightarrow> client list \<Rightarrow> 'd service \<Rightarrow> 'd service \<Rightarrow> bool"
  for api use_char reopen clients where
  lock_file: "\<not> file_mutex s \<Longrightarrow> busy s = None \<Longrightarrow> i < length clients \<Longrightarrow> i \<notin> set (served s) \<Longrightarrow>
    service_step api use_char reopen clients s
      (s\<lparr>file_mutex := True, busy := Some i, served := served s @ [i]\<rparr>)"
| converse: "busy s = Some i \<Longrightarrow>
    connection_handler api use_char (client_env reopen (clients ! i) (disk s)) (thread_data_ptr (clients ! i)) =
      Some (Inr out) \<Longrightarrow>
    final_file out = Some f \<Longrightarrow>
    service_step api use_char reopen clients s
      (s\<lparr>disk := dev_of f, file_mutex := mutex_after (log out) (file_mutex s), busy := None,
         replies := (replies s)(i \<mapsto> concat (sent_data out))\<rparr>)"

definition service_start :: "'d \<Rightarrow> 'd service" where
  "service_start d = \<lparr>disk = d, file_mutex = False, busy = None, served = [], replies = Map.empty\<rparr>"

text \<open>The threads whose conversation is over, in order; the steps that are left.\<close>

definition finished :: "'d service \<Rightarrow> nat list" where
  "finished s = (case busy s of None \<Rightarrow> served s | Some _ \<Rightarrow> butlast (served s))"

definition service_work :: "client list \<Rightarrow> 'd service \<Rightarrow> nat" where
  "service_work clients s =
     2 * (length clients - length (served s)) + (if busy s = None then 0 else 1)"

lemma full_log_mutex: "\<not> mutex_after full_log locked"
  by (simp add: full_log_def)

section \<open>On the contract of the data file\<close>

locale shared_file = data_file api remaining inv max_read content at extend bytes room
  for api :: "'d file_api" and remaining :: "'d \<Rightarrow> byte list" and inv :: "'d \<Rightarrow> bool"
    and max_read :: nat and content :: "'d \<Rightarrow> 'h" and at :: "'d \<Rightarrow> nat"
    and extend :: "'h \<Rightarrow> byte list \<Rightarrow> 'h" and bytes :: "'h \<Rightarrow> byte list" and room :: "'h \<Rightarrow> nat" +
  fixes reopen :: "'d \<Rightarrow> 'd"
  assumes reopen_law: "inv d \<Longrightarrow> inv (reopen d) \<and> content (reopen d) = content d \<and> at (reopen d) = 0"
begin

text \<open>The content after some threads, one after the other; there is room for the line of every
  client, whichever come before it.\<close>

definition content_of :: "client list \<Rightarrow> 'h \<Rightarrow> nat list \<Rightarrow> 'h" where
  "content_of clients h is = foldl extend h (map (\<lambda>i. client_line (clients ! i)) is)"

definition room_for_all :: "client list \<Rightarrow> 'h \<Rightarrow> bool" where
  "room_for_all clients h \<longleftrightarrow>
     (\<forall>is i. distinct (is @ [i]) \<longrightarrow> set (is @ [i]) \<subseteq> {..<length clients} \<longrightarrow>
        length (client_line (clients ! i)) \<le> room (content_of clients h is))"

definition service_inv :: "client list \<Rightarrow> 'h \<Rightarrow> 'd service \<Rightarrow> bool" where
  "service_inv clients h s \<longleftrightarrow>
     inv (disk s) \<and> distinct (served s) \<and> set (served s) \<subseteq> {..<length clients} \<and>
     (file_mutex s \<longleftrightarrow> busy s \<noteq> None) \<and>
     (\<forall>i. busy s = Some i \<longrightarrow> served s = finished s @ [i]) \<and>
     content (disk s) = content_of clients h (finished s) \<and>
     (\<forall>k < length (finished s). replies s (finished s ! k) =
        Some (bytes (content_of clients h (take (Suc k) (finished s)))))"

lemma content_of_snoc:
  "content_of clients h (is @ [i]) = extend (content_of clients h is) (client_line (clients ! i))"
  by (simp add: content_of_def)

lemma service_inv_start: "inv d \<Longrightarrow> service_inv clients (content d) (service_start d)"
  by (simp add: service_inv_def service_start_def finished_def content_of_def)

text \<open>The conversation of the thread that has the mutex.\<close>

lemma conversation:
  assumes inv: "service_inv clients h s" and busy: "busy s = Some i"
    and ok: "\<forall>c \<in> set clients. client_ok use_char c" and room: "room_for_all clients h"
  shows "\<exists>sent f. connection_handler api use_char (client_env reopen (clients ! i) (disk s))
       (thread_data_ptr (clients ! i)) =
       Some (Inr \<lparr>final_file = Some f, sent_data = sent, log = full_log\<rparr>) \<and>
     inv (dev_of f) \<and>
     content (dev_of f) = content_of clients h (finished s @ [i]) \<and>
     concat sent = bytes (content_of clients h (finished s @ [i]))"
proof -
  let ?c = "clients ! i" and ?d = "reopen (disk s)"
  have srv: "served s = finished s @ [i]" and d: "inv (disk s)"
      "content (disk s) = content_of clients h (finished s)"
    and dom: "distinct (finished s @ [i])" "set (finished s @ [i]) \<subseteq> {..<length clients}"
    using inv busy by (auto simp: service_inv_def)
  from dom(2) have "?c \<in> set clients" by simp
  with ok have c: "client_ok use_char ?c" by blast
  note re = reopen_law [OF d(1)]
  have fit: "length (concat (messages ?c)) \<le> room (content ?d)"
    using room dom re d(2) unfolding room_for_all_def client_line_def by metis
  have "full_sends (send_rc (client_env reopen ?c (disk s)))"
    by (simp add: client_env_def full_sends_def)
  from handler_line_served [of ?d "client_env reopen ?c (disk s)" use_char "messages ?c" "later ?c"
      "thread_data_ptr ?c", OF _ _ _ this] re c fit
  obtain sent f where "connection_handler api use_char (client_env reopen ?c (disk s)) (thread_data_ptr ?c) =
       Some (Inr \<lparr>final_file = Some f, sent_data = sent, log = full_log\<rparr>)" "inv (dev_of f)"
     "content (dev_of f) = extend (content ?d) (concat (messages ?c))"
     "concat sent = drop (if use_char then at ?d else 0) (bytes (extend (content ?d) (concat (messages ?c))))"
    by (auto simp: client_env_def client_ok_def)
  then show ?thesis
    using re d(2) by (auto simp: content_of_snoc client_line_def split: if_splits)
qed

lemma service_step_inv:
  assumes step: "service_step api use_char reopen clients s s'" and inv: "service_inv clients h s"
    and ok: "\<forall>c \<in> set clients. client_ok use_char c" and room: "room_for_all clients h"
  shows "service_inv clients h s' \<and> service_work clients s' < service_work clients s"
  using step
proof cases
  case (lock_file i)
  have "length (served s) < length clients"
  proof -
    have "set (served s) \<subset> {..<length clients}"
      using inv lock_file(4,5) by (auto simp: service_inv_def)
    then have "card (set (served s)) < card {..<length clients}" by (intro psubset_card_mono) simp_all
    then show ?thesis using inv by (simp add: service_inv_def distinct_card)
  qed
  with lock_file inv show ?thesis
    by (auto simp: service_inv_def finished_def service_work_def)
next
  case (converse i out f)
  obtain sent g where c: "connection_handler api use_char (client_env reopen (clients ! i) (disk s))
       (thread_data_ptr (clients ! i)) = Some (Inr \<lparr>final_file = Some g, sent_data = sent, log = full_log\<rparr>)"
      "inv (dev_of g)" "content (dev_of g) = content_of clients h (finished s @ [i])"
      "concat sent = bytes (content_of clients h (finished s @ [i]))"
    using conversation [OF inv converse(2) ok room] by blast
  with converse(3,4) have out: "f = g" "concat (sent_data out) = concat sent" "log out = full_log" by auto
  have srv: "served s = finished s @ [i]" and dist: "distinct (finished s @ [i])"
    using inv converse(2) by (auto simp: service_inv_def)
  have fin: "finished s' = finished s @ [i]" by (simp add: converse(1) finished_def srv)
  have rep: "replies s' = (replies s)(i \<mapsto> concat sent)" by (simp add: converse(1) out)
  have "replies s' (finished s' ! k) = Some (bytes (content_of clients h (take (Suc k) (finished s'))))"
    if "k < length (finished s')" for k
  proof (cases "k < length (finished s)")
    case True
    then have "finished s ! k \<noteq> i" using dist by (auto simp: in_set_conv_nth)
    with True inv show ?thesis
      by (simp add: fin rep nth_append service_inv_def)
  next
    case False
    with that have "k = length (finished s)" by (simp add: fin)
    then show ?thesis by (simp add: fin rep c(4))
  qed
  moreover have "disk s' = dev_of g" "busy s' = None" "served s' = served s" "\<not> file_mutex s'"
    by (simp_all add: converse(1) out full_log_mutex)
  ultimately show ?thesis
    using inv converse(2) c(2,3) fin srv by (simp add: service_inv_def service_work_def)
qed

lemma service_run_inv:
  assumes "(service_step api use_char reopen clients)\<^sup>*\<^sup>* s s'" and "service_inv clients h s"
    and "\<forall>c \<in> set clients. client_ok use_char c" and "room_for_all clients h"
  shows "service_inv clients h s'"
  using assms(1,2) by (induction rule: rtranclp_induct) (use service_step_inv assms(3,4) in \<open>blast+\<close>)

text \<open>A state without a next step has served every client.\<close>

lemma service_progress:
  assumes inv: "service_inv clients h s" and ok: "\<forall>c \<in> set clients. client_ok use_char c"
    and room: "room_for_all clients h" and stuck: "\<nexists>s'. service_step api use_char reopen clients s s'"
  shows "\<not> file_mutex s \<and> busy s = None \<and> set (served s) = {..<length clients}"
proof (cases "busy s")
  case None
  have "\<not> file_mutex s" using inv None by (simp add: service_inv_def)
  then have "i \<in> set (served s)" if "i < length clients" for i
    using stuck service_step.lock_file [OF _ None that] by blast
  with inv None show ?thesis by (auto simp: service_inv_def)
next
  case (Some i)
  with conversation [OF inv Some ok room] stuck show ?thesis
    by (metis service_step.converse [OF Some] outcome.select_convs(1))
qed

text \<open>Every run ends: a client takes the mutex once and converses once.\<close>

lemma service_steps_bound:
  assumes "(service_step api use_char reopen clients ^^ n) s s'" and "service_inv clients h s"
    and "\<forall>c \<in> set clients. client_ok use_char c" and "room_for_all clients h"
  shows "n + service_work clients s' \<le> service_work clients s"
  using assms(1,2)
proof (induction n arbitrary: s)
  case 0
  then show ?case by simp
next
  case (Suc n)
  then obtain t where t: "service_step api use_char reopen clients s t"
      "(service_step api use_char reopen clients ^^ n) t s'"
    by (metis relpowp_Suc_D2)
  from service_step_inv [OF t(1) Suc.prems(2) assms(3,4)] Suc.IH [OF t(2)] show ?case by linarith
qed

end

end
