(* ===== verification/Bounded_Log.thy ===== *)
theory Bounded_Log
  imports Prelude
begin

text \<open>
  The contract between the character driver and its circular buffer: a log that keeps the
  most recent entries up to a capacity and hands back the entry it evicts. The driver's
  history lemmas are proved here once, from the contract alone; the circular buffer
  provides the contract.
\<close>

locale bounded_log =
  fixes add :: "'b \<Rightarrow> 'e \<Rightarrow> 'b"
    and evicted :: "'b \<Rightarrow> 'e option"
    and content :: "'b \<Rightarrow> 'e list"
    and inv :: "'b \<Rightarrow> bool"
    and cap :: nat
  assumes cap_pos: "0 < cap"
    and inv_add: "inv b \<Longrightarrow> inv (add b e)"
    and content_bound: "inv b \<Longrightarrow> length (content b) \<le> cap"
    and content_add: "inv b \<Longrightarrow> content (add b e) = last_n cap (content b @ [e])"
    and evicted_full: "inv b \<Longrightarrow> evicted b =
          (if length (content b) < cap then None else Some (hd (content b)))"
begin

text \<open>Adding a whole sequence of entries.\<close>

lemma inv_fold: "inv b \<Longrightarrow> inv (foldl add b es)"
  by (induction es arbitrary: b) (simp_all add: inv_add)

lemma content_fold: "inv b \<Longrightarrow> content (foldl add b es) = last_n cap (content b @ es)"
proof (induction es arbitrary: b)
  case Nil
  then show ?case by (simp add: content_bound)
next
  case (Cons e es)
  then show ?case
    by (simp add: inv_add content_add last_n_snoc_last_n cap_pos)
qed

text \<open>Nothing is lost: what an addition evicts and what it keeps make up the old content
  with the new entry.\<close>

lemma add_partition:
  assumes "inv b"
  shows "(case evicted b of None \<Rightarrow> [] | Some e' \<Rightarrow> [e']) @ content (add b e) = content b @ [e]"
proof (cases "length (content b) < cap")
  case True
  with assms show ?thesis by (simp add: evicted_full content_add cap_pos last_n_snoc)
next
  case False
  with assms have "length (content b) = cap" using content_bound by fastforce
  then have "content b \<noteq> []" using cap_pos by auto
  with False assms \<open>length (content b) = cap\<close> show ?thesis
    by (simp add: evicted_full content_add cap_pos last_n_snoc)
qed

lemma length_content_add:
  "inv b \<Longrightarrow> length (content (add b e)) = min cap (Suc (length (content b)))"
  by (simp add: content_add)

text \<open>An eviction happens exactly when the log is at its capacity.\<close>

lemma evicts_iff_full: "inv b \<Longrightarrow> evicted b \<noteq> None \<longleftrightarrow> length (content b) = cap"
  using content_bound [of b] by (auto simp: evicted_full)

end

end
