(* ===== verification/Circular_Buffer.thy ===== *)
theory Circular_Buffer
  imports Bounded_Log
begin

text \<open>
  Model of aesd-char-driver/aesd-circular-buffer.c and its header: the fixed array of the
  ten most recent write commands, the two offsets and the full flag; the operations
  init, add_entry and find_entry_offset_for_fpos; the abstraction to the list of stored
  entries, oldest first; the invariant the operations keep.

  The debugging output of the C code (PDEBUG, which the header switches on) is left out where
  it prints numbers. The print of the entry found, which reads through the entry's pointer,
  is an argument of the search: it runs where the code has it, and may fault.
\<close>

section \<open>Data\<close>

abbreviation (input) AESDCHAR_MAX_WRITE_OPERATIONS_SUPPORTED :: nat where
  "AESDCHAR_MAX_WRITE_OPERATIONS_SUPPORTED \<equiv> 10"

record aesd_buffer_entry =
  buffptr :: ptr
  esize :: size_t

record aesd_circular_buffer =
  entry :: "aesd_buffer_entry list"
  in_offs :: u8
  out_offs :: u8
  full :: bool

definition zero_entry :: aesd_buffer_entry where
  "zero_entry = \<lparr>buffptr = NULL, esize = 0\<rparr>"

section \<open>Operations\<close>

text \<open>The memset to zero: ten zero entries, both offsets zero, not full.\<close>

definition aesd_circular_buffer_init :: "aesd_circular_buffer \<Rightarrow> aesd_circular_buffer" where
  "aesd_circular_buffer_init b =
     \<lparr>entry = replicate AESDCHAR_MAX_WRITE_OPERATIONS_SUPPORTED zero_entry,
      in_offs = 0, out_offs = 0, full = False\<rparr>"

text \<open>
  \<open>(offs + 1) % 10\<close>: the 8-bit offset is promoted to \<open>int\<close> before the addition, so the sum
  does not wrap at 256; the remainder fits the 8-bit offset again.
\<close>

definition next_offs :: "u8 \<Rightarrow> u8" where
  "next_offs offs = of_nat ((unat offs + 1) mod AESDCHAR_MAX_WRITE_OPERATIONS_SUPPORTED)"

text \<open>
  The two pointer arguments may be null (\<open>None\<close>). The result is the buffer after the call
  and the returned pointer: the data pointer of the overwritten entry when the buffer was
  full, null otherwise. An \<open>in_offs\<close> outside the array is an out-of-bounds access.
\<close>

definition aesd_circular_buffer_add_entry ::
  "aesd_circular_buffer option \<Rightarrow> aesd_buffer_entry option \<Rightarrow>
   fault + (aesd_circular_buffer option \<times> ptr)" where
  "aesd_circular_buffer_add_entry buffer add_entry =
     (case (buffer, add_entry) of
        (Some b, Some e) \<Rightarrow>
          if length (entry b) \<le> unat (in_offs b) then Inl OutOfBounds
          else
            let old_ptr = (if full b then buffptr (entry b ! unat (in_offs b)) else NULL);
                b1 = b\<lparr>entry := (entry b)[unat (in_offs b) := e]\<rparr>;
                b2 = b1\<lparr>in_offs := next_offs (in_offs b1)\<rparr>;
                b3 = (if full b2 then b2\<lparr>out_offs := next_offs (out_offs b2)\<rparr> else b2);
                b4 = (if in_offs b3 = 0 then b3\<lparr>full := True\<rparr> else b3)
            in Inr (Some b4, old_ptr)
      | _ \<Rightarrow> Inr (buffer, NULL))"

text \<open>
  The search loop. \<open>composed_length\<close> is a 32-bit \<open>int\<close>: adding a \<open>size_t\<close> converts it to
  64 bits (with its sign), and the sum is truncated back to 32 bits; the comparison with
  the \<open>size_t\<close> offset converts it once more. \<open>print_str\<close> is the PDEBUG of the string of the
  entry found.
\<close>

function find_loop ::
  "(aesd_buffer_entry \<Rightarrow> fault + unit) \<Rightarrow> aesd_circular_buffer \<Rightarrow> size_t \<Rightarrow> nat \<Rightarrow> u32 \<Rightarrow>
   fault + (nat \<times> size_t) option" where
  "find_loop print_str b char_offset i composed_length =
     (if i < AESDCHAR_MAX_WRITE_OPERATIONS_SUPPORTED then
        let buff_idx = (unat (out_offs b) + i) mod AESDCHAR_MAX_WRITE_OPERATIONS_SUPPORTED;
            sz = esize (entry b ! buff_idx);
            composed = (ucast (scast composed_length + sz) :: u32)
        in if char_offset < (scast composed :: size_t)
           then and_then (print_str (entry b ! buff_idx))
                  (\<lambda>_. Inr (Some (buff_idx, char_offset - (scast composed - sz))))
           else find_loop print_str b char_offset (Suc i) composed
      else Inr None)"
  by pat_completeness auto
termination
  by (relation "measure (\<lambda>(pr, b, p, i, c). 10 - i)") auto

declare find_loop.simps [simp del]

text \<open>
  The result is the index of the entry found (the C code returns its address; null is
  \<open>None\<close>) and the value stored at \<open>entry_offset_byte_rtn\<close>, which is written only when the
  offset is found.
\<close>

definition aesd_circular_buffer_find_entry_offset_for_fpos ::
  "(aesd_buffer_entry \<Rightarrow> fault + unit) \<Rightarrow> aesd_circular_buffer option \<Rightarrow> size_t \<Rightarrow> size_t option \<Rightarrow>
   fault + nat option \<times> size_t option" where
  "aesd_circular_buffer_find_entry_offset_for_fpos print_str buffer char_offset entry_offset_byte_rtn =
     (case (buffer, entry_offset_byte_rtn) of
        (Some b, Some _) \<Rightarrow>
          and_then (find_loop print_str b char_offset 0 0)
            (\<lambda>found. case found of
               Some (buff_idx, off) \<Rightarrow> Inr (Some buff_idx, Some off)
             | None \<Rightarrow> Inr (None, entry_offset_byte_rtn))
      | _ \<Rightarrow> Inr (None, entry_offset_byte_rtn))"

lemma index_succ: "unat (index :: u8) < 10 \<Longrightarrow> unat (index + 1) = Suc (unat index)"
  by (simp add: unat_word_ariths)

text \<open>
  The loop AESD_CIRCULAR_BUFFER_FOREACH, with an 8-bit index: the body may change the element
  at the index and a heap \<open>h\<close>, and may fault.
\<close>

function foreach_entry ::
  "(aesd_buffer_entry \<Rightarrow> 'h \<Rightarrow> 'e + aesd_buffer_entry \<times> 'h) \<Rightarrow> u8 \<Rightarrow> aesd_circular_buffer \<Rightarrow> 'h \<Rightarrow>
   'e + aesd_circular_buffer \<times> 'h" where
  "foreach_entry body index b h =
     (if unat index < AESDCHAR_MAX_WRITE_OPERATIONS_SUPPORTED then
        and_then (body (entry b ! unat index) h)
          (\<lambda>(e, h'). foreach_entry body (index + 1) (b\<lparr>entry := (entry b)[unat index := e]\<rparr>) h')
      else Inr (b, h))"
  by pat_completeness auto

termination
  by (relation "measure (\<lambda>(body, index, b, h). 10 - unat index)") (auto simp: index_succ)

declare foreach_entry.simps [simp del]

text \<open>The reference: the body on every element of a list, in order.\<close>

fun visit_entries ::
  "(aesd_buffer_entry \<Rightarrow> 'h \<Rightarrow> 'e + aesd_buffer_entry \<times> 'h) \<Rightarrow> aesd_buffer_entry list \<Rightarrow> 'h \<Rightarrow>
   'e + aesd_buffer_entry list \<times> 'h" where
  "visit_entries body [] h = Inr ([], h)"
| "visit_entries body (e # es) h =
     and_then (body e h)
       (\<lambda>(e', h'). and_then (visit_entries body es h') (\<lambda>(es', h''). Inr (e' # es', h'')))"

lemma foreach_entry_from:
  assumes "length (entry b) = 10" and "unat index \<le> 10"
  shows "foreach_entry body index b h =
    and_then (visit_entries body (drop (unat index) (entry b)) h)
      (\<lambda>(es, h'). Inr (b\<lparr>entry := take (unat index) (entry b) @ es\<rparr>, h'))"
  using assms
proof (induction body index b h rule: foreach_entry.induct)
  case (1 body index b h)
  show ?case
  proof (cases "unat index < 10")
    case False
    with 1(2,3) show ?thesis by (simp add: foreach_entry.simps)
  next
    case True
    let ?i = "unat index"
    have drop: "drop ?i (entry b) = entry b ! ?i # drop (Suc ?i) (entry b)"
      using True 1(2) by (simp add: Cons_nth_drop_Suc)
    show ?thesis
    proof (cases "body (entry b ! ?i) h")
      case (Inl x)
      with True show ?thesis by (simp add: foreach_entry.simps [of body index] drop)
    next
      case (Inr eh)
      obtain e h' where eh: "eh = (e, h')" by fastforce
      let ?b = "b\<lparr>entry := (entry b)[?i := e]\<rparr>"
      have before: "take (Suc ?i) ((entry b)[?i := e]) = take ?i (entry b) @ [e]"
        using True 1(2) by (simp add: take_Suc_conv_app_nth)
      have "foreach_entry body (index + 1) ?b h' =
          and_then (visit_entries body (drop (Suc ?i) (entry b)) h')
            (\<lambda>(es, h''). Inr (b\<lparr>entry := take ?i (entry b) @ e # es\<rparr>, h''))"
        using 1(1) [of e h'] True 1(2) before by (simp add: index_succ)
      with True Inr eh show ?thesis
        by (simp add: foreach_entry.simps [of body index] drop and_then_assoc case_prod_unfold
            del: and_then_eq_Inr)
    qed
  qed
qed

lemma foreach_entry_all:
  "length (entry b) = 10 \<Longrightarrow> foreach_entry body 0 b h =
     and_then (visit_entries body (entry b) h) (\<lambda>(es, h'). Inr (b\<lparr>entry := es\<rparr>, h'))"
  using foreach_entry_from [of b 0 body h] by simp

section \<open>Abstraction and invariant\<close>

definition stored_count :: "aesd_circular_buffer \<Rightarrow> nat" where
  "stored_count b = (if full b then 10 else unat (in_offs b))"

text \<open>The position in the array of the \<open>j\<close>-th oldest entry, and the entries in order.\<close>

definition slot :: "aesd_circular_buffer \<Rightarrow> nat \<Rightarrow> nat" where
  "slot b j = (unat (out_offs b) + j) mod 10"

definition stored :: "aesd_circular_buffer \<Rightarrow> aesd_buffer_entry list" where
  "stored b = map (\<lambda>j. entry b ! slot b j) [0..<stored_count b]"

text \<open>
  The invariant: the array has its ten elements; the oldest entry is at index 0 until the
  buffer has filled up once, and at the insertion point from then on; unused entries are
  zero.
\<close>

definition cb_inv :: "aesd_circular_buffer \<Rightarrow> bool" where
  "cb_inv b \<longleftrightarrow> length (entry b) = 10 \<and> unat (in_offs b) < 10 \<and>
     (if full b then out_offs b = in_offs b
      else out_offs b = 0 \<and> (\<forall>i. unat (in_offs b) \<le> i \<longrightarrow> i < 10 \<longrightarrow> entry b ! i = zero_entry))"

lemma cb_inv_init [simp]: "cb_inv (aesd_circular_buffer_init b)"
  by (simp add: cb_inv_def aesd_circular_buffer_init_def)

lemma stored_init [simp]: "stored (aesd_circular_buffer_init b) = []"
  by (simp add: stored_def stored_count_def aesd_circular_buffer_init_def)

lemma length_stored [simp]: "length (stored b) = stored_count b"
  by (simp add: stored_def)

lemma stored_count_le: "cb_inv b \<Longrightarrow> stored_count b \<le> 10"
  by (simp add: cb_inv_def stored_count_def)

lemma out_offs_lt: "cb_inv b \<Longrightarrow> unat (out_offs b) < 10"
  by (auto simp: cb_inv_def split: if_splits)

lemma slot_lt [simp]: "slot b j < 10"
  by (simp add: slot_def)

lemma stored_nth: "j < stored_count b \<Longrightarrow> stored b ! j = entry b ! slot b j"
  by (simp add: stored_def)

lemma slot_inj: "slot b i = slot b j \<Longrightarrow> i < 10 \<Longrightarrow> j < 10 \<Longrightarrow> i = j"
  using mod_add_inj [of i j 10 "unat (out_offs b)"] mod_add_inj [of j i 10 "unat (out_offs b)"]
  by (cases "i \<le> j") (auto simp: slot_def)

section \<open>Adding an entry\<close>

lemma unat_next_offs [simp]: "unat (next_offs offs) = Suc (unat offs) mod 10"
  by (simp add: next_offs_def unat_of_nat take_bit_nat_eq_self)

lemma next_offs_eq_0_iff: "next_offs offs = 0 \<longleftrightarrow> Suc (unat offs) mod 10 = 0"
  using unat_next_offs [of offs] by (metis unat_eq_zero)

text \<open>The buffer after a call, and the entry the call overwrites.\<close>

definition cb_push :: "aesd_circular_buffer \<Rightarrow> aesd_buffer_entry \<Rightarrow> aesd_circular_buffer" where
  "cb_push b e =
     (case aesd_circular_buffer_add_entry (Some b) (Some e) of
        Inr (Some b', _) \<Rightarrow> b' | _ \<Rightarrow> b)"

definition cb_evicted :: "aesd_circular_buffer \<Rightarrow> aesd_buffer_entry option" where
  "cb_evicted b = (if full b then Some (entry b ! unat (in_offs b)) else None)"

lemma add_entry_push:
  assumes "cb_inv b"
  shows "aesd_circular_buffer_add_entry (Some b) (Some e) =
     Inr (Some (cb_push b e), case cb_evicted b of None \<Rightarrow> NULL | Some e' \<Rightarrow> buffptr e')"
  using assms
  by (simp add: aesd_circular_buffer_add_entry_def cb_push_def cb_evicted_def cb_inv_def Let_def)

lemma push_full:
  assumes "cb_inv b" and "full b"
  shows "cb_push b e = b\<lparr>entry := (entry b)[unat (in_offs b) := e],
     in_offs := next_offs (in_offs b), out_offs := next_offs (out_offs b)\<rparr>"
  using assms
  by (cases b) (simp add: cb_push_def aesd_circular_buffer_add_entry_def cb_inv_def Let_def)

lemma push_not_full:
  assumes "cb_inv b" and "\<not> full b"
  shows "cb_push b e = b\<lparr>entry := (entry b)[unat (in_offs b) := e],
     in_offs := next_offs (in_offs b), full := (unat (in_offs b) = 9)\<rparr>"
proof -
  from assms(1) have "unat (in_offs b) < 10" by (simp add: cb_inv_def)
  then have "next_offs (in_offs b) = 0 \<longleftrightarrow> unat (in_offs b) = 9"
    by (cases "unat (in_offs b) = 9") (simp_all add: next_offs_eq_0_iff)
  with assms show ?thesis
    by (cases b) (simp add: cb_push_def aesd_circular_buffer_add_entry_def cb_inv_def Let_def)
qed

lemma cb_inv_push:
  assumes "cb_inv b"
  shows "cb_inv (cb_push b e)"
proof (cases "full b")
  case True
  with assms show ?thesis by (simp add: push_full cb_inv_def)
next
  case False
  let ?k = "unat (in_offs b)"
  from assms False have k: "?k < 10" and len: "length (entry b) = 10" and out: "out_offs b = 0"
    and zeros: "\<And>i. ?k \<le> i \<Longrightarrow> i < 10 \<Longrightarrow> entry b ! i = zero_entry"
    by (auto simp: cb_inv_def)
  show ?thesis
  proof (cases "?k = 9")
    case True
    then have "next_offs (in_offs b) = 0" by (simp add: next_offs_eq_0_iff)
    with assms False True out len show ?thesis by (simp add: push_not_full cb_inv_def)
  next
    case ne: False
    with k have "Suc ?k mod 10 = Suc ?k" by simp
    with assms False ne k len out zeros show ?thesis
      by (auto simp: push_not_full cb_inv_def nth_list_update)
  qed
qed

lemma stored_not_full:
  assumes "cb_inv b" and "\<not> full b"
  shows "stored b = take (unat (in_offs b)) (entry b)"
  using assms
  by (auto simp: stored_def stored_count_def slot_def cb_inv_def intro!: nth_equalityI)

lemma stored_push_full:
  assumes inv: "cb_inv b" and full: "full b"
  shows "stored (cb_push b e) = tl (stored b) @ [e]"
proof (rule nth_equalityI)
  let ?k = "unat (in_offs b)"
  from inv full have k: "?k < 10" and len: "length (entry b) = 10" and out: "out_offs b = in_offs b"
    by (auto simp: cb_inv_def)
  have count: "stored_count (cb_push b e) = 10" "stored_count b = 10"
    and e': "entry (cb_push b e) = (entry b)[?k := e]"
    using inv full by (simp_all add: push_full stored_count_def)
  then show "length (stored (cb_push b e)) = length (tl (stored b) @ [e])" by simp
  fix j assume "j < length (stored (cb_push b e))"
  then have j: "j < 10" by (simp add: count)
  have slot': "slot (cb_push b e) j = (?k + Suc j) mod 10"
    using inv full out by (simp add: push_full slot_def mod_Suc_add del: add_Suc_right One_nat_def)
  show "stored (cb_push b e) ! j = (tl (stored b) @ [e]) ! j"
  proof (cases "j = 9")
    case True
    then have "slot (cb_push b e) j = ?k" using slot' k by simp
    then show ?thesis using True k len by (simp add: stored_nth count e' nth_append)
  next
    case False
    with j have "Suc j < 10" by simp
    then have "(?k + Suc j) mod 10 \<noteq> ?k"
      using mod_add_inj [of 0 "Suc j" 10 ?k] k by auto
    with False j slot' out show ?thesis
      by (simp add: stored_nth count e' nth_append nth_tl slot_def)
  qed
qed

lemma stored_push_not_full:
  assumes inv: "cb_inv b" and nf: "\<not> full b"
  shows "stored (cb_push b e) = stored b @ [e]"
proof -
  let ?k = "unat (in_offs b)" and ?b' = "cb_push b e"
  from inv nf have k: "?k < 10" and len: "length (entry b) = 10" and out: "out_offs b = 0"
    by (auto simp: cb_inv_def)
  have e': "entry ?b' = (entry b)[?k := e]" using inv nf by (simp add: push_not_full)
  have "stored_count ?b' = Suc ?k"
    using inv nf k by (simp add: push_not_full stored_count_def)
  moreover have "slot ?b' j = j" if "j < 10" for j
    using inv nf out that by (simp add: push_not_full slot_def)
  ultimately have "stored ?b' = take (Suc ?k) ((entry b)[?k := e])"
    using k len by (auto simp: stored_def e' simp del: upt_Suc intro!: nth_equalityI)
  also have "\<dots> = take ?k (entry b) @ [e]"
    using k len by (simp add: take_Suc_conv_app_nth)
  finally show ?thesis using inv nf by (simp add: stored_not_full)
qed

lemma full_iff_count: "cb_inv b \<Longrightarrow> full b \<longleftrightarrow> stored_count b = 10"
  by (simp add: cb_inv_def stored_count_def)

lemma stored_push: "cb_inv b \<Longrightarrow> stored (cb_push b e) = last_n 10 (stored b @ [e])"
  using stored_count_le [of b]
  by (cases "full b")
     (simp_all add: stored_push_full stored_push_not_full last_n_snoc full_iff_count)

lemma evicted_hd: "cb_inv b \<Longrightarrow> full b \<Longrightarrow> entry b ! unat (in_offs b) = hd (stored b)"
  by (simp add: hd_conv_nth stored_nth stored_count_def slot_def cb_inv_def
      flip: length_greater_0_conv)

section \<open>The buffer provides the bounded-log contract\<close>

interpretation cb: bounded_log cb_push cb_evicted stored cb_inv 10
proof
  fix b e
  assume inv: "cb_inv b"
  show "cb_inv (cb_push b e)" using inv by (rule cb_inv_push)
  show "length (stored b) \<le> 10" using inv by (simp add: stored_count_le)
  show "stored (cb_push b e) = last_n 10 (stored b @ [e])" using inv by (rule stored_push)
  show "cb_evicted b = (if length (stored b) < 10 then None else Some (hd (stored b)))"
    using inv stored_count_le [OF inv] by (auto simp: cb_evicted_def evicted_hd full_iff_count)
qed simp

section \<open>Finding the entry of a file position\<close>

text \<open>The sizes of the stored entries, as natural numbers, and their sum.\<close>

definition stored_sizes :: "aesd_circular_buffer \<Rightarrow> nat list" where
  "stored_sizes b = map (unat \<circ> esize) (stored b)"

definition slot_size :: "aesd_circular_buffer \<Rightarrow> nat \<Rightarrow> nat" where
  "slot_size b i = unat (esize (entry b ! slot b i))"

text \<open>Scanning all ten array elements sees the stored entries followed by zero sizes.\<close>

lemma slot_sizes:
  assumes "cb_inv b"
  shows "map (slot_size b) [0..<10] = stored_sizes b @ replicate (10 - stored_count b) 0"
proof (rule nth_equalityI)
  show "length (map (slot_size b) [0..<10]) =
      length (stored_sizes b @ replicate (10 - stored_count b) 0)"
    using stored_count_le [OF assms] by (simp add: stored_sizes_def)
  fix i assume "i < length (map (slot_size b) [0..<10])"
  then have i: "i < 10" by simp
  show "map (slot_size b) [0..<10] ! i = (stored_sizes b @ replicate (10 - stored_count b) 0) ! i"
  proof (cases "i < stored_count b")
    case True
    with i show ?thesis
      by (simp add: stored_sizes_def nth_append slot_size_def stored_nth del: upt_Suc)
  next
    case False
    with i assms have "\<not> full b" by (auto simp: full_iff_count)
    with False i assms have "slot b i = i" "entry b ! i = zero_entry"
      by (auto simp: cb_inv_def slot_def stored_count_def)
    with False i show ?thesis
      by (simp add: stored_sizes_def nth_append slot_size_def zero_entry_def del: upt_Suc)
  qed
qed

text \<open>One round of the loop, while the accumulator stays below 2^31.\<close>

lemma find_loop_round:
  assumes i: "i < 10" and T': "T + slot_size b i < 2 ^ 31" and "T \<le> unat off"
  shows "find_loop pr b off i (of_nat T) =
     (if unat off < T + slot_size b i
      then and_then (pr (entry b ! slot b i)) (\<lambda>_. Inr (Some (slot b i, of_nat (unat off - T))))
      else find_loop pr b off (Suc i) (of_nat (T + slot_size b i)))"
proof -
  let ?sz = "esize (entry b ! slot b i)" and ?T' = "T + slot_size b i"
  have acc: "(ucast (scast (of_nat T :: u32) + ?sz) :: u32) = of_nat ?T'"
    using T' int_accumulate [of T ?sz] by (simp add: slot_size_def)
  have sz: "of_nat ?T' - ?sz = of_nat T"
    by (simp add: slot_size_def)
  have "unat (of_nat ?T' :: size_t) = ?T'" using T' by (intro unat_of_nat_lt) simp
  then have less: "off < of_nat ?T' \<longleftrightarrow> unat off < ?T'" by (simp only: word_less_nat_alt)
  have diff: "off - of_nat T = of_nat (unat off - T)" using assms(3) by (simp add: of_nat_diff)
  show ?thesis
    using i
    by (subst find_loop.simps)
       (simp only: slot_def [symmetric] Let_def acc scast_of_nat_small [OF T'] sz if_True less diff)
qed

lemma find_loop_locate:
  assumes "T + sum_list (map (slot_size b) [i..<10]) < 2 ^ 31" and "T \<le> unat off"
  shows "find_loop pr b off i (of_nat T) =
     (case locate (map (slot_size b) [i..<10]) (unat off - T) of
        None \<Rightarrow> Inr None
      | Some (j, k) \<Rightarrow> and_then (pr (entry b ! slot b (i + j))) (\<lambda>_. Inr (Some (slot b (i + j), of_nat k))))"
  using assms
proof (induction "10 - i" arbitrary: i T)
  case 0
  then show ?case by (simp add: find_loop.simps)
next
  case (Suc n)
  let ?T' = "T + slot_size b i"
  from Suc.hyps(2) have i: "i < 10" by simp
  then have upt: "[i..<10] = i # [Suc i..<10]" by (simp add: upt_rec)
  with Suc.prems have bound: "?T' + sum_list (map (slot_size b) [Suc i..<10]) < 2 ^ 31"
    by (simp del: upt_Suc)
  then have "?T' < 2 ^ 31" by linarith
  note step = find_loop_round [OF i this Suc.prems(2), of pr]
  show ?case
  proof (cases "unat off < ?T'")
    case True
    then show ?thesis using Suc.prems(2) by (simp add: step upt less_diff_conv2 add.commute del: upt_Suc)
  next
    case False
    then have "find_loop pr b off (Suc i) (of_nat ?T') =
        (case locate (map (slot_size b) [Suc i..<10]) (unat off - ?T') of
           None \<Rightarrow> Inr None
         | Some (j, k) \<Rightarrow> and_then (pr (entry b ! slot b (Suc i + j)))
             (\<lambda>_. Inr (Some (slot b (Suc i + j), of_nat k))))"
      using Suc.hyps bound by (intro Suc.hyps(1)) simp_all
    with False Suc.prems(2) show ?thesis
      by (simp add: step upt diff_diff_left less_diff_conv2 add.commute del: upt_Suc of_nat_add split: option.split)
  qed
qed

text \<open>Under the bound that keeps the \<open>int\<close> accumulator from overflowing, the search is the
  location of the offset in the stored entries.\<close>

lemma locate_stored:
  "locate (stored_sizes b) p = Some (j, k) \<Longrightarrow> entry b ! slot b j = stored b ! j"
  by (auto simp: locate_Some_iff stored_sizes_def stored_nth)

lemma find_locate:
  assumes inv: "cb_inv b" and bound: "sum_list (stored_sizes b) < 2 ^ 31"
  shows "aesd_circular_buffer_find_entry_offset_for_fpos pr (Some b) off (Some r) =
     (case locate (stored_sizes b) (unat off) of
        None \<Rightarrow> Inr (None, Some r)
      | Some (j, k) \<Rightarrow> and_then (pr (stored b ! j)) (\<lambda>_. Inr (Some (slot b j), Some (of_nat k))))"
proof -
  have "find_loop pr b off 0 0 =
      (case locate (stored_sizes b) (unat off) of
         None \<Rightarrow> Inr None
       | Some (j, k) \<Rightarrow> and_then (pr (entry b ! slot b j)) (\<lambda>_. Inr (Some (slot b j, of_nat k))))"
    using find_loop_locate [of 0 b 0 off pr] bound
    by (simp add: slot_sizes [OF inv] locate_append_zeros sum_list_replicate del: upt_Suc split: option.split)
  then show ?thesis
    by (auto simp: aesd_circular_buffer_find_entry_offset_for_fpos_def and_then_assoc
        dest: locate_stored simp del: and_then_eq_Inr split: option.splits)
qed

text \<open>Where the sizes sum to 2^31 or more, the search stops at the entry that crosses the bound,
  whatever the position.\<close>

lemma sum_slots:
  assumes "cb_inv b" and "i \<le> stored_count b"
  shows "sum_list (map (slot_size b) [0..<i]) = sum_list (take i (stored_sizes b))"
proof -
  have "map (slot_size b) [0..<i] = take i (map (slot_size b) [0..<10])"
    using stored_count_le [OF assms(1)] assms(2) by (simp add: take_map del: upt_Suc)
  also have "\<dots> = take i (stored_sizes b)"
    using assms(2) by (simp add: slot_sizes [OF assms(1)] stored_sizes_def)
  finally show ?thesis by simp
qed

lemma find_loop_skip:
  assumes "sum_list (map (slot_size b) [0..<i]) < 2 ^ 31" and "i \<le> 10"
    and "sum_list (map (slot_size b) [0..<i]) \<le> unat off"
  shows "find_loop pr b off 0 0 = find_loop pr b off i (of_nat (sum_list (map (slot_size b) [0..<i])))"
  using assms
proof (induction i)
  case (Suc i)
  let ?T = "sum_list (map (slot_size b) [0..<i])"
  have "find_loop pr b off i (of_nat ?T) = find_loop pr b off (Suc i) (of_nat (?T + slot_size b i))"
    using find_loop_round [of i ?T b off pr] Suc.prems by simp
  with Suc show ?case by simp
qed simp

lemma find_overflow:
  assumes inv: "cb_inv b" and j: "j < stored_count b"
  defines "S \<equiv> sum_list (take j (stored_sizes b))" and "n \<equiv> unat (esize (stored b ! j))"
  assumes S: "S < 2 ^ 31" and over: "2 ^ 31 \<le> S + n" "S + n < 2 ^ 32"
    and off: "S \<le> unat off" "unat off < 2 ^ 62"
  shows "aesd_circular_buffer_find_entry_offset_for_fpos pr (Some b) off (Some r) =
     and_then (pr (stored b ! j)) (\<lambda>_. Inr (Some (slot b j), Some (of_nat (unat off - S + 2 ^ 32))))"
proof -
  have j10: "j < 10" using stored_count_le [OF inv] j by simp
  have sum: "sum_list (map (slot_size b) [0..<j]) = S"
    using sum_slots [OF inv, of j] j by (simp add: S_def)
  have e: "entry b ! slot b j = stored b ! j" using j by (simp add: stored_nth)
  let ?sz = "esize (stored b ! j)" and ?C = "S + n + 2 ^ 64 - 2 ^ 32"
  have acc: "(ucast (scast (of_nat S :: u32) + ?sz) :: u32) = of_nat (S + n)"
    using int_accumulate [OF S, of ?sz] by (simp add: n_def)
  have neg: "(scast (of_nat (S + n) :: u32) :: size_t) = of_nat ?C"
    by (rule scast_of_nat_negative [OF over])
  have "unat (of_nat ?C :: size_t) = ?C" using over(2) by (intro unat_of_nat_lt) simp
  then have less: "off < of_nat ?C" using off(2) by (simp add: word_less_nat_alt)
  have C: "(of_nat ?C :: size_t) = of_nat S + ?sz - 2 ^ 32"
  proof -
    have "(of_nat ?C :: size_t) = of_nat S + of_nat n + 2 ^ 64 - 2 ^ 32" using over by simp
    moreover have "(2 ^ 64 :: size_t) = 0" by simp
    ultimately show ?thesis by (simp only: add_0_right) (simp add: n_def)
  qed
  have "off - (of_nat ?C - ?sz) = of_nat (unat off - S + 2 ^ 32)"
    unfolding C using off(1) by (simp add: of_nat_diff)
  moreover have "find_loop pr b off 0 0 = find_loop pr b off j (of_nat S)"
    using find_loop_skip [of b j off pr] sum S off(1) j10 by simp
  ultimately have "find_loop pr b off 0 0 =
      and_then (pr (stored b ! j)) (\<lambda>_. Inr (Some (slot b j, of_nat (unat off - S + 2 ^ 32))))"
    using j10 less
    by (subst (asm) (2) find_loop.simps) (simp only: slot_def [symmetric] Let_def acc neg e if_True)
  then show ?thesis
    by (simp add: aesd_circular_buffer_find_entry_offset_for_fpos_def and_then_assoc del: and_then_eq_Inr)
qed

end
