(* ===== verification/Char_Driver.thy ===== *)
theory Char_Driver
  imports Circular_Buffer Kernel_Interface
begin

text \<open>
  Model of the file operations open, release, read and write of aesd-char-driver/main.c,
  over the device structure of aesdchar.h and the kernel heap, with the kernel services as
  a parameter. The abstraction of a device is the list of its complete lines (write
  commands), oldest first, and the pending bytes of an unfinished line; read and write are
  shown to implement that view.
\<close>

section \<open>Data\<close>

text \<open>The error numbers the handlers return (negated) to user space.\<close>

datatype errno = EINVAL | ENODEV | ERESTARTSYS | EFAULT | ENOMEM | ENOTTY

text \<open>
  \<open>struct aesd_dev\<close>; of its mutex the model keeps whether it is held, of its \<open>cdev\<close>
  whether it is registered.
\<close>

record aesd_dev =
  buf_entry :: aesd_buffer_entry
  circular_buf :: aesd_circular_buffer
  mutex_held :: bool
  cdev_live :: bool

text \<open>The module's state: its one device \<open>aesd_device\<close> and the blocks it owns on the heap.\<close>

record world =
  dev :: aesd_dev
  mem :: heap

text \<open>
  The parts of the kernel's \<open>struct inode\<close> and \<open>struct file\<close> the driver uses. A \<open>cdev\<close> is
  embedded in its device structure, so a reference to it identifies the device.
\<close>

type_synonym dev_ref = nat

record inode =
  i_cdev :: dev_ref

record struct_file =
  private_data :: "dev_ref option"
  f_pos :: loff_t

section \<open>Operations\<close>

definition aesd_open :: "inode \<Rightarrow> struct_file \<Rightarrow> int \<times> struct_file" where
  "aesd_open inode filp = (0, filp\<lparr>private_data := Some (i_cdev inode)\<rparr>)"

definition aesd_release :: "inode \<Rightarrow> struct_file \<Rightarrow> int \<times> struct_file" where
  "aesd_release inode filp = (0, filp\<lparr>private_data := None\<rparr>)"

text \<open>Locking and unlocking the device's mutex, and the two checked heap services.\<close>

definition lock_dev :: "kernel \<Rightarrow> world \<Rightarrow> world \<times> int" where
  "lock_dev K w =
     (let (m, rc) = mutex_lock_interruptible K (mutex_held (dev w))
      in (w\<lparr>dev := (dev w)\<lparr>mutex_held := m\<rparr>\<rparr>, rc))"

definition unlock_dev :: "kernel \<Rightarrow> world \<Rightarrow> world" where
  "unlock_dev K w = w\<lparr>dev := (dev w)\<lparr>mutex_held := mutex_unlock K (mutex_held (dev w))\<rparr>\<rparr>"

definition krealloc_checked :: "kernel \<Rightarrow> heap \<Rightarrow> ptr \<Rightarrow> size_t \<Rightarrow> fault + heap \<times> ptr" where
  "krealloc_checked K h p n =
     (if p \<noteq> NULL \<and> h p = None then Inl UseAfterFree else Inr (krealloc K h p n))"

definition kfree_checked :: "kernel \<Rightarrow> heap \<Rightarrow> ptr \<Rightarrow> fault + heap" where
  "kfree_checked K h p =
     (if p = NULL then Inr h else if h p = None then Inl UseAfterFree else Inr (kfree K h p))"

text \<open>
  The debugging print of the search, PDEBUG("entry str: %s", ...): the format reads from the
  entry's pointer up to the first zero byte, so a block without one is read past its end. A
  null pointer prints as a constant.
\<close>

definition print_entry_str :: "kernel \<Rightarrow> heap \<Rightarrow> aesd_buffer_entry \<Rightarrow> fault + unit" where
  "print_entry_str K h e =
     (if buffptr e = NULL then Inr ()
      else and_then (heap_block h (buffptr e))
        (\<lambda>bs. if 0 \<in> set bs \<or> \<not> checks_reads K then Inr () else Inl OutOfBounds))"

text \<open>
  The part of \<open>aesd_read\<close> between lock and unlock: the value returned, the user's buffer,
  the file position, the state.
\<close>

definition aesd_read_locked ::
  "kernel \<Rightarrow> byte list \<Rightarrow> size_t \<Rightarrow> loff_t \<Rightarrow> world \<Rightarrow>
   fault + (errno + size_t) \<times> byte list \<times> loff_t \<times> world" where
  "aesd_read_locked K ubuf count pos w =
     (let cb = circular_buf (dev w) in
      and_then (aesd_circular_buffer_find_entry_offset_for_fpos (print_entry_str K (mem w)) (Some cb) pos (Some 0))
        (\<lambda>found. case found of
           (Some idx, Some entry_offset) \<Rightarrow>
             let e = entry cb ! idx;
                 avail = esize e - entry_offset;
                 bytes_read = (if count < avail then count else avail)
             in and_then (heap_slice (mem w) (buffptr e) (unat entry_offset) (unat bytes_read))
                  (\<lambda>src.
                     let (ubuf', retval) = copy_to_user K ubuf src
                     in if retval \<noteq> 0 then Inr (Inl EFAULT, ubuf', pos, w)
                        else Inr (Inr bytes_read, ubuf', pos + bytes_read, w))
         | _ \<Rightarrow> Inr (Inr 0, ubuf, pos, w)))"

definition aesd_read ::
  "kernel \<Rightarrow> struct_file option \<Rightarrow> byte list option \<Rightarrow> size_t \<Rightarrow> loff_t \<Rightarrow> world \<Rightarrow>
   fault + (errno + size_t) \<times> byte list option \<times> loff_t \<times> world" where
  "aesd_read K filp buf count pos w =
     (case (filp, buf) of
        (Some fp, Some ubuf) \<Rightarrow>
          (case private_data fp of
             None \<Rightarrow> Inr (Inl ENODEV, buf, pos, w)
           | Some _ \<Rightarrow>
               let (w1, rc) = lock_dev K w in
               if rc \<noteq> 0 then Inr (Inl ERESTARTSYS, buf, pos, w1)
               else and_then (aesd_read_locked K ubuf count pos w1)
                      (\<lambda>(retval, ubuf', pos', w2). Inr (retval, Some ubuf', pos', unlock_dev K w2)))
      | _ \<Rightarrow> Inr (Inl EINVAL, buf, pos, w))"

text \<open>
  The part of \<open>aesd_write\<close> between lock and unlock. The result of \<open>krealloc\<close> replaces the
  pending pointer before it is checked; the size is updated only after the copy; the byte
  examined for the newline is the last one of the whole pending line.
\<close>

definition finish_line :: "kernel \<Rightarrow> world \<Rightarrow> fault + world" where
  "finish_line K w =
     and_then (aesd_circular_buffer_add_entry (Some (circular_buf (dev w))) (Some (buf_entry (dev w))))
       (\<lambda>(cb, free_buffer_ptr).
          and_then (kfree_checked K (mem w) free_buffer_ptr)
            (\<lambda>h. Inr (w\<lparr>dev := (dev w)\<lparr>circular_buf := the cb, buf_entry := zero_entry\<rparr>,
                        mem := h\<rparr>)))"

text \<open>The end of \<open>aesd_write\<close>, once the bytes are in place and the size is updated.\<close>

definition write_commit :: "kernel \<Rightarrow> size_t \<Rightarrow> world \<Rightarrow> fault + (errno + size_t) \<times> world" where
  "write_commit K count w =
     (let e = buf_entry (dev w) in
      and_then (heap_load (mem w) (buffptr e) (unat (esize e - 1)))
        (\<lambda>c. if c = newline then and_then (finish_line K w) (\<lambda>w'. Inr (Inr count, w'))
             else Inr (Inr count, w)))"

definition aesd_write_locked ::
  "kernel \<Rightarrow> byte list \<Rightarrow> size_t \<Rightarrow> world \<Rightarrow> fault + (errno + size_t) \<times> world" where
  "aesd_write_locked K ubuf count w =
     (let e = buf_entry (dev w); new_entry_size = esize e + count in
      and_then (krealloc_checked K (mem w) (buffptr e) new_entry_size)
        (\<lambda>(h1, q).
           let w1 = w\<lparr>dev := (dev w)\<lparr>buf_entry := e\<lparr>buffptr := q\<rparr>\<rparr>, mem := h1\<rparr> in
           if q = NULL then Inr (Inl ENOMEM, w1)
           else
             and_then (heap_slice h1 q (unat (esize e)) (unat count))
               (\<lambda>dst.
                  let (dst', retval) = copy_from_user K dst ubuf;
                      w2 = w1\<lparr>mem := heap_write h1 q (unat (esize e)) dst'\<rparr>
                  in if retval \<noteq> 0 then Inr (Inl EFAULT, w2)
                     else
                       write_commit K count
                         (w2\<lparr>dev := (dev w2)\<lparr>buf_entry := \<lparr>buffptr = q, esize = esize e + count\<rparr>\<rparr>\<rparr>))))"

definition aesd_write ::
  "kernel \<Rightarrow> struct_file option \<Rightarrow> byte list option \<Rightarrow> size_t \<Rightarrow> loff_t \<Rightarrow> world \<Rightarrow>
   fault + (errno + size_t) \<times> loff_t \<times> world" where
  "aesd_write K filp buf count pos w =
     (case (filp, buf) of
        (Some fp, Some ubuf) \<Rightarrow>
          (case private_data fp of
             None \<Rightarrow> Inr (Inl ENODEV, pos, w)
           | Some _ \<Rightarrow>
               let (w1, rc) = lock_dev K w in
               if rc \<noteq> 0 then Inr (Inl ERESTARTSYS, pos, w1)
               else and_then (aesd_write_locked K ubuf count w1)
                      (\<lambda>(retval, w2). Inr (retval, pos, unlock_dev K w2)))
      | _ \<Rightarrow> Inr (Inl EINVAL, pos, w))"

section \<open>Invariant and abstraction\<close>

text \<open>
  A stored entry owns a block that holds exactly its bytes: at least one, the last a
  newline. The pending entry owns a block at least as long as its size, or none when it is
  empty. No block belongs to two entries, and the device's heap holds no other block.
\<close>

definition entry_ok :: "nat \<Rightarrow> heap \<Rightarrow> aesd_buffer_entry \<Rightarrow> bool" where
  "entry_ok limit h e \<longleftrightarrow>
     buffptr e \<noteq> NULL \<and>
     (case h (buffptr e) of
        None \<Rightarrow> False
      | Some bs \<Rightarrow> length bs = unat (esize e) \<and> length bs \<le> limit \<and> bs \<noteq> [] \<and> last bs = newline)"

definition pending_ok :: "nat \<Rightarrow> heap \<Rightarrow> aesd_buffer_entry \<Rightarrow> bool" where
  "pending_ok limit h e \<longleftrightarrow>
     (if buffptr e = NULL then esize e = 0
      else case h (buffptr e) of
        None \<Rightarrow> False
      | Some bs \<Rightarrow> unat (esize e) \<le> length bs \<and> length bs \<le> limit)"

definition owned :: "world \<Rightarrow> ptr list" where
  "owned w =
     map buffptr (stored (circular_buf (dev w))) @
     (if buffptr (buf_entry (dev w)) = NULL then [] else [buffptr (buf_entry (dev w))])"

definition dev_inv :: "kernel \<Rightarrow> world \<Rightarrow> bool" where
  "dev_inv K w \<longleftrightarrow>
     cb_inv (circular_buf (dev w)) \<and>
     (\<forall>e \<in> set (stored (circular_buf (dev w))). entry_ok (kmalloc_max K) (mem w) e) \<and>
     pending_ok (kmalloc_max K) (mem w) (buf_entry (dev w)) \<and>
     distinct (owned w) \<and> dom (mem w) = set (owned w)"

text \<open>
  What is left of the invariant when a reallocation has failed: some blocks \<open>L\<close> of the heap
  belong to no entry any more, and the pending entry may have a size but no block.
\<close>

definition pending_wf :: "nat \<Rightarrow> heap \<Rightarrow> aesd_buffer_entry \<Rightarrow> bool" where
  "pending_wf limit h e \<longleftrightarrow>
     unat (esize e) \<le> limit \<and>
     (buffptr e = NULL \<or>
       (case h (buffptr e) of
          None \<Rightarrow> False
        | Some bs \<Rightarrow> unat (esize e) \<le> length bs \<and> length bs \<le> limit))"

definition dev_wf :: "ptr set \<Rightarrow> kernel \<Rightarrow> world \<Rightarrow> bool" where
  "dev_wf L K w \<longleftrightarrow>
     cb_inv (circular_buf (dev w)) \<and>
     (\<forall>e \<in> set (stored (circular_buf (dev w))). entry_ok (kmalloc_max K) (mem w) e) \<and>
     pending_wf (kmalloc_max K) (mem w) (buf_entry (dev w)) \<and>
     distinct (owned w) \<and> dom (mem w) = set (owned w) \<union> L \<and> set (owned w) \<inter> L = {} \<and> NULL \<notin> L"

definition has_pending_block :: "world \<Rightarrow> bool" where
  "has_pending_block w \<longleftrightarrow> (buffptr (buf_entry (dev w)) = NULL \<longrightarrow> esize (buf_entry (dev w)) = 0)"

record device_view =
  complete :: "byte list list"
  pending :: "byte list"

definition entry_bytes :: "heap \<Rightarrow> aesd_buffer_entry \<Rightarrow> byte list" where
  "entry_bytes h e = (case h (buffptr e) of None \<Rightarrow> [] | Some bs \<Rightarrow> take (unat (esize e)) bs)"

definition view :: "world \<Rightarrow> device_view" where
  "view w =
     \<lparr>complete = map (entry_bytes (mem w)) (stored (circular_buf (dev w))),
      pending = entry_bytes (mem w) (buf_entry (dev w))\<rparr>"

text \<open>What a write does to the view, and the bytes a read can see.\<close>

definition view_write :: "device_view \<Rightarrow> byte list \<Rightarrow> device_view" where
  "view_write v data =
     (let line = pending v @ data in
      if line \<noteq> [] \<and> last line = newline
      then \<lparr>complete = last_n 10 (complete v @ [line]), pending = []\<rparr>
      else v\<lparr>pending := line\<rparr>)"

definition contents :: "device_view \<Rightarrow> byte list" where
  "contents v = concat (complete v)"

text \<open>One read returns what is left of the line the position is in, up to \<open>count\<close> bytes.\<close>

definition view_read :: "device_view \<Rightarrow> nat \<Rightarrow> nat \<Rightarrow> byte list" where
  "view_read v pos count =
     (case locate (map length (complete v)) pos of
        None \<Rightarrow> []
      | Some (j, off) \<Rightarrow> take count (drop off (complete v ! j)))"

section \<open>Reading\<close>

lemma entry_okD:
  assumes "entry_ok limit h e"
  obtains bs where "buffptr e \<noteq> NULL" and "h (buffptr e) = Some bs" and "length bs = unat (esize e)"
    and "length bs \<le> limit" and "bs \<noteq> []" and "last bs = newline" and "entry_bytes h e = bs"
  using assms by (auto simp: entry_ok_def entry_bytes_def split: option.splits)

lemma dev_invD:
  assumes "dev_inv K w"
  shows "cb_inv (circular_buf (dev w))"
    and "e \<in> set (stored (circular_buf (dev w))) \<Longrightarrow> entry_ok (kmalloc_max K) (mem w) e"
    and "pending_ok (kmalloc_max K) (mem w) (buf_entry (dev w))"
    and "distinct (owned w)" and "dom (mem w) = set (owned w)"
  using assms by (simp_all add: dev_inv_def)

lemma dev_wfD:
  assumes "dev_wf L K w"
  shows "cb_inv (circular_buf (dev w))"
    and "e \<in> set (stored (circular_buf (dev w))) \<Longrightarrow> entry_ok (kmalloc_max K) (mem w) e"
    and "pending_wf (kmalloc_max K) (mem w) (buf_entry (dev w))"
    and "distinct (owned w)" and "dom (mem w) = set (owned w) \<union> L"
    and "set (owned w) \<inter> L = {}" and "NULL \<notin> L"
  using assms by (simp_all add: dev_wf_def)

lemma pending_ok_wf:
  "pending_ok limit h e \<longleftrightarrow> pending_wf limit h e \<and> (buffptr e = NULL \<longrightarrow> esize e = 0)"
  by (auto simp: pending_ok_def pending_wf_def split: option.splits)

lemma dev_inv_wfD: "dev_inv K w \<Longrightarrow> dev_wf {} K w"
  by (simp add: dev_inv_def dev_wf_def pending_ok_wf)

lemma dev_inv_wf: "dev_inv K w \<longleftrightarrow> dev_wf {} K w \<and> has_pending_block w"
  by (auto simp: dev_inv_def dev_wf_def has_pending_block_def pending_ok_wf)

lemma complete_view: "complete (view w) = map (entry_bytes (mem w)) (stored (circular_buf (dev w)))"
  by (simp add: view_def)

lemma pending_view: "pending (view w) = entry_bytes (mem w) (buf_entry (dev w))"
  by (simp add: view_def)

lemma view_sizes:
  assumes "dev_wf L K w"
  shows "map length (complete (view w)) = stored_sizes (circular_buf (dev w))"
  using dev_wfD(2) [OF assms]
  by (auto simp: complete_view stored_sizes_def elim!: entry_okD)

lemma stored_sizes_bound:
  assumes inv: "dev_wf L K w" and limit: "kmalloc_limit_ok K"
  shows "sum_list (stored_sizes (circular_buf (dev w))) < 2 ^ 31"
proof -
  let ?ss = "stored_sizes (circular_buf (dev w))"
  have "s \<le> kmalloc_max K" if "s \<in> set ?ss" for s
    using that by (auto simp: stored_sizes_def dest!: dev_wfD(2) [OF inv] elim!: entry_okD)
  then have "sum_list ?ss \<le> length ?ss * kmalloc_max K"
    by (rule sum_list_le_mult)
  also have "\<dots> \<le> 10 * kmalloc_max K"
    using stored_count_le [OF dev_wfD(1) [OF inv]] by (simp add: stored_sizes_def)
  finally show ?thesis using limit by (simp add: kmalloc_limit_ok_def)
qed

text \<open>When the print traps: the position falls into a line without a zero byte.\<close>

definition print_traps :: "kernel \<Rightarrow> device_view \<Rightarrow> loff_t \<Rightarrow> bool" where
  "print_traps K v pos \<longleftrightarrow> checks_reads K \<and>
     (case locate (map length (complete v)) (unat pos) of
        None \<Rightarrow> False
      | Some (j, k) \<Rightarrow> 0 \<notin> set (complete v ! j))"

lemma print_traps_unchecked [simp]: "\<not> checks_reads K \<Longrightarrow> \<not> print_traps K v pos"
  by (simp add: print_traps_def)

text \<open>The part of a read under the lock, as a function of the view.\<close>

lemma read_locked_view:
  assumes inv: "dev_wf L K w" and limit: "kmalloc_limit_ok K"
  shows "aesd_read_locked K ubuf count pos w =
     (if print_traps K (view w) pos then Inl OutOfBounds
      else if length (contents (view w)) \<le> unat pos then Inr (Inr 0, ubuf, pos, w)
      else
        let data = view_read (view w) (unat pos) (unat count);
            (ubuf', r) = copy_to_user K ubuf data
        in Inr (if r \<noteq> 0 then (Inl EFAULT, ubuf', pos, w)
                else (Inr (of_nat (length data)), ubuf', pos + of_nat (length data), w)))"
proof -
  let ?cb = "circular_buf (dev w)" and ?lens = "map length (complete (view w))"
  note find = find_locate [OF dev_wfD(1) [OF inv] stored_sizes_bound [OF inv limit],
      of "print_entry_str K (mem w)" pos 0, folded view_sizes [OF inv]]
  show ?thesis
  proof (cases "locate ?lens (unat pos)")
    case None
    then have "length (contents (view w)) \<le> unat pos"
      by (simp add: locate_None_iff contents_def length_concat)
    with None find show ?thesis by (simp add: aesd_read_locked_def print_traps_def Let_def)
  next
    case (Some jk)
    then obtain j k where jk: "locate ?lens (unat pos) = Some (j, k)" by (cases jk) auto
    then have j: "j < length (stored ?cb)" and k: "k < length (complete (view w) ! j)"
      by (auto simp: locate_Some_iff complete_view)
    let ?e = "stored ?cb ! j"
    from j have "?e \<in> set (stored ?cb)" by (rule nth_mem)
    then obtain bs where bs: "buffptr ?e \<noteq> NULL" "mem w (buffptr ?e) = Some bs"
        "length bs = unat (esize ?e)" and view_j: "complete (view w) ! j = bs"
      using dev_wfD(2) [OF inv] j by (metis entry_okD complete_view nth_map)
    with k have k': "k < unat (esize ?e)" by simp
    then have avail: "unat (esize ?e - of_nat k) = unat (esize ?e) - k" and uk: "unat (of_nat k :: size_t) = k"
      using unat_bound [of "esize ?e"] by (simp_all add: no_wrap)
    let ?n = "if count < esize ?e - of_nat k then count else esize ?e - of_nat k"
    have n: "unat ?n = min (unat count) (unat (esize ?e) - k)"
      using avail by (auto simp: word_less_nat_alt)
    then have slice: "heap_slice (mem w) (buffptr ?e) (unat (of_nat k :: size_t)) (unat ?n) =
        Inr (take (unat count) (drop k bs))"
      using bs k' by (simp add: heap_slice_in_bounds uk min_def)
    have len: "?n = of_nat (length (take (unat count) (drop k bs)))"
      using n bs(3) by (simp add: min.commute flip: n)
    have "print_entry_str K (mem w) ?e = (if print_traps K (view w) pos then Inl OutOfBounds else Inr ())"
      using bs by (auto simp: print_entry_str_def print_traps_def heap_block_def jk view_j)
    moreover have "entry ?cb ! slot ?cb j = ?e" using j by (simp add: stored_nth)
    moreover have "\<not> length (contents (view w)) \<le> unat pos"
      using concat_nonempty_at [OF jk] by (simp add: contents_def)
    moreover have "view_read (view w) (unat pos) (unat count) = take (unat count) (drop k bs)"
      by (simp add: view_read_def jk view_j)
    ultimately show ?thesis
      using find jk slice len
      by (simp add: aesd_read_locked_def Let_def case_prod_unfold)
  qed
qed

section \<open>Writing\<close>

lemma pending_wfD:
  assumes "pending_wf limit h e"
  shows "unat (esize e) \<le> limit"
    and "buffptr e \<noteq> NULL \<Longrightarrow> \<exists>bs. h (buffptr e) = Some bs \<and> unat (esize e) \<le> length bs \<and> length bs \<le> limit"
  using assms by (auto simp: pending_wf_def split: option.splits)

lemma stored_ptr_mem:
  assumes "dev_wf L K w" and "e \<in> set (stored (circular_buf (dev w)))"
  shows "buffptr e \<noteq> NULL" and "\<exists>bs. mem w (buffptr e) = Some bs"
  using dev_wfD(2) [OF assms] by (auto elim!: entry_okD)

lemma null_not_mapped:
  assumes "dev_wf L K w"
  shows "mem w NULL = None"
proof -
  have "NULL \<notin> set (owned w)"
    by (auto simp: owned_def dest: stored_ptr_mem(1) [OF assms])
  then have "NULL \<notin> dom (mem w)" using dev_wfD(5,7) [OF assms] by simp
  then show ?thesis by (simp add: dom_def)
qed

text \<open>Only the blocks the entries point to matter to the entries.\<close>

lemma entries_frame:
  assumes "\<And>e. e \<in> set es \<Longrightarrow> h' (buffptr e) = h (buffptr e)"
  shows "(\<forall>e \<in> set es. entry_ok limit h' e) = (\<forall>e \<in> set es. entry_ok limit h e)"
    and "map (entry_bytes h') es = map (entry_bytes h) es"
  using assms by (simp_all add: entry_ok_def entry_bytes_def)

text \<open>Replacing the pending entry by one with a block of its own.\<close>

lemma replace_pending:
  assumes inv: "dev_wf L K w"
    and same: "\<And>e. e \<in> set (stored (circular_buf (dev w))) \<Longrightarrow> h' (buffptr e) = mem w (buffptr e)"
    and q: "q \<noteq> NULL" "q \<notin> buffptr ` set (stored (circular_buf (dev w)))"
    and blk: "h' q = Some bs" "unat n \<le> length bs" "length bs \<le> kmalloc_max K"
    and dom: "dom h' = insert q (buffptr ` set (stored (circular_buf (dev w)))) \<union> L" "q \<notin> L"
    and w': "circular_buf (dev w') = circular_buf (dev w)" "mem w' = h'"
      "buffptr (buf_entry (dev w')) = q" "esize (buf_entry (dev w')) = n"
  shows "dev_wf L K w'" and "has_pending_block w'" and "view w' = (view w)\<lparr>pending := take (unat n) bs\<rparr>"
proof -
  note frame = entries_frame [of "stored (circular_buf (dev w))" h' "mem w", OF same]
  have "distinct (map buffptr (stored (circular_buf (dev w))))" "buffptr ` set (stored (circular_buf (dev w))) \<inter> L = {}"
    using dev_wfD(4,6) [OF inv] by (auto simp: owned_def)
  with assms frame show "dev_wf L K w'"
    by (auto simp: dev_wf_def pending_wf_def owned_def)
  show "has_pending_block w'" using q w' by (simp add: has_pending_block_def)
  show "view w' = (view w)\<lparr>pending := take (unat n) bs\<rparr>"
    using blk w' frame(2) by (simp add: view_def entry_bytes_def)
qed

text \<open>What the reallocation leaves of the heap.\<close>

lemma grow_pending:
  assumes inv: "dev_wf L K w" and kr: "krealloc_ok K"
    and res: "krealloc K (mem w) (buffptr (buf_entry (dev w))) n = (h1, q)" and q: "q \<noteq> NULL"
    and size: "unat (esize (buf_entry (dev w))) \<le> unat n"
  obtains bs where "h1 q = Some bs" and "length bs = unat n" and "unat n \<le> kmalloc_max K"
    and "has_pending_block w \<Longrightarrow> take (unat (esize (buf_entry (dev w)))) bs = pending (view w)"
    and "\<And>e. e \<in> set (stored (circular_buf (dev w))) \<Longrightarrow> h1 (buffptr e) = mem w (buffptr e)"
    and "q \<notin> buffptr ` set (stored (circular_buf (dev w)))"
    and "dom h1 = insert q (buffptr ` set (stored (circular_buf (dev w)))) \<union> L" and "q \<notin> L"
proof -
  let ?e = "buf_entry (dev w)" and ?es = "stored (circular_buf (dev w))"
  note pok = pending_wfD [OF dev_wfD(3) [OF inv]]
  have pre: "buffptr ?e = NULL \<or> mem w (buffptr ?e) \<noteq> None" using pok by auto
  obtain bs where h1: "h1 = ((mem w)(buffptr ?e := None))(q \<mapsto> bs)" and len: "length bs = unat n"
    and lim: "unat n \<le> kmalloc_max K" and fresh: "q = buffptr ?e \<or> mem w q = None"
    and keep: "\<And>old. mem w (buffptr ?e) = Some old \<Longrightarrow> take (length old) bs = take (unat n) old"
    using krealloc_block [OF kr null_not_mapped [OF inv] pre res q] by blast
  have notin: "buffptr ?e \<notin> buffptr ` set ?es"
    using dev_wfD(4) [OF inv] stored_ptr_mem(1) [OF inv]
    by (cases "buffptr ?e = NULL") (fastforce simp: owned_def)+
  then have qnotin: "q \<notin> buffptr ` set ?es"
    using fresh stored_ptr_mem(2) [OF inv] by (metis (no_types, lifting) imageE option.distinct(1))
  have "take (unat (esize ?e)) bs = pending (view w)" if "has_pending_block w"
  proof (cases "buffptr ?e = NULL")
    case True
    with that [unfolded has_pending_block_def] show ?thesis by (simp add: pending_view entry_bytes_def null_not_mapped [OF inv])
  next
    case False
    with pok(2) obtain old where old: "mem w (buffptr ?e) = Some old" "unat (esize ?e) \<le> length old"
      by blast
    then have "take (unat (esize ?e)) (take (length old) bs) = take (unat (esize ?e)) (take (unat n) old)"
      using keep by simp
    with old size show ?thesis by (simp add: pending_view entry_bytes_def min_def)
  qed
  moreover have eL: "buffptr ?e \<notin> L"
    using dev_wfD(6,7) [OF inv] by (auto simp: owned_def split: if_splits)
  moreover have "q \<notin> L"
    using fresh eL dev_wfD(5) [OF inv] by (auto simp: domIff)
  moreover have "dom h1 = insert q (buffptr ` set ?es) \<union> L"
    using dev_wfD(5) [OF inv] notin h1 null_not_mapped [OF inv] eL
    by (auto simp: owned_def split: if_splits)
  moreover have "h1 (buffptr e) = mem w (buffptr e)" if "e \<in> set ?es" for e
  proof -
    from that have "buffptr e \<in> buffptr ` set ?es" by simp
    with notin qnotin have "buffptr e \<noteq> buffptr ?e" "buffptr e \<noteq> q" by auto
    then show ?thesis by (simp add: h1)
  qed
  ultimately show thesis using that h1 len lim qnotin by simp
qed

text \<open>Moving a finished line into the circular buffer and freeing the evicted one.\<close>

lemma finish_line_view:
  assumes inv: "dev_wf L K w" and kf: "kfree_ok K"
    and e: "buffptr (buf_entry (dev w)) \<noteq> NULL" "mem w (buffptr (buf_entry (dev w))) = Some line"
      "length line = unat (esize (buf_entry (dev w)))" "line \<noteq> []" "last line = newline"
  shows "\<exists>w'. finish_line K w = Inr w' \<and> dev_wf L K w' \<and> has_pending_block w' \<and>
     view w' = \<lparr>complete = last_n 10 (complete (view w) @ [line]), pending = []\<rparr> \<and>
     mutex_held (dev w') = mutex_held (dev w)"
proof -
  let ?cb = "circular_buf (dev w)" and ?e = "buf_entry (dev w)"
  let ?es = "stored ?cb" and ?es' = "stored (cb_push ?cb ?e)"
  note cbi = dev_wfD(1) [OF inv]
  define ev where "ev = (case cb_evicted ?cb of None \<Rightarrow> [] | Some e' \<Rightarrow> [e'])"
  define old where "old = (case cb_evicted ?cb of None \<Rightarrow> NULL | Some e' \<Rightarrow> buffptr e')"
  have part: "ev @ ?es' = ?es @ [?e]" unfolding ev_def by (rule cb.add_partition [OF cbi])
  have "length line \<le> kmalloc_max K"
    using pending_wfD(2) [OF dev_wfD(3) [OF inv] e(1)] e(2) by simp
  with e have ok_e: "entry_ok (kmalloc_max K) (mem w) ?e" by (simp add: entry_ok_def)
  have ok: "entry_ok (kmalloc_max K) (mem w) x" if "x \<in> set ev \<union> set ?es'" for x
  proof -
    from that have "x \<in> set (ev @ ?es')" by simp
    then show ?thesis using ok_e dev_wfD(2) [OF inv] unfolding part by auto
  qed
  have own: "owned w = map buffptr ev @ map buffptr ?es'"
    using e(1) arg_cong [OF part, of "map buffptr"] by (simp add: owned_def)
  have dist: "distinct (map buffptr ?es')" using dev_wfD(4) [OF inv] by (simp add: own)
  define h' where "h' = (mem w)(old := None)"
  have oldev: "set (map buffptr ev) - {NULL} = {old} - {NULL}"
    by (auto simp: ev_def old_def split: option.splits)
  have free: "kfree_checked K (mem w) old = Inr h'"
  proof (cases "cb_evicted ?cb")
    case None
    then show ?thesis
      using null_not_mapped [OF inv] by (simp add: old_def kfree_checked_def h'_def fun_upd_idem)
  next
    case (Some e')
    then have "entry_ok (kmalloc_max K) (mem w) e'" and "old = buffptr e'"
      using ok by (simp_all add: ev_def old_def)
    then show ?thesis using kf
      by (auto simp: kfree_checked_def h'_def kfree_ok_def elim!: entry_okD)
  qed
  have same: "h' (buffptr x) = mem w (buffptr x)" if "x \<in> set ?es'" for x
  proof -
    have "buffptr x \<notin> set (map buffptr ev)" "buffptr x \<noteq> NULL"
      using that dev_wfD(4) [OF inv] ok by (auto simp: own elim!: entry_okD)
    then have "buffptr x \<noteq> old" using oldev by auto
    then show ?thesis by (simp add: h'_def)
  qed
  have domh: "dom h' = buffptr ` set ?es' \<union> L"
  proof -
    have "NULL \<notin> dom (mem w)" using null_not_mapped [OF inv] by (simp add: dom_def)
    then have "dom h' = dom (mem w) - set (map buffptr ev)" unfolding h'_def dom_fun_upd
      using oldev by auto
    also have "\<dots> = buffptr ` set ?es' \<union> L"
      using dev_wfD(4,5,6) [OF inv] by (auto simp: own)
    finally show ?thesis .
  qed
  define w' where
    "w' = w\<lparr>dev := (dev w)\<lparr>circular_buf := cb_push ?cb ?e, buf_entry := zero_entry\<rparr>, mem := h'\<rparr>"
  have "finish_line K w = Inr w'"
    by (simp add: finish_line_def add_entry_push [OF cbi] flip: old_def add: free w'_def)
  moreover have "buffptr ` set ?es' \<inter> L = {}" using dev_wfD(6) [OF inv] by (auto simp: own)
  then have "dev_wf L K w'"
    using cb.inv_add [OF cbi] ok dist entries_frame(1) [of ?es' h' "mem w", OF same] dev_wfD(7) [OF inv]
    by (simp add: dev_wf_def w'_def pending_wf_def zero_entry_def owned_def domh)
  moreover have "has_pending_block w'" by (simp add: w'_def has_pending_block_def zero_entry_def)
  moreover have "entry_bytes (mem w) ?e = line" using e by (simp add: entry_bytes_def)
  then have "view w' = \<lparr>complete = last_n 10 (complete (view w) @ [line]), pending = []\<rparr>"
    using entries_frame(2) [of ?es' h' "mem w", OF same] null_not_mapped [OF inv]
    by (simp add: view_def w'_def cb.content_add [OF cbi] map_last_n)
       (simp add: entry_bytes_def zero_entry_def h'_def)
  moreover have "mutex_held (dev w') = mutex_held (dev w)" by (simp add: w'_def)
  ultimately show ?thesis by blast
qed

text \<open>
  Every outcome of a write with the state it leaves: success appends the bytes to the view;
  a failed copy leaves the view as it was; a failed reallocation leaves the stored entries
  and the heap as they were, but the pending pointer is null while its size stays.
\<close>

definition write_outcome ::
  "kernel \<Rightarrow> byte list \<Rightarrow> size_t \<Rightarrow> world \<Rightarrow> (errno + size_t) \<Rightarrow> world \<Rightarrow> bool" where
  "write_outcome K ubuf count w ret w' \<longleftrightarrow>
     (case ret of
        Inr n \<Rightarrow> n = count \<and> unat count \<le> length ubuf \<and> dev_inv K w' \<and>
          (pending (view w) \<noteq> [] \<or> count \<noteq> 0) \<and>
          view w' = view_write (view w) (take (unat count) ubuf)
      | Inl EFAULT \<Rightarrow> dev_inv K w' \<and> view w' = view w
      | Inl ENOMEM \<Rightarrow> mem w' = mem w \<and> circular_buf (dev w') = circular_buf (dev w) \<and>
          buf_entry (dev w') = (buf_entry (dev w))\<lparr>buffptr := NULL\<rparr>
      | _ \<Rightarrow> False)"

text \<open>
  The same for a device that may have lost its pending block: the bytes that precede the
  written ones are the first ones of the block \<open>krealloc\<close> gives: the pending line, if its
  block is still there, and otherwise as many bytes as it had, whatever they happen to be.
\<close>

definition pending_prefix :: "kernel \<Rightarrow> size_t \<Rightarrow> world \<Rightarrow> byte list \<Rightarrow> bool" where
  "pending_prefix K count w pre \<longleftrightarrow>
     (let e = buf_entry (dev w) in
      length pre = unat (esize e) \<and> (has_pending_block w \<longrightarrow> pre = pending (view w)) \<and>
      (\<exists>h q bs. krealloc K (mem w) (buffptr e) (esize e + count) = (h, q) \<and> h q = Some bs \<and>
         pre = take (unat (esize e)) bs))"

definition write_outcome_wf ::
  "ptr set \<Rightarrow> kernel \<Rightarrow> byte list \<Rightarrow> size_t \<Rightarrow> world \<Rightarrow> (errno + size_t) \<Rightarrow> world \<Rightarrow> bool" where
  "write_outcome_wf L K ubuf count w ret w' \<longleftrightarrow>
     (let e = buf_entry (dev w) in
      if ret = Inl ENOMEM
      then mem w' = mem w \<and> circular_buf (dev w') = circular_buf (dev w) \<and>
           buf_entry (dev w') = e\<lparr>buffptr := NULL\<rparr>
      else dev_wf L K w' \<and> has_pending_block w' \<and>
        (\<exists>pre. pending_prefix K count w pre \<and>
           (if ret = Inl EFAULT then view w' = (view w)\<lparr>pending := pre\<rparr>
            else ret = Inr count \<and> unat count \<le> length ubuf \<and> (esize e \<noteq> 0 \<or> count \<noteq> 0) \<and>
              view w' = view_write ((view w)\<lparr>pending := pre\<rparr>) (take (unat count) ubuf))))"

lemma write_outcome_wf_simps:
  "write_outcome_wf L K ubuf count w (Inl EFAULT) w' \<longleftrightarrow>
     dev_wf L K w' \<and> has_pending_block w' \<and>
     (\<exists>pre. pending_prefix K count w pre \<and> view w' = (view w)\<lparr>pending := pre\<rparr>)"
  "write_outcome_wf L K ubuf count w (Inr n) w' \<longleftrightarrow>
     dev_wf L K w' \<and> has_pending_block w' \<and> n = count \<and> unat count \<le> length ubuf \<and>
     (esize (buf_entry (dev w)) \<noteq> 0 \<or> count \<noteq> 0) \<and>
     (\<exists>pre. pending_prefix K count w pre \<and>
        view w' = view_write ((view w)\<lparr>pending := pre\<rparr>) (take (unat count) ubuf))"
  by (auto simp: write_outcome_wf_def Let_def)

lemma write_outcome_wf_errno:
  "write_outcome_wf L K ubuf count w (Inl e) w' \<Longrightarrow> e = ENOMEM \<or> e = EFAULT"
  by (auto simp: write_outcome_wf_def Let_def split: if_splits)

lemma esize_fits: "dev_wf L K w \<Longrightarrow> unat (esize (buf_entry (dev w))) \<le> kmalloc_max K"
  using pending_wfD(1) dev_wfD(3) by blast

text \<open>
  Committing the bytes: with an empty pending line the byte before the block is read;
  otherwise a line that ends in a newline moves to the circular buffer.
\<close>

definition commit_view :: "device_view \<Rightarrow> device_view" where
  "commit_view v =
     (if last (pending v) = newline
      then \<lparr>complete = last_n 10 (complete v @ [pending v]), pending = []\<rparr> else v)"

lemma write_commit_outcome:
  assumes inv: "dev_wf L K w" and kf: "kfree_ok K"
    and blk: "buffptr (buf_entry (dev w)) \<noteq> NULL" "mem w (buffptr (buf_entry (dev w))) = Some line"
      "length line = unat (esize (buf_entry (dev w)))"
  shows "if line = [] then write_commit K count w = Inl OutOfBounds
     else \<exists>w'. write_commit K count w = Inr (Inr count, w') \<and> dev_wf L K w' \<and> has_pending_block w' \<and>
       view w' = commit_view (view w) \<and> mutex_held (dev w') = mutex_held (dev w)"
proof (cases "line = []")
  case True
  then show ?thesis
    using blk by (simp add: write_commit_def heap_load_def heap_block_def)
next
  case ne: False
  let ?e = "buf_entry (dev w)"
  have pend: "pending (view w) = line" using blk by (simp add: pending_view entry_bytes_def)
  from ne blk(3) have pos: "1 \<le> unat (esize ?e)" by (metis One_nat_def Suc_leI length_greater_0_conv)
  then have "unat (esize ?e - 1) = length line - 1" by (simp add: unat_minus_le blk(3))
  with pos ne blk have load: "heap_load (mem w) (buffptr ?e) (unat (esize ?e - 1)) = Inr (last line)"
    by (simp add: last_conv_nth)
  show ?thesis
  proof (cases "last line = newline")
    case True
    with finish_line_view [OF inv kf blk ne] ne load pend show ?thesis
      by (auto simp: write_commit_def commit_view_def simp del: heap_load_eq_Inr)
  next
    case False
    with ne load pend inv blk(1) show ?thesis
      by (simp add: has_pending_block_def write_commit_def commit_view_def del: heap_load_eq_Inr and_then_eq_Inr)
  qed
qed

text \<open>The copied bytes joined to the pending ones: the state that is committed.\<close>

lemma write_copied:
  assumes inv: "dev_wf L K w" and kr: "krealloc_ok K"
    and res: "krealloc K (mem w) (buffptr (buf_entry (dev w))) (esize (buf_entry (dev w)) + count) = (h1, q)"
    and q: "q \<noteq> NULL"
    and size: "unat (esize (buf_entry (dev w)) + count) = unat (esize (buf_entry (dev w))) + unat count"
  shows "\<exists>pre dst. heap_slice h1 q (unat (esize (buf_entry (dev w)))) (unat count) = Inr dst \<and>
     length dst = unat count \<and> length pre = unat (esize (buf_entry (dev w))) \<and>
     (has_pending_block w \<longrightarrow> pre = pending (view w)) \<and>
     (\<exists>bs. h1 q = Some bs \<and> pre = take (unat (esize (buf_entry (dev w)))) bs) \<and>
     (\<forall>dst' w' n. length dst' = unat count \<longrightarrow>
        mem w' = heap_write h1 q (unat (esize (buf_entry (dev w)))) dst' \<longrightarrow>
        circular_buf (dev w') = circular_buf (dev w) \<longrightarrow> buffptr (buf_entry (dev w')) = q \<longrightarrow>
        esize (buf_entry (dev w')) = n \<longrightarrow> unat n \<le> unat (esize (buf_entry (dev w)) + count) \<longrightarrow>
        dev_wf L K w' \<and> has_pending_block w' \<and> mem w' q = Some (pre @ dst') \<and>
        view w' = (view w)\<lparr>pending := take (unat n) (pre @ dst')\<rparr>)"
proof -
  let ?e = "buf_entry (dev w)" and ?es = "stored (circular_buf (dev w))"
  let ?s = "unat (esize ?e)"
  obtain bs where bs: "h1 q = Some bs" "length bs = unat (esize ?e + count)"
      "unat (esize ?e + count) \<le> kmalloc_max K" "has_pending_block w \<Longrightarrow> take ?s bs = pending (view w)"
    and same: "\<And>e. e \<in> set ?es \<Longrightarrow> h1 (buffptr e) = mem w (buffptr e)"
    and qn: "q \<notin> buffptr ` set ?es" and dom1: "dom h1 = insert q (buffptr ` set ?es) \<union> L" "q \<notin> L"
    using grow_pending [OF inv kr res q] size by (metis le_add1)
  let ?p = "take ?s bs"
  have lpend: "length ?p = ?s" using bs(2) size by simp
  have copied: "dev_wf L K w' \<and> has_pending_block w' \<and> mem w' q = Some (?p @ dst') \<and>
      view w' = (view w)\<lparr>pending := take (unat n) (?p @ dst')\<rparr>"
    if len': "length dst' = unat count" and h2: "mem w' = heap_write h1 q ?s dst'"
      and w': "circular_buf (dev w') = circular_buf (dev w)" "buffptr (buf_entry (dev w')) = q"
        "esize (buf_entry (dev w')) = n" and n: "unat n \<le> unat (esize ?e + count)"
    for dst' w' n
  proof -
    have m: "mem w' = h1(q \<mapsto> ?p @ dst')"
      using bs size len' by (simp add: h2 heap_write_Some)
    have same': "mem w' (buffptr e) = mem w (buffptr e)" if "e \<in> set ?es" for e
      using that qn same [OF that] by (auto simp: m)
    have "dom (mem w') = insert q (buffptr ` set ?es) \<union> L" using dom1 by (auto simp: m)
    from replace_pending [OF inv same' q qn _ _ _ this dom1(2) w'(1) refl w'(2,3)]
    show ?thesis using n bs(3) len' lpend size by (simp add: m)
  qed
  have slice: "heap_slice h1 q ?s (unat count) = Inr (take (unat count) (drop ?s bs))"
    using q bs size by (simp add: heap_slice_in_bounds)
  have len: "length (take (unat count) (drop ?s bs)) = unat count" using bs size by simp
  have all: "\<forall>dst' w' n. length dst' = unat count \<longrightarrow> mem w' = heap_write h1 q ?s dst' \<longrightarrow>
      circular_buf (dev w') = circular_buf (dev w) \<longrightarrow> buffptr (buf_entry (dev w')) = q \<longrightarrow>
      esize (buf_entry (dev w')) = n \<longrightarrow> unat n \<le> unat (esize ?e + count) \<longrightarrow>
      dev_wf L K w' \<and> has_pending_block w' \<and> mem w' q = Some (?p @ dst') \<and>
      view w' = (view w)\<lparr>pending := take (unat n) (?p @ dst')\<rparr>"
    by (intro allI impI) (rule copied)
  show ?thesis
    by (rule exI [of _ ?p], rule exI [of _ "take (unat count) (drop ?s bs)"],
        intro conjI slice len lpend all) (use bs(1,4) in auto)
qed

text \<open>
  All outcomes of the part under the lock. The one that is a fault: a write of no bytes
  with no pending line.
\<close>

lemma view_write_commit:
  "pending v @ data \<noteq> [] \<Longrightarrow> commit_view (v\<lparr>pending := pending v @ data\<rparr>) = view_write v data"
  by (simp add: commit_view_def view_write_def)

lemma write_locked_wf:
  assumes inv: "dev_wf L K w" and kr: "krealloc_ok K" and kf: "kfree_ok K" and lim: "kmalloc_limit_ok K"
    and cfu: "copy_from_user_ok K"
    and count: "unat count < 2 ^ 31"
  shows "(\<exists>ret w'. aesd_write_locked K ubuf count w = Inr (ret, w') \<and>
       write_outcome_wf L K ubuf count w ret w' \<and> mutex_held (dev w') = mutex_held (dev w)) \<or>
     esize (buf_entry (dev w)) = 0 \<and> count = 0 \<and> aesd_write_locked K ubuf count w = Inl OutOfBounds"
proof -
  let ?e = "buf_entry (dev w)" and ?n = "esize (buf_entry (dev w)) + count"
  let ?s = "unat (esize ?e)"
  have n: "unat ?n = ?s + unat count"
    using esize_fits [OF inv] lim count by (intro unat_plus_no_overflow) (simp add: kmalloc_limit_ok_def)
  have mapped: "buffptr ?e = NULL \<or> mem w (buffptr ?e) \<noteq> None"
    using pending_wfD(2) [OF dev_wfD(3) [OF inv]] by auto
  then have chk: "krealloc_checked K (mem w) (buffptr ?e) ?n = Inr (krealloc K (mem w) (buffptr ?e) ?n)"
    by (auto simp: krealloc_checked_def)
  obtain h1 q where res: "krealloc K (mem w) (buffptr ?e) ?n = (h1, q)" by fastforce
  show ?thesis
  proof (cases "q = NULL")
    case True
    then have "h1 = mem w"
      using krealloc_null [OF kr null_not_mapped [OF inv] mapped] res by simp
    with True show ?thesis
      by (simp add: aesd_write_locked_def Let_def chk res write_outcome_wf_def)
  next
    case q: False
    obtain pre dst where slice: "heap_slice h1 q ?s (unat count) = Inr dst" and ldst: "length dst = unat count"
      and pre: "length pre = ?s" "has_pending_block w \<longrightarrow> pre = pending (view w)"
        "\<exists>bs. h1 q = Some bs \<and> pre = take ?s bs"
      and copied: "\<forall>dst' w' n. length dst' = unat count \<longrightarrow> mem w' = heap_write h1 q ?s dst' \<longrightarrow>
         circular_buf (dev w') = circular_buf (dev w) \<longrightarrow> buffptr (buf_entry (dev w')) = q \<longrightarrow>
         esize (buf_entry (dev w')) = n \<longrightarrow> unat n \<le> unat ?n \<longrightarrow>
         dev_wf L K w' \<and> has_pending_block w' \<and> mem w' q = Some (pre @ dst') \<and>
         view w' = (view w)\<lparr>pending := take (unat n) (pre @ dst')\<rparr>"
      using write_copied [OF inv kr res q n] by (elim exE conjE) simp
    have prefix: "pending_prefix K count w pre"
      unfolding pending_prefix_def Let_def using pre res by blast
    obtain dst' r where cp: "copy_from_user K dst ubuf = (dst', r)" by fastforce
    note len' = copy_from_userD(1) [OF cfu cp, unfolded ldst]
    show ?thesis
    proof (cases "r = 0")
      case False
      define w2 where
        "w2 = w\<lparr>dev := (dev w)\<lparr>buf_entry := ?e\<lparr>buffptr := q\<rparr>\<rparr>, mem := heap_write h1 q ?s dst'\<rparr>"
      have "aesd_write_locked K ubuf count w = Inr (Inl EFAULT, w2)"
        using q False by (simp add: aesd_write_locked_def Let_def chk res slice cp w2_def)
      moreover have "dev_wf L K w2 \<and> has_pending_block w2 \<and> view w2 = (view w)\<lparr>pending := pre\<rparr>"
        using copied [rule_format, OF len', of w2 "esize ?e"] n pre(1) by (simp add: w2_def)
      moreover have "mutex_held (dev w2) = mutex_held (dev w)" by (simp add: w2_def)
      ultimately show ?thesis using prefix write_outcome_wf_simps(1) by blast
    next
      case True
      define w3 where "w3 = w\<lparr>mem := heap_write h1 q ?s dst',
          dev := (dev w)\<lparr>buf_entry := \<lparr>buffptr = q, esize = ?n\<rparr>\<rparr>\<rparr>"
      have w3: "dev_wf L K w3 \<and> mem w3 q = Some (pre @ dst') \<and>
          view w3 = (view w)\<lparr>pending := pre @ dst'\<rparr>"
        using copied [rule_format, OF len', of w3 ?n] n pre(1) len' by (simp add: w3_def)
      have whole: "aesd_write_locked K ubuf count w = write_commit K count w3"
        using q True by (simp add: aesd_write_locked_def Let_def chk res slice cp w3_def)
      have ubuf: "unat count \<le> length ubuf" and dst': "dst' = take (unat count) ubuf"
        using copy_from_userD(2) [OF cfu cp True] ldst by simp_all
      have zero: "pre @ dst' = [] \<longleftrightarrow> esize ?e = 0 \<and> count = 0"
        using len' pre(1) by (simp add: unat_eq_zero flip: length_0_conv)
      note commit = write_commit_outcome [of L K w3 "pre @ dst'" count]
      show ?thesis
      proof (cases "pre @ dst' = []")
        case True
        with commit w3 kf q n pre(1) len' whole zero show ?thesis by (simp add: w3_def)
      next
        case False
        with commit w3 kf q n pre(1) len' obtain w' where
          "write_commit K count w3 = Inr (Inr count, w')" "dev_wf L K w'" "has_pending_block w'"
          "view w' = commit_view (view w3)" "mutex_held (dev w') = mutex_held (dev w3)"
          by (auto simp: w3_def)
        moreover have "commit_view (view w3) = view_write ((view w)\<lparr>pending := pre\<rparr>) dst'"
          using view_write_commit [of "(view w)\<lparr>pending := pre\<rparr>" dst'] False w3 by simp
        moreover have "mutex_held (dev w3) = mutex_held (dev w)" by (simp add: w3_def)
        moreover have "esize ?e \<noteq> 0 \<or> count \<noteq> 0" using zero False by blast
        ultimately have "write_outcome_wf L K ubuf count w (Inr count) w' \<and>
            mutex_held (dev w') = mutex_held (dev w)"
          unfolding write_outcome_wf_simps using prefix ubuf dst' by auto
        with \<open>write_commit K count w3 = Inr (Inr count, w')\<close> whole show ?thesis by auto
      qed
    qed
  qed
qed

lemma pending_length:
  assumes "dev_inv K w"
  shows "length (pending (view w)) = unat (esize (buf_entry (dev w)))"
proof -
  have wf: "dev_wf {} K w" and blk: "has_pending_block w" using assms by (simp_all add: dev_inv_wf)
  show ?thesis
    using pending_wfD [OF dev_wfD(3) [OF wf]] null_not_mapped [OF wf] blk
    by (cases "buffptr (buf_entry (dev w)) = NULL")
      (auto simp: pending_view entry_bytes_def has_pending_block_def)
qed

lemma write_locked_outcome:
  assumes inv: "dev_inv K w" and kr: "krealloc_ok K" and kf: "kfree_ok K" and lim: "kmalloc_limit_ok K"
    and cfu: "copy_from_user_ok K"
    and count: "unat count < 2 ^ 31"
  shows "(\<exists>ret w'. aesd_write_locked K ubuf count w = Inr (ret, w') \<and>
       write_outcome K ubuf count w ret w' \<and> mutex_held (dev w') = mutex_held (dev w)) \<or>
     pending (view w) = [] \<and> count = 0 \<and> aesd_write_locked K ubuf count w = Inl OutOfBounds"
proof -
  have wf: "dev_wf {} K w" and blk: "has_pending_block w" using inv by (simp_all add: dev_inv_wf)
  have zero: "esize (buf_entry (dev w)) = 0 \<longleftrightarrow> pending (view w) = []"
    using pending_length [OF inv] by (simp add: unat_eq_zero flip: length_0_conv)
  have pre: "pending_prefix K count w pre \<Longrightarrow> (view w)\<lparr>pending := pre\<rparr> = view w" for pre
    using blk by (simp add: pending_prefix_def Let_def)
  have "write_outcome K ubuf count w ret w'" if out: "write_outcome_wf {} K ubuf count w ret w'" for ret w'
  proof (cases ret)
    case (Inl e)
    consider "e = ENOMEM" | "e = EFAULT" using write_outcome_wf_errno out Inl by blast
    then show ?thesis
    proof cases
      case 1
      with out Inl show ?thesis by (simp add: write_outcome_wf_def write_outcome_def Let_def)
    next
      case 2
      with out Inl show ?thesis
        by (auto simp: write_outcome_wf_simps write_outcome_def dev_inv_wf pre)
    qed
  next
    case (Inr n)
    with out zero show ?thesis
      by (auto simp: write_outcome_wf_simps write_outcome_def dev_inv_wf pre)
  qed
  with write_locked_wf [OF wf kr kf lim cfu count, of ubuf] zero show ?thesis by blast
qed

section \<open>The handlers with their locking\<close>

text \<open>Invariant and view do not depend on the mutex.\<close>

lemma dev_inv_mutex [simp]:
  "dev_inv K (w\<lparr>dev := (dev w)\<lparr>mutex_held := m\<rparr>\<rparr>) = dev_inv K w"
  by (simp add: dev_inv_def owned_def)

lemma dev_wf_mutex [simp]:
  "dev_wf L K (w\<lparr>dev := (dev w)\<lparr>mutex_held := m\<rparr>\<rparr>) = dev_wf L K w"
  by (simp add: dev_wf_def owned_def)

lemma view_mutex [simp]: "view (w\<lparr>dev := (dev w)\<lparr>mutex_held := m\<rparr>\<rparr>) = view w"
  by (simp add: view_def)

lemma lock_devE:
  assumes "mutex_ok K" and "not_interrupted K"
  obtains m where "lock_dev K w = (w\<lparr>dev := (dev w)\<lparr>mutex_held := m\<rparr>\<rparr>, 0)" and "m"
proof -
  obtain m rc where res: "mutex_lock_interruptible K (mutex_held (dev w)) = (m, rc)" by fastforce
  with assms(2) have "rc = 0" by (metis not_interrupted_def snd_conv)
  with assms(1) res have "m" by (metis mutex_ok_def)
  with res \<open>rc = 0\<close> that show thesis by (simp add: lock_dev_def)
qed

lemma unlock_dev_simps [simp]:
  "dev_inv K' (unlock_dev K w) = dev_inv K' w" "view (unlock_dev K w) = view w"
  "mem (unlock_dev K w) = mem w" "circular_buf (dev (unlock_dev K w)) = circular_buf (dev w)"
  "buf_entry (dev (unlock_dev K w)) = buf_entry (dev w)"
  by (simp_all add: unlock_dev_def)

lemma unlock_dev_free: "mutex_ok K \<Longrightarrow> \<not> mutex_held (dev (unlock_dev K w))"
  by (simp add: unlock_dev_def)

lemma write_outcome_frame:
  assumes "write_outcome K ubuf count (w\<lparr>dev := (dev w)\<lparr>mutex_held := m\<rparr>\<rparr>) ret w'"
  shows "write_outcome K ubuf count w ret (unlock_dev K w')"
  using assms by (auto simp: write_outcome_def split: sum.splits errno.splits)

lemma aesd_write_outcome:
  assumes inv: "dev_inv K w" and kr: "krealloc_ok K" "kfree_ok K" "kmalloc_limit_ok K"
    and cfu: "copy_from_user_ok K" and mx: "mutex_ok K" "not_interrupted K"
    and fp: "private_data fp = Some d" and count: "unat count < 2 ^ 31"
  shows "(\<exists>ret w'. aesd_write K (Some fp) (Some ubuf) count pos w = Inr (ret, pos, w') \<and>
       write_outcome K ubuf count w ret w' \<and> \<not> mutex_held (dev w')) \<or>
     pending (view w) = [] \<and> count = 0 \<and>
       aesd_write K (Some fp) (Some ubuf) count pos w = Inl OutOfBounds"
proof -
  obtain m where lock: "lock_dev K w = (w\<lparr>dev := (dev w)\<lparr>mutex_held := m\<rparr>\<rparr>, 0)"
    using lock_devE [OF mx] by blast
  let ?w1 = "w\<lparr>dev := (dev w)\<lparr>mutex_held := m\<rparr>\<rparr>"
  have "dev_inv K ?w1" using inv by simp
  from write_locked_outcome [OF this kr cfu count, of ubuf]
  consider (ret) ret w2 where "aesd_write_locked K ubuf count ?w1 = Inr (ret, w2)"
      "write_outcome K ubuf count ?w1 ret w2"
    | (fault) "pending (view w) = []" "count = 0" "aesd_write_locked K ubuf count ?w1 = Inl OutOfBounds"
    by auto
  then show ?thesis
  proof cases
    case ret
    then show ?thesis
      using write_outcome_frame [OF ret(2)] unlock_dev_free [OF mx(1)]
      by (auto simp: aesd_write_def fp lock)
  next
    case fault
    then show ?thesis by (simp add: aesd_write_def fp lock)
  qed
qed

text \<open>
  Why a write is refused: ENOMEM only because the reallocation was, EFAULT only because the
  copy was. On a machine with memory to spare, whose users pass readable buffers, a write of
  a line within the largest block succeeds.
\<close>

lemma write_commit_no_errno: "write_commit K count w = Inr (ret, w') \<Longrightarrow> ret = Inr count"
  by (auto simp: write_commit_def Let_def split: if_splits)

lemma write_locked_errno:
  assumes "aesd_write_locked K ubuf count w = Inr (Inl e, w')"
  shows "e = ENOMEM \<and>
       snd (krealloc K (mem w) (buffptr (buf_entry (dev w))) (esize (buf_entry (dev w)) + count)) = NULL \<or>
     e = EFAULT \<and> (\<exists>dst. length dst = unat count \<and> snd (copy_from_user K dst ubuf) \<noteq> 0)"
proof -
  let ?e = "buf_entry (dev w)"
  obtain h1 q where kr: "krealloc K (mem w) (buffptr ?e) (esize ?e + count) = (h1, q)" by fastforce
  with assms have chk: "krealloc_checked K (mem w) (buffptr ?e) (esize ?e + count) = Inr (h1, q)"
    by (simp add: aesd_write_locked_def Let_def krealloc_checked_def split: if_splits)
  show ?thesis
  proof (cases "q = NULL")
    case True
    with assms kr chk show ?thesis by (simp add: aesd_write_locked_def Let_def)
  next
    case False
    with assms chk obtain dst where sl: "heap_slice h1 q (unat (esize ?e)) (unat count) = Inr dst"
      by (auto simp: aesd_write_locked_def Let_def)
    then have len: "length dst = unat count" by (auto simp: heap_slice_eq_Inr split: if_splits)
    obtain dst' r where cp: "copy_from_user K dst ubuf = (dst', r)" by fastforce
    from assms chk sl cp False have "r \<noteq> 0 \<and> e = EFAULT"
      by (auto simp: aesd_write_locked_def Let_def split: if_splits dest!: write_commit_no_errno)
    with len cp show ?thesis by (metis snd_conv)
  qed
qed

lemma owned_card:
  assumes "dev_inv K w"
  shows "finite (dom (mem w))" and "card (dom (mem w)) \<le> 11"
proof -
  have "length (owned w) \<le> 11"
    using stored_count_le [OF dev_invD(1) [OF assms]] by (simp add: owned_def)
  then show "finite (dom (mem w))" "card (dom (mem w)) \<le> 11"
    using card_length [of "owned w"] by (simp_all add: dev_invD(5) [OF assms])
qed

lemma aesd_write_accepts:
  assumes inv: "dev_inv K w" and k: "kernel_ok K" "kernel_calm K" "kernel_roomy K"
    and fp: "private_data fp = Some d" and ubuf: "unat count \<le> length ubuf"
    and size: "length (pending (view w)) + unat count \<le> kmalloc_max K"
    and some: "pending (view w) \<noteq> [] \<or> count \<noteq> 0"
  shows "\<exists>w'. aesd_write K (Some fp) (Some ubuf) count pos w = Inr (Inr count, pos, w') \<and>
     dev_inv K w' \<and> view w' = view_write (view w) (take (unat count) ubuf) \<and> \<not> mutex_held (dev w')"
proof -
  let ?e = "buf_entry (dev w)"
  have calm: "user_memory_mapped K" "not_interrupted K" using k(2) by (simp_all add: kernel_calm_def)
  have limit: "10 * kmalloc_max K < 2 ^ 31" using k(1) by (simp add: kernel_ok_def kmalloc_limit_ok_def)
  with size have count: "unat count < 2 ^ 31" by simp
  from aesd_write_outcome [of K w fp d count ubuf pos] inv k(1) calm fp count some
  obtain ret w' where w': "aesd_write K (Some fp) (Some ubuf) count pos w = Inr (ret, pos, w')"
      "write_outcome K ubuf count w ret w'" "\<not> mutex_held (dev w')"
    unfolding kernel_ok_def by blast
  show ?thesis
  proof (cases ret)
    case (Inr n)
    with w' show ?thesis by (auto simp: write_outcome_def)
  next
    case (Inl e)
    obtain m where lock: "lock_dev K w = (w\<lparr>dev := (dev w)\<lparr>mutex_held := m\<rparr>\<rparr>, 0)"
      using lock_devE k(1) calm(2) unfolding kernel_ok_def by metis
    let ?w1 = "w\<lparr>dev := (dev w)\<lparr>mutex_held := m\<rparr>\<rparr>"
    obtain w2 where "aesd_write_locked K ubuf count ?w1 = Inr (Inl e, w2)"
      using w'(1) Inl by (auto simp: aesd_write_def fp lock)
    from write_locked_errno [OF this]
    have "snd (krealloc K (mem w) (buffptr ?e) (esize ?e + count)) = NULL \<or>
        (\<exists>dst. length dst = unat count \<and> snd (copy_from_user K dst ubuf) \<noteq> 0)"
      by auto
    moreover have "\<not> (length dst = unat count \<and> snd (copy_from_user K dst ubuf) \<noteq> 0)" for dst
      using calm(1) ubuf unfolding user_memory_mapped_def by metis
    moreover have "snd (krealloc K (mem w) (buffptr ?e) (esize ?e + count)) \<noteq> NULL"
    proof -
      have "unat (esize ?e + count) = unat (esize ?e) + unat count"
        using size limit by (intro unat_plus_no_overflow) (simp add: pending_length [OF inv])
      then have "unat (esize ?e + count) \<le> kmalloc_max K" using size by (simp add: pending_length [OF inv])
      moreover have "buffptr ?e = NULL \<or> mem w (buffptr ?e) \<noteq> None"
        using pending_wfD(2) [OF dev_wfD(3) [OF dev_inv_wfD [OF inv]]] by auto
      ultimately show ?thesis
        using k(3) owned_card [OF inv] null_not_mapped [OF dev_inv_wfD [OF inv]] unfolding kernel_roomy_def by blast
    qed
    ultimately show ?thesis by blast
  qed
qed

text \<open>A read as a function of the view: data, new position, and the state unchanged but for
  the released mutex.\<close>

lemma aesd_read_wf:
  assumes quiet: "\<not> print_traps K (view w) pos"
    and inv: "dev_wf L K w" and limit: "kmalloc_limit_ok K" and mx: "mutex_ok K" "not_interrupted K"
    and ctu: "copy_to_user_ok K" "user_memory_mapped K"
    and fp: "private_data fp = Some d" and ubuf: "unat count \<le> length ubuf"
  shows "aesd_read K (Some fp) (Some ubuf) count pos w =
       (let data = view_read (view w) (unat pos) (unat count) in
        Inr (Inr (of_nat (length data)), Some (data @ drop (length data) ubuf),
             pos + of_nat (length data), w\<lparr>dev := (dev w)\<lparr>mutex_held := False\<rparr>\<rparr>))"
proof -
  obtain m where lock: "lock_dev K w = (w\<lparr>dev := (dev w)\<lparr>mutex_held := m\<rparr>\<rparr>, 0)"
    using lock_devE [OF mx] by blast
  let ?w1 = "w\<lparr>dev := (dev w)\<lparr>mutex_held := m\<rparr>\<rparr>"
  let ?data = "view_read (view w) (unat pos) (unat count)"
  have len: "length ?data \<le> length ubuf"
    using ubuf by (auto simp: view_read_def split: option.split)
  obtain ub' r where cp: "copy_to_user K ubuf ?data = (ub', r)" by fastforce
  then have "r = 0" using ctu(2) len unfolding user_memory_mapped_def by (metis snd_conv)
  with cp copy_to_userD(2) [OF ctu(1) cp] have cp': "copy_to_user K ubuf ?data = (?data @ drop (length ?data) ubuf, 0)"
    by simp
  have past: "?data = []" if "length (contents (view w)) \<le> unat pos"
    using that locate_None_iff [of "map length (complete (view w))" "unat pos"]
    by (simp add: view_read_def contents_def length_concat)
  have "aesd_read_locked K ubuf count pos ?w1 =
      Inr (Inr (of_nat (length ?data)), ?data @ drop (length ?data) ubuf, pos + of_nat (length ?data), ?w1)"
    using read_locked_view [of L K ?w1 ubuf count pos] inv limit cp' past quiet
    by (auto simp: Let_def)
  moreover have "unlock_dev K ?w1 = w\<lparr>dev := (dev w)\<lparr>mutex_held := False\<rparr>\<rparr>"
    using mx(1) by (simp add: unlock_dev_def)
  ultimately show ?thesis by (simp add: aesd_read_def fp lock Let_def)
qed

text \<open>On a kernel that traps it, the print of the search ends the read.\<close>

lemma aesd_read_traps:
  assumes inv: "dev_wf L K w" and limit: "kmalloc_limit_ok K" and mx: "mutex_ok K" "not_interrupted K"
    and fp: "private_data fp = Some d" and traps: "print_traps K (view w) pos"
  shows "aesd_read K (Some fp) (Some ubuf) count pos w = Inl OutOfBounds"
proof -
  obtain m where lock: "lock_dev K w = (w\<lparr>dev := (dev w)\<lparr>mutex_held := m\<rparr>\<rparr>, 0)"
    using lock_devE [OF mx] by blast
  have "aesd_read_locked K ubuf count pos (w\<lparr>dev := (dev w)\<lparr>mutex_held := m\<rparr>\<rparr>) = Inl OutOfBounds"
    using read_locked_view [of L K "w\<lparr>dev := (dev w)\<lparr>mutex_held := m\<rparr>\<rparr>"] inv limit traps by simp
  with lock fp show ?thesis by (simp add: aesd_read_def)
qed

lemma aesd_read_view:
  assumes free_reads: "\<not> print_traps K (view w) pos"
    and inv: "dev_inv K w" and limit: "kmalloc_limit_ok K" and mx: "mutex_ok K" "not_interrupted K"
    and ctu: "copy_to_user_ok K" "user_memory_mapped K"
    and fp: "private_data fp = Some d" and ubuf: "unat count \<le> length ubuf"
  shows "\<exists>w'. aesd_read K (Some fp) (Some ubuf) count pos w =
       (let data = view_read (view w) (unat pos) (unat count) in
        Inr (Inr (of_nat (length data)), Some (data @ drop (length data) ubuf),
             pos + of_nat (length data), w')) \<and>
     dev_inv K w' \<and> view w' = view w \<and> \<not> mutex_held (dev w') \<and> mem w' = mem w"
  using aesd_read_wf [OF free_reads dev_inv_wfD [OF inv] limit mx ctu fp ubuf] inv
  by (intro exI [of _ "w\<lparr>dev := (dev w)\<lparr>mutex_held := False\<rparr>\<rparr>"]) simp

end
