(* ===== verification/Driver_Seek.thy ===== *)
theory Driver_Seek
  imports Char_Driver
begin

text \<open>
  Model of the positioning operations of aesd-char-driver/main.c: \<open>aesd_llseek\<close>, whose loop
  uses the variable \<open>size\<close> both as the loop index of AESD_CIRCULAR_BUFFER_FOREACH and as the
  accumulator, and \<open>aesd_ioctl\<close>, which seeks to an offset within one of the stored write
  commands. Both loops are modelled as loops that might not end; that they end, and with
  what, is proved.
\<close>

section \<open>aesd_llseek\<close>

text \<open>
  One unfolding of the for loop: the test \<open>size < 10\<close>, the body \<open>size += buf_entry.size\<close>,
  the increment \<open>size++\<close>. \<open>None\<close> means that the loop does not end.
\<close>

partial_function (option) llseek_size :: "size_t \<Rightarrow> loff_t \<Rightarrow> loff_t option" where
  "llseek_size pending_size sz =
     (if sint sz < 10 then llseek_size pending_size (sz + pending_size + 1) else Some sz)"

text \<open>
  The result is the value returned (an error of the driver, or what the kernel's
  \<open>fixed_size_llseek\<close> returns), the file and the state.
\<close>

definition aesd_llseek ::
  "kernel \<Rightarrow> struct_file \<Rightarrow> loff_t \<Rightarrow> u32 \<Rightarrow> world \<Rightarrow>
   ((errno + (int + loff_t)) \<times> struct_file \<times> world) option" where
  "aesd_llseek K filp off whence w =
     (case private_data filp of
        None \<Rightarrow> Some (Inl ENODEV, filp, w)
      | Some _ \<Rightarrow>
          let w1 = w\<lparr>dev := (dev w)\<lparr>mutex_held := mutex_lock K (mutex_held (dev w))\<rparr>\<rparr> in
          Option.bind (llseek_size (esize (buf_entry (dev w1))) 0)
            (\<lambda>sz. let w2 = unlock_dev K w1;
                      (pos, newpos) = fixed_size_llseek K (f_pos filp) off whence sz
                  in Some (Inr newpos, filp\<lparr>f_pos := pos\<rparr>, w2)))"

text \<open>The loop runs in steps of the pending size plus one, up to the first multiple that
  reaches ten.\<close>

lemma sint_of_nat_64: "n < 2 ^ 63 \<Longrightarrow> sint (of_nat n :: 64 word) = int n"
proof -
  assume "n < 2 ^ 63"
  then have "signed_take_bit 63 (int n) = int n"
    by (intro signed_take_bit_int_eq_self) simp_all
  then show ?thesis by (simp add: signed_of_nat)
qed

lemma llseek_size_from:
  assumes "unat inc < 2 ^ 62" and "m < 10 + Suc (unat inc)"
  shows "\<exists>k. llseek_size inc (of_nat m) = Some (of_nat (m + k * Suc (unat inc))) \<and>
     10 \<le> m + k * Suc (unat inc) \<and> (k = 0 \<or> m + (k - 1) * Suc (unat inc) < 10)"
  using assms(2)
proof (induction "10 - m" arbitrary: m rule: less_induct)
  case less
  from assms(1) less.prems have m: "m < 2 ^ 63" by simp
  show ?case
  proof (cases "m < 10")
    case False
    then have "llseek_size inc (of_nat m) = Some (of_nat m)"
      by (simp add: llseek_size.simps sint_of_nat_64 [OF m])
    with False show ?thesis by (intro exI [of _ 0]) simp
  next
    case True
    let ?m' = "m + Suc (unat inc)"
    have "llseek_size inc (of_nat m) = llseek_size inc (of_nat m + inc + 1)"
      using True by (subst llseek_size.simps) (simp add: sint_of_nat_64 [OF m])
    also have "of_nat m + inc + 1 = (of_nat ?m' :: 64 word)" by simp
    finally have step: "llseek_size inc (of_nat m) = llseek_size inc (of_nat ?m')" .
    obtain k where k: "llseek_size inc (of_nat ?m') = Some (of_nat (?m' + k * Suc (unat inc)))"
      "10 \<le> ?m' + k * Suc (unat inc)" "k = 0 \<or> ?m' + (k - 1) * Suc (unat inc) < 10"
      using less.hyps [of ?m'] True by (metis add_less_mono1 diff_less_mono2 less_add_same_cancel1
          zero_less_Suc add.commute)
    have "?m' + k * Suc (unat inc) = m + Suc k * Suc (unat inc)" by simp
    moreover have "m + (Suc k - 1) * Suc (unat inc) < 10"
      using k(3) True by (cases k) (simp_all add: algebra_simps)
    ultimately show ?thesis using step k(1,2) by (intro exI [of _ "Suc k"]) (simp only: simp_thms)
  qed
qed

text \<open>The least multiple of \<open>c\<close> that is at least ten.\<close>

definition least_multiple_from_ten :: "nat \<Rightarrow> nat" where
  "least_multiple_from_ten c = (9 div c + 1) * c"

lemma least_multipleI:
  assumes "0 < c" and "10 \<le> k * c" and "k = 0 \<or> (k - 1) * c < (10 :: nat)"
  shows "k * c = least_multiple_from_ten c"
proof -
  from assms obtain k' where k: "k = Suc k'" by (cases k) auto
  with assms have "k' * c \<le> 9" "9 < Suc k' * c" by simp_all
  then have "9 div c = k'" by (simp add: div_nat_eqI mult.commute)
  with k show ?thesis by (simp add: least_multiple_from_ten_def)
qed

lemma llseek_size_result:
  assumes "unat inc < 2 ^ 62"
  shows "llseek_size inc 0 = Some (of_nat (least_multiple_from_ten (Suc (unat inc))))"
proof -
  obtain k where "llseek_size inc 0 = Some (of_nat (k * Suc (unat inc)))"
    and "10 \<le> k * Suc (unat inc)" and "k = 0 \<or> (k - 1) * Suc (unat inc) < 10"
    using llseek_size_from [of inc 0] assms by auto
  then show ?thesis by (metis least_multipleI zero_less_Suc)
qed

lemma llseek_size_empty: "llseek_size 0 0 = Some 10"
  using llseek_size_result [of 0] by (simp add: least_multiple_from_ten_def)

lemma least_multiple_bounds: "0 < c \<Longrightarrow> 10 \<le> least_multiple_from_ten c \<and> least_multiple_from_ten c < 10 + c"
proof -
  assume c: "0 < c"
  have "9 div c * c + 9 mod c = 9" by (rule div_mult_mod_eq)
  moreover have "9 mod c < c" using c by simp
  ultimately show ?thesis
    unfolding least_multiple_from_ten_def add_mult_distrib mult_1 by linarith
qed

lemma aesd_llseek_result:
  assumes "private_data filp = Some d" and "unat (esize (buf_entry (dev w))) < 2 ^ 62"
  shows "aesd_llseek K filp off whence w =
     (let sz = of_nat (least_multiple_from_ten (Suc (unat (esize (buf_entry (dev w))))));
          (pos, newpos) = fixed_size_llseek K (f_pos filp) off whence sz
      in Some (Inr newpos, filp\<lparr>f_pos := pos\<rparr>,
           w\<lparr>dev := (dev w)\<lparr>mutex_held := mutex_unlock K (mutex_lock K (mutex_held (dev w)))\<rparr>\<rparr>))"
  using assms by (simp add: aesd_llseek_def llseek_size_result unlock_dev_def Let_def case_prod_unfold)

section \<open>aesd_ioctl\<close>

definition AESD_IOC_MAGIC :: u32 where
  "AESD_IOC_MAGIC = 0x16"

definition AESDCHAR_IOC_MAXNR :: u32 where
  "AESDCHAR_IOC_MAXNR = 1"

text \<open>\<open>_IOWR(AESD_IOC_MAGIC, 1, struct aesd_seekto)\<close>; the structure has two 32-bit fields.\<close>

definition AESDCHAR_IOCSEEKTO :: "kernel \<Rightarrow> u32" where
  "AESDCHAR_IOCSEEKTO K = iowr K AESD_IOC_MAGIC 1 8"

text \<open>
  The while loop that adds up the sizes of the entries before the one sought. An index
  outside the array would be an out-of-bounds read; \<open>None\<close> means that the loop does not end.
\<close>

partial_function (option) seek_loop ::
  "aesd_circular_buffer \<Rightarrow> nat \<Rightarrow> nat \<Rightarrow> size_t \<Rightarrow> (fault + nat \<times> size_t) option" where
  "seek_loop b command_idx i entry_offset =
     (if i = command_idx then Some (Inr (i, entry_offset))
      else if length (entry b) \<le> i then Some (Inl OutOfBounds)
      else seek_loop b command_idx ((i + 1) mod 10) (entry_offset + esize (entry b ! i)))"

text \<open>
  Between lock and unlock: the number of available entries, as an \<open>int\<close> that the comparison
  with the 32-bit command number converts to unsigned; the loop; the check of the offset
  against the entry's size; the new file position.
\<close>

definition available_entries :: "aesd_circular_buffer \<Rightarrow> int" where
  "available_entries b =
     (if full b then 10 else int (unat (in_offs b)) - int (unat (out_offs b)))"

definition aesd_ioctl_locked ::
  "aesd_seekto \<Rightarrow> struct_file \<Rightarrow> world \<Rightarrow> (fault + (errno + unit) \<times> struct_file) option" where
  "aesd_ioctl_locked seek filp w =
     (let b = circular_buf (dev w) in
      if (word_of_int (available_entries b) :: u32) \<le> write_cmd seek then Some (Inr (Inl EINVAL, filp))
      else
        let command_idx = unat ((ucast (out_offs b) + write_cmd seek) mod (10 :: u32)) in
        Option.bind (seek_loop b command_idx (unat (out_offs b)) 0)
          (\<lambda>r. Some (and_then r
             (\<lambda>(i, entry_offset).
                if length (entry b) \<le> i then Inl OutOfBounds
                else if esize (entry b ! i) < ucast (write_cmd_offset seek) then Inr (Inl EINVAL, filp)
                else Inr (Inr (), filp\<lparr>f_pos := entry_offset + ucast (write_cmd_offset seek)\<rparr>)))))"

definition aesd_ioctl ::
  "kernel \<Rightarrow> struct_file \<Rightarrow> u32 \<Rightarrow> size_t \<Rightarrow> world \<Rightarrow>
   (fault + (errno + unit) \<times> struct_file \<times> world) option" where
  "aesd_ioctl K filp cmd arg w =
     (if private_data filp = None then Some (Inr (Inl ENODEV, filp, w))
      else if ioc_type K cmd \<noteq> AESD_IOC_MAGIC then Some (Inr (Inl ENOTTY, filp, w))
      else if AESDCHAR_IOC_MAXNR < ioc_nr K cmd then Some (Inr (Inl ENOTTY, filp, w))
      else if cmd \<noteq> AESDCHAR_IOCSEEKTO K then Some (Inr (Inl ENOTTY, filp, w))
      else
        let (aesd_seek, not_copied) = copy_seekto K arg in
        if not_copied \<noteq> 0 then Some (Inr (Inl EFAULT, filp, w))
        else
          let (w1, rc) = lock_dev K w in
          if rc \<noteq> 0 then Some (Inr (Inl ERESTARTSYS, filp, w1))
          else
            Option.bind (aesd_ioctl_locked aesd_seek filp w1)
              (\<lambda>r. Some (and_then r (\<lambda>(retval, filp'). Inr (retval, filp', unlock_dev K w1)))))"

text \<open>The loop ends at the entry sought, with the sizes of the entries before it added up.\<close>

lemma slot_Suc: "(slot b k + 1) mod 10 = slot b (Suc k)"
  by (simp add: slot_def mod_Suc_eq)

lemma slot_0: "cb_inv b \<Longrightarrow> slot b 0 = unat (out_offs b)"
  using out_offs_lt [of b] by (simp add: slot_def)

lemma seek_loop_from:
  assumes inv: "cb_inv b" and "k \<le> j" and j: "j < 10"
  shows "seek_loop b (slot b j) (slot b k) acc =
     Some (Inr (slot b j, acc + of_nat (sum_list (map (slot_size b) [k..<j]))))"
  using assms(2)
proof (induction "j - k" arbitrary: k acc)
  case 0
  then show ?case by (simp add: seek_loop.simps)
next
  case (Suc n)
  then have kj: "k < j" by simp
  with j have ne: "slot b k \<noteq> slot b j" using slot_inj [of b k j] by auto
  have "slot b k < length (entry b)" using inv by (simp add: cb_inv_def)
  with ne have "seek_loop b (slot b j) (slot b k) acc =
      seek_loop b (slot b j) (slot b (Suc k)) (acc + esize (entry b ! slot b k))"
    by (subst seek_loop.simps) (simp add: slot_Suc [simplified])
  also have "\<dots> = Some (Inr (slot b j, acc + esize (entry b ! slot b k) +
      of_nat (sum_list (map (slot_size b) [Suc k..<j]))))"
    using Suc.hyps kj by (intro Suc.hyps(1)) simp_all
  also have "acc + esize (entry b ! slot b k) + of_nat (sum_list (map (slot_size b) [Suc k..<j])) =
      acc + of_nat (sum_list (map (slot_size b) [k..<j]))"
    using kj by (simp add: upt_conv_Cons slot_size_def)
  finally show ?case .
qed

lemma slot_size_stored: "j \<le> stored_count b \<Longrightarrow>
   map (slot_size b) [0..<j] = take j (stored_sizes b)"
  by (auto simp: stored_sizes_def slot_size_def stored_nth simp del: upt_Suc intro!: nth_equalityI)

lemma available_entries_count: "cb_inv b \<Longrightarrow> available_entries b = int (stored_count b)"
  by (auto simp: available_entries_def stored_count_def cb_inv_def)

lemma count_le_word:
  assumes "n \<le> 10"
  shows "(word_of_int (int n) :: u32) \<le> c \<longleftrightarrow> n \<le> unat c"
proof -
  have "unat (of_nat n :: u32) = n" using assms by (intro unat_of_nat_lt) simp
  then show ?thesis by (simp add: word_le_nat_alt)
qed

lemma command_idx_slot:
  assumes "cb_inv b" and "unat c < 10"
  shows "unat ((ucast (out_offs b) + c) mod (10 :: u32)) = slot b (unat c)"
proof -
  have "unat (ucast (out_offs b) :: u32) = unat (out_offs b)"
    by (simp add: unsigned_ucast_eq take_bit_nat_eq_self_iff) (use unat_bound [of "out_offs b"] in simp)
  moreover from this have "unat (ucast (out_offs b) + c) = unat (out_offs b) + unat c"
    using out_offs_lt [OF assms(1)] assms(2) by (subst unat_plus_no_overflow) simp_all
  ultimately show ?thesis by (simp add: slot_def unat_mod_distrib)
qed

lemma ucast_u32_less:
  "(sz :: size_t) < ucast (c :: u32) \<longleftrightarrow> unat sz < unat c"
proof -
  have "unat (ucast c :: size_t) = unat c"
    by (simp add: unsigned_ucast_eq take_bit_nat_eq_self_iff) (use unat_bound [of c] in simp)
  then show ?thesis by (simp add: word_less_nat_alt)
qed

lemma ioctl_locked_result:
  fixes seek :: aesd_seekto
  assumes inv: "cb_inv (circular_buf (dev w))"
  defines "sizes \<equiv> stored_sizes (circular_buf (dev w))"
    and "c \<equiv> unat (write_cmd seek)" and "off \<equiv> unat (write_cmd_offset seek)"
  shows "aesd_ioctl_locked seek filp w =
     (if length sizes \<le> c \<or> sizes ! c < off then Some (Inr (Inl EINVAL, filp))
      else Some (Inr (Inr (), filp\<lparr>f_pos := of_nat (sum_list (take c sizes) + off)\<rparr>)))"
proof -
  let ?b = "circular_buf (dev w)"
  note count = stored_count_le [OF inv]
  show ?thesis
  proof (cases "stored_count ?b \<le> c")
    case True
    then show ?thesis
      by (simp add: aesd_ioctl_locked_def Let_def available_entries_count [OF inv]
          count_le_word [OF count, simplified] sizes_def c_def stored_sizes_def)
  next
    case False
    with count have c10: "c < 10" by simp
    have loop: "seek_loop ?b (slot ?b c) (unat (out_offs ?b)) 0 =
        Some (Inr (slot ?b c, of_nat (sum_list (take c sizes))))"
      using seek_loop_from [OF inv, of 0 c 0] c10 False
      by (simp add: slot_0 [OF inv] slot_size_stored sizes_def)
    have idx: "unat ((ucast (out_offs ?b) + write_cmd seek) mod (10 :: u32)) = slot ?b c"
      using command_idx_slot [OF inv, of "write_cmd seek"] c10 by (simp add: c_def)
    have size: "unat (esize (entry ?b ! slot ?b c)) = sizes ! c"
      using False by (simp add: sizes_def stored_sizes_def stored_nth)
    have off: "(ucast (write_cmd_offset seek) :: size_t) = of_nat off"
      by (simp add: off_def)
    have cmp: "esize (entry ?b ! slot ?b c) < of_nat off \<longleftrightarrow> sizes ! c < off"
      by (simp only: off [symmetric] ucast_u32_less size) (simp only: off_def)
    have wc: "\<not> stored_count ?b \<le> unat (write_cmd seek)" using False by (simp add: c_def)
    have "\<not> length (entry ?b) \<le> slot ?b c" using inv by (simp add: cb_inv_def not_le)
    moreover have "\<not> length sizes \<le> c" using False by (simp add: sizes_def stored_sizes_def)
    ultimately show ?thesis
      by (simp add: aesd_ioctl_locked_def Let_def available_entries_count [OF inv] idx loop
          count_le_word [OF count, simplified] off cmp wc)
  qed
qed

text \<open>The whole handler for the seek command on a device in its invariant.\<close>

lemma aesd_ioctl_seekto:
  fixes seek :: aesd_seekto
  assumes inv: "cb_inv (circular_buf (dev w))" and io: "ioc_ok K" and mx: "mutex_ok K" "not_interrupted K"
    and filp: "private_data filp = Some d" and arg: "copy_seekto K arg = (seek, 0)"
  defines "sizes \<equiv> stored_sizes (circular_buf (dev w))"
    and "c \<equiv> unat (write_cmd seek)" and "off \<equiv> unat (write_cmd_offset seek)"
  shows "\<exists>w'. aesd_ioctl K filp (AESDCHAR_IOCSEEKTO K) arg w =
       Some (Inr (if length sizes \<le> c \<or> sizes ! c < off then (Inl EINVAL, filp, w')
                  else (Inr (), filp\<lparr>f_pos := of_nat (sum_list (take c sizes) + off)\<rparr>, w'))) \<and>
     \<not> mutex_held (dev w') \<and> mem w' = mem w \<and> circular_buf (dev w') = circular_buf (dev w) \<and>
     buf_entry (dev w') = buf_entry (dev w)"
proof -
  obtain m where lock: "lock_dev K w = (w\<lparr>dev := (dev w)\<lparr>mutex_held := m\<rparr>\<rparr>, 0)"
    using lock_devE [OF mx] by blast
  let ?w1 = "w\<lparr>dev := (dev w)\<lparr>mutex_held := m\<rparr>\<rparr>"
  have codec: "ioc_type K (AESDCHAR_IOCSEEKTO K) = AESD_IOC_MAGIC"
      "ioc_nr K (AESDCHAR_IOCSEEKTO K) = 1"
    using io by (simp_all add: ioc_ok_def AESDCHAR_IOCSEEKTO_def AESD_IOC_MAGIC_def)
  show ?thesis
    using ioctl_locked_result [of ?w1 seek filp] inv unlock_dev_free [OF mx(1)]
    by (intro exI [of _ "unlock_dev K ?w1"])
       (simp add: aesd_ioctl_def codec filp arg lock AESDCHAR_IOC_MAXNR_def sizes_def c_def off_def)
qed

section \<open>The table of file operations\<close>

record file_operations =
  fop_read :: "kernel \<Rightarrow> struct_file option \<Rightarrow> byte list option \<Rightarrow> size_t \<Rightarrow> loff_t \<Rightarrow> world \<Rightarrow>
    fault + (errno + size_t) \<times> byte list option \<times> loff_t \<times> world"
  fop_write :: "kernel \<Rightarrow> struct_file option \<Rightarrow> byte list option \<Rightarrow> size_t \<Rightarrow> loff_t \<Rightarrow> world \<Rightarrow>
    fault + (errno + size_t) \<times> loff_t \<times> world"
  fop_open :: "inode \<Rightarrow> struct_file \<Rightarrow> int \<times> struct_file"
  fop_release :: "inode \<Rightarrow> struct_file \<Rightarrow> int \<times> struct_file"
  fop_llseek :: "kernel \<Rightarrow> struct_file \<Rightarrow> loff_t \<Rightarrow> u32 \<Rightarrow> world \<Rightarrow>
    ((errno + (int + loff_t)) \<times> struct_file \<times> world) option"
  fop_unlocked_ioctl :: "kernel \<Rightarrow> struct_file \<Rightarrow> u32 \<Rightarrow> size_t \<Rightarrow> world \<Rightarrow>
    (fault + (errno + unit) \<times> struct_file \<times> world) option"

definition aesd_fops :: file_operations where
  "aesd_fops =
     \<lparr>fop_read = aesd_read, fop_write = aesd_write, fop_open = aesd_open, fop_release = aesd_release,
      fop_llseek = aesd_llseek, fop_unlocked_ioctl = aesd_ioctl\<rparr>"

lemma aesd_fops_simps [simp]:
  "fop_read aesd_fops = aesd_read" "fop_write aesd_fops = aesd_write" "fop_open aesd_fops = aesd_open"
  "fop_release aesd_fops = aesd_release" "fop_llseek aesd_fops = aesd_llseek"
  "fop_unlocked_ioctl aesd_fops = aesd_ioctl"
  by (simp_all add: aesd_fops_def)

end
