(* ===== verification/Device_File.thy ===== *)
theory Device_File
  imports Driver_Seek Byte_Stream
begin

text \<open>
  The character device as a program sees it through an open file: the kernel keeps the file
  position and calls the handlers of the driver's table \<open>aesd_fops\<close> with it. The open device provides
  the byte-stream contract over the concatenation of its complete lines; sequences of
  writes are the history of the device; a seek by ioctl followed by reads gives the bytes
  from the command sought.
\<close>

record device_file =
  kern :: kernel
  wld :: world
  fpos :: loff_t

text \<open>The kernel's \<open>struct file\<close> of the open device.\<close>

definition filp_of :: "device_file \<Rightarrow> struct_file" where
  "filp_of f = \<lparr>private_data = Some 0, f_pos = fpos f\<rparr>"

definition device_read :: "device_file \<Rightarrow> nat \<Rightarrow> byte list \<times> device_file" where
  "device_read f n =
     (case fop_read aesd_fops (kern f) (Some (filp_of f)) (Some (replicate n 0)) (of_nat n) (fpos f) (wld f) of
        Inr (Inr k, Some ubuf, pos', w') \<Rightarrow> (take (unat k) ubuf, f\<lparr>wld := w', fpos := pos'\<rparr>)
      | Inr (_, _, pos', w') \<Rightarrow> ([], f\<lparr>wld := w', fpos := pos'\<rparr>)
      | Inl _ \<Rightarrow> ([], f))"

definition device_write :: "device_file \<Rightarrow> byte list \<Rightarrow> nat \<times> device_file" where
  "device_write f data =
     (case fop_write aesd_fops (kern f) (Some (filp_of f)) (Some data) (of_nat (length data)) (fpos f) (wld f) of
        Inr (Inr k, pos', w') \<Rightarrow> (unat k, f\<lparr>wld := w', fpos := pos'\<rparr>)
      | Inr (Inl _, pos', w') \<Rightarrow> (0, f\<lparr>wld := w', fpos := pos'\<rparr>)
      | Inl _ \<Rightarrow> (0, f))"

text \<open>A sound file: its device in the invariant, and the kernel one that maps the user's memory and
  interrupts no caller. Reading needs, besides, that the search's debugging print is not
  trapped.\<close>

definition file_sound :: "device_file \<Rightarrow> bool" where
  "file_sound f \<longleftrightarrow> kernel_ok (kern f) \<and> user_memory_mapped (kern f) \<and> not_interrupted (kern f) \<and>
     dev_inv (kern f) (wld f)"

definition file_inv :: "device_file \<Rightarrow> bool" where
  "file_inv f \<longleftrightarrow> kernel_ok (kern f) \<and> kernel_calm (kern f) \<and> dev_inv (kern f) (wld f)"

lemma file_inv_iff: "file_inv f \<longleftrightarrow> file_sound f \<and> \<not> checks_reads (kern f)"
  by (auto simp: file_inv_def file_sound_def kernel_calm_def)

definition file_remaining :: "device_file \<Rightarrow> byte list" where
  "file_remaining f = drop (unat (fpos f)) (contents (view (wld f)))"

section \<open>Reading\<close>

lemma view_read_prefix:
  "drop p (contents v) = view_read v p n @ drop (p + length (view_read v p n)) (contents v)"
proof (cases "locate (map length (complete v)) p")
  case None
  then show ?thesis by (simp add: view_read_def)
next
  case (Some jk)
  then obtain j off where loc: "locate (map length (complete v)) p = Some (j, off)" by (cases jk) auto
  let ?rest = "drop off (complete v ! j) @ concat (drop (Suc j) (complete v))"
  have drop: "drop p (contents v) = ?rest"
    using locate_concat [OF loc] by (simp add: contents_def)
  let ?d = "take n (drop off (complete v ! j))"
  have "drop (p + length ?d) (contents v) = drop (length ?d) ?rest"
    by (metis drop drop_drop add.commute)
  also have "\<dots> = drop n (drop off (complete v ! j)) @ concat (drop (Suc j) (complete v))"
    by (simp add: min_def)
  finally show ?thesis using append_take_drop_id [of n "drop off (complete v ! j)"]
    by (simp add: drop view_read_def loc del: drop_drop append_take_drop_id flip: append_assoc)
qed

lemma view_read_length: "length (view_read v p n) \<le> n"
  by (auto simp: view_read_def split: option.split)

lemma view_read_nonempty:
  assumes "0 < n" and "p < length (contents v)"
  shows "view_read v p n \<noteq> []"
proof -
  have "locate (map length (complete v)) p \<noteq> None"
    using assms(2) by (simp add: locate_None_iff contents_def length_concat)
  then obtain j off where loc: "locate (map length (complete v)) p = Some (j, off)" by auto
  then have "off < length (complete v ! j)" by (auto simp: locate_Some_iff)
  with assms(1) loc show ?thesis by (simp add: view_read_def)
qed

lemma contents_bound:
  assumes "file_inv f"
  shows "length (contents (view (wld f))) < 2 ^ 31"
proof -
  have wf: "dev_wf {} (kern f) (wld f)" and "kmalloc_limit_ok (kern f)"
    using assms by (simp_all add: file_inv_def kernel_ok_def dev_inv_wfD)
  then show ?thesis
    using stored_sizes_bound [OF wf] by (simp add: contents_def length_concat view_sizes [OF wf])
qed

lemma device_read_result:
  assumes inv: "file_inv f" and n: "n < 2 ^ 64"
  defines "data \<equiv> view_read (view (wld f)) (unat (fpos f)) n"
  shows "\<exists>w'. device_read f n = (data, f\<lparr>wld := w', fpos := fpos f + of_nat (length data)\<rparr>) \<and>
     dev_inv (kern f) w' \<and> view w' = view (wld f)"
proof -
  have un: "unat (of_nat n :: size_t) = n" using n by (intro unat_of_nat_lt) simp
  have "unat (of_nat (length data) :: size_t) = length data"
    using view_read_length [of "view (wld f)" "unat (fpos f)" n] n
    by (intro unat_of_nat_lt) (simp add: data_def)
  then show ?thesis
    using aesd_read_view [of "kern f" "wld f" "fpos f" "filp_of f" 0 "of_nat n" "replicate n 0"] inv
    by (auto simp: device_read_def un data_def [symmetric] Let_def file_inv_def kernel_ok_def
        kernel_calm_def filp_of_def)
qed

lemma device_read_remaining:
  assumes inv: "file_inv f" and n: "n < 2 ^ 64" and res: "device_read f n = (bs, f')"
  shows "file_remaining f = bs @ file_remaining f' \<and> length bs \<le> n \<and> file_inv f'"
proof -
  let ?v = "view (wld f)" and ?p = "unat (fpos f)"
  let ?data = "view_read ?v ?p n"
  obtain w' where r: "bs = ?data" "f' = f\<lparr>wld := w', fpos := fpos f + of_nat (length ?data)\<rparr>"
      "dev_inv (kern f) w'" "view w' = ?v"
    using device_read_result [OF inv n] res by auto
  have "unat (fpos f + of_nat (length ?data)) = ?p + length ?data"
  proof (cases "?data = []")
    case False
    then have "length ?data \<le> length (drop ?p (contents ?v))" "drop ?p (contents ?v) \<noteq> []"
      using view_read_prefix [of ?p ?v n] by (metis append_is_Nil_conv length_append le_add1)+
    then have "?p + length ?data < 2 ^ 31" using contents_bound [OF inv] by simp
    then show ?thesis
      by (subst unat_plus_no_overflow) (simp_all add: no_wrap)
  qed simp
  then show ?thesis
    using view_read_prefix [of ?p ?v n] view_read_length [of ?v ?p n] inv r
    by (simp add: file_remaining_def file_inv_def)
qed

lemma device_read_progress:
  assumes "file_inv f" and "n < 2 ^ 64" and "0 < n" and "file_remaining f \<noteq> []"
  shows "fst (device_read f n) \<noteq> []"
  using device_read_result [OF assms(1,2)] view_read_nonempty [OF assms(3)] assms(4)
  by (auto simp: file_remaining_def)

interpretation device_stream: byte_stream device_read file_remaining file_inv "2 ^ 64"
  by unfold_locales (use device_read_remaining device_read_progress in \<open>blast+\<close>)

section \<open>Writing\<close>

lemma device_write_success:
  assumes inv: "file_sound f" and data: "data \<noteq> []" "length data < 2 ^ 31"
    and res: "device_write f data = (length data, f')"
  shows "file_sound f' \<and> view (wld f') = view_write (view (wld f)) data \<and> fpos f' = fpos f \<and>
     kern f' = kern f"
proof -
  have un: "unat (of_nat (length data) :: size_t) = length data"
    using data by (intro unat_of_nat_lt) simp
  with data have count: "(of_nat (length data) :: size_t) \<noteq> 0"
    by (metis length_0_conv unat_0)
  obtain ret w' where w: "aesd_write (kern f) (Some (filp_of f)) (Some data) (of_nat (length data)) (fpos f) (wld f) =
      Inr (ret, fpos f, w')" and out: "write_outcome (kern f) data (of_nat (length data)) (wld f) ret w'"
    using aesd_write_outcome [of "kern f" "wld f" "filp_of f" 0 "of_nat (length data)" data "fpos f"]
      inv data un count
    by (auto simp: file_sound_def kernel_ok_def filp_of_def)
  show ?thesis
  proof (cases ret)
    case (Inl e)
    with res w data show ?thesis by (simp add: device_write_def)
  next
    case (Inr n)
    with res w out inv un show ?thesis
      by (auto simp: device_write_def write_outcome_def file_sound_def)
  qed
qed

text \<open>A sequence of complete writes; \<open>None\<close> as soon as one is refused or short.\<close>

fun device_writes :: "device_file \<Rightarrow> byte list list \<Rightarrow> device_file option" where
  "device_writes f [] = Some f"
| "device_writes f (data # rest) =
     (case device_write f data of (n, f') \<Rightarrow>
        if n = length data then device_writes f' rest else None)"

lemma device_writes_view:
  assumes "file_sound f" and "\<forall>data \<in> set ds. data \<noteq> [] \<and> length data < 2 ^ 31"
    and "device_writes f ds = Some f'"
  shows "file_sound f' \<and> view (wld f') = foldl view_write (view (wld f)) ds \<and> fpos f' = fpos f \<and>
     kern f' = kern f"
  using assms
proof (induction ds arbitrary: f)
  case Nil
  then show ?case by simp
next
  case (Cons d ds)
  from Cons.prems(3) obtain f1 where f1: "device_write f d = (length d, f1)" "device_writes f1 ds = Some f'"
    by (auto split: prod.splits if_splits)
  from device_write_success [OF Cons.prems(1) _ _ f1(1)] Cons.prems(2)
  have "file_sound f1" "view (wld f1) = view_write (view (wld f)) d" "fpos f1 = fpos f" "kern f1 = kern f"
    by auto
  with Cons.IH [of f1] Cons.prems(2) f1(2) show ?case by auto
qed

text \<open>Whole lines on a device with no pending bytes; a line written in two parts.\<close>

definition is_line :: "byte list \<Rightarrow> bool" where
  "is_line l \<longleftrightarrow> l \<noteq> [] \<and> last l = newline"

lemma view_write_lines:
  assumes "\<forall>l \<in> set ls. is_line l" and "pending v = []" and "length (complete v) \<le> 10"
  shows "complete (foldl view_write v ls) = last_n 10 (complete v @ ls) \<and>
     pending (foldl view_write v ls) = []"
  using assms
proof (induction ls arbitrary: v)
  case Nil
  then show ?case by simp
next
  case (Cons l ls)
  then have "view_write v l = \<lparr>complete = last_n 10 (complete v @ [l]), pending = []\<rparr>"
    by (simp add: view_write_def is_line_def)
  with Cons show ?case by (simp add: last_n_snoc_last_n)
qed

lemma view_write_split:
  assumes "a \<noteq> []" and "last a \<noteq> newline" and "b \<noteq> []"
  shows "view_write (view_write v a) b = view_write v (a @ b)"
  using assms by (simp add: view_write_def Let_def)

section \<open>Seeking by ioctl\<close>

definition device_ioctl :: "device_file \<Rightarrow> u32 \<Rightarrow> size_t \<Rightarrow> int \<times> device_file" where
  "device_ioctl f cmd arg =
     (case fop_unlocked_ioctl aesd_fops (kern f) (filp_of f) cmd arg (wld f) of
        Some (Inr (Inr _, filp, w')) \<Rightarrow> (0, f\<lparr>wld := w', fpos := f_pos filp\<rparr>)
      | Some (Inr (Inl _, filp, w')) \<Rightarrow> (- 1, f\<lparr>wld := w', fpos := f_pos filp\<rparr>)
      | _ \<Rightarrow> (- 1, f))"

lemma drop_concat_at:
  "c < length xss \<Longrightarrow> off \<le> length (xss ! c) \<Longrightarrow>
   drop (sum_list (take c (map length xss)) + off) (concat xss) =
     drop off (xss ! c) @ concat (drop (Suc c) xss)"
proof (induction xss arbitrary: c)
  case Nil
  then show ?case by simp
next
  case (Cons xs xss)
  then show ?case by (cases c) auto
qed

lemma dev_inv_same:
  assumes "dev_inv K w" and "mem w' = mem w" and "circular_buf (dev w') = circular_buf (dev w)"
    and "buf_entry (dev w') = buf_entry (dev w)"
  shows "dev_inv K w' \<and> view w' = view w"
proof -
  have "owned w' = owned w" using assms by (simp add: owned_def)
  with assms show ?thesis by (simp add: dev_inv_def view_def)
qed

lemma device_ioctl_remaining:
  fixes seek :: aesd_seekto
  assumes inv: "file_sound f" and arg: "copy_seekto (kern f) arg = (seek, 0)"
  defines "ls \<equiv> complete (view (wld f))"
    and "c \<equiv> unat (write_cmd seek)" and "off \<equiv> unat (write_cmd_offset seek)"
  shows "case device_ioctl f (AESDCHAR_IOCSEEKTO (kern f)) arg of (rc, f') \<Rightarrow>
     file_sound f' \<and> view (wld f') = view (wld f) \<and>
     (if c < length ls \<and> off \<le> length (ls ! c)
      then rc = 0 \<and> file_remaining f' = drop off (ls ! c) @ concat (drop (Suc c) ls)
      else rc = - 1 \<and> fpos f' = fpos f)"
proof -
  let ?sizes = "stored_sizes (circular_buf (dev (wld f)))"
  from inv have um: "user_memory_mapped (kern f)" and k: "kernel_ok (kern f)" "not_interrupted (kern f)" and di: "dev_inv (kern f) (wld f)"
    by (simp_all add: file_sound_def)
  from k have kio: "ioc_ok (kern f)" "mutex_ok (kern f)" "not_interrupted (kern f)"
      "private_data (filp_of f) = Some 0"
    by (simp_all add: kernel_ok_def filp_of_def)
  note sizes = view_sizes [OF dev_inv_wfD [OF di], folded ls_def]
  have len: "length ?sizes = length ls" by (metis sizes length_map)
  have nth: "c < length ls \<Longrightarrow> ?sizes ! c = length (ls ! c)" by (metis sizes nth_map)
  obtain w' where io: "aesd_ioctl (kern f) (filp_of f) (AESDCHAR_IOCSEEKTO (kern f)) arg (wld f) =
       Some (Inr (if length ?sizes \<le> c \<or> ?sizes ! c < off then (Inl EINVAL, filp_of f, w')
                  else (Inr (), (filp_of f)\<lparr>f_pos := of_nat (sum_list (take c ?sizes) + off)\<rparr>, w')))"
    and w': "mem w' = mem (wld f)" "circular_buf (dev w') = circular_buf (dev (wld f))"
      "buf_entry (dev w') = buf_entry (dev (wld f))"
    using aesd_ioctl_seekto [OF dev_invD(1) [OF di] kio(1,2,3) kio(4) arg]
    unfolding c_def off_def by blast
  note same = dev_inv_same [OF di w']
  show ?thesis
  proof (cases "c < length ls \<and> off \<le> length (ls ! c)")
    case True
    have "sum_list (take c ?sizes) + off \<le> sum_list ?sizes"
      using True sum_list_take_le [of c ?sizes] by (simp add: len nth)
    also have "\<dots> < 2 ^ 31"
      using stored_sizes_bound [OF dev_inv_wfD [OF di]] k by (simp add: kernel_ok_def)
    finally have "unat (of_nat (sum_list (take c ?sizes) + off) :: loff_t) = sum_list (take c ?sizes) + off"
      by (intro unat_of_nat_lt) simp
    moreover have "drop (sum_list (take c ?sizes) + off) (concat ls) =
        drop off (ls ! c) @ concat (drop (Suc c) ls)"
      using drop_concat_at [of c ls off] True by (simp add: sizes)
    ultimately show ?thesis
      using True io same k um
      by (simp add: device_ioctl_def len nth not_less file_sound_def file_remaining_def contents_def
          ls_def [symmetric] del: of_nat_add)
  next
    case False
    then have "length ?sizes \<le> c \<or> ?sizes ! c < off" using nth len by force
    with False io same k um show ?thesis
      by (auto simp: device_ioctl_def file_sound_def filp_of_def)
  qed
qed

end
