(* ===== verification/Device_Data_File.thy ===== *)
theory Device_Data_File
  imports Device_File Connection_Handler
begin

text \<open>
  The character device as the server's data file: the interface of its calls, and the proof
  that it provides the contract, with the history of lines as content. There is room for a
  line as long as it fits, with what is pending, into one block of a kernel that has memory.
\<close>

section \<open>The calls\<close>

text \<open>The ioctl call passes the address of the structure: copying from there gives it.\<close>

definition device_seek :: "device_file \<Rightarrow> aesd_seekto \<Rightarrow> int \<times> device_file" where
  "device_seek f seek =
     (case device_ioctl (f\<lparr>kern := (kern f)\<lparr>copy_seekto := \<lambda>_. (seek, 0)\<rparr>\<rparr>)
             (AESDCHAR_IOCSEEKTO (kern f)) 0 of
        (rc, f') \<Rightarrow> (rc, f'\<lparr>kern := kern f\<rparr>))"

definition device_rewind :: "device_file \<Rightarrow> int \<times> device_file" where
  "device_rewind f =
     (case fop_llseek aesd_fops (kern f) (filp_of f) 0 0 (wld f) of
        Some (Inr p, filp, w) \<Rightarrow> (0, f\<lparr>wld := w, fpos := f_pos filp\<rparr>)
      | Some (Inl _, filp, w) \<Rightarrow> (- 1, f\<lparr>wld := w\<rparr>)
      | None \<Rightarrow> (- 1, f))"

definition device_api :: "(byte list \<Rightarrow> nat) \<Rightarrow> device_file file_api" where
  "device_api policy =
     \<lparr>api_read = device_read, api_write = device_write, api_ioctl = device_seek,
      api_rewind = device_rewind, flush_policy = policy\<rparr>"

lemma device_write_counts:
  assumes inv: "file_inv f" and data: "data \<noteq> []" "length data < 2 ^ 31"
    and res: "device_write f data = (n, f')"
  shows "n = 0 \<or> n = length data"
proof -
  have un: "unat (of_nat (length data) :: size_t) = length data"
    using data by (intro unat_of_nat_lt) simp
  with data have count: "(of_nat (length data) :: size_t) \<noteq> 0"
    by (metis length_0_conv unat_0)
  obtain ret w' where w: "aesd_write (kern f) (Some (filp_of f)) (Some data) (of_nat (length data)) (fpos f) (wld f) =
      Inr (ret, fpos f, w')" and out: "write_outcome (kern f) data (of_nat (length data)) (wld f) ret w'"
    using aesd_write_outcome [of "kern f" "wld f" "filp_of f" 0 "of_nat (length data)" data "fpos f"]
      inv data un count
    by (auto simp: file_inv_def kernel_ok_def kernel_calm_def filp_of_def)
  with res un show ?thesis
    by (cases ret) (auto simp: device_write_def write_outcome_def)
qed

lemma copy_seekto_irrelevant:
  fixes K :: kernel and c :: "size_t \<Rightarrow> aesd_seekto \<times> size_t"
  defines "K' \<equiv> K\<lparr>copy_seekto := c\<rparr>"
  shows "krealloc_ok K' = krealloc_ok K" and "kfree_ok K' = kfree_ok K"
    and "kmalloc_limit_ok K' = kmalloc_limit_ok K" and "copy_from_user_ok K' = copy_from_user_ok K"
    and "copy_to_user_ok K' = copy_to_user_ok K" and "mutex_ok K' = mutex_ok K"
    and "fixed_size_llseek_ok K' = fixed_size_llseek_ok K" and "ioc_ok K' = ioc_ok K"
    and "kernel_calm K' = kernel_calm K" and "dev_inv K' w = dev_inv K w"
    and "AESDCHAR_IOCSEEKTO K' = AESDCHAR_IOCSEEKTO K"
  unfolding K'_def
  subgoal by (cases K) (simp only: krealloc_ok_def kernel.simps)
  subgoal by (cases K) (simp only: kfree_ok_def kernel.simps)
  subgoal by (cases K) (simp only: kmalloc_limit_ok_def kernel.simps)
  subgoal by (cases K) (simp only: copy_from_user_ok_def kernel.simps)
  subgoal by (cases K) (simp only: copy_to_user_ok_def kernel.simps)
  subgoal by (cases K) (simp only: mutex_ok_def kernel.simps)
  subgoal by (cases K) (simp only: fixed_size_llseek_ok_def kernel.simps)
  subgoal by (cases K) (simp only: ioc_ok_def kernel.simps)
  subgoal by (cases K) (simp only: kernel_calm_def user_memory_mapped_def not_interrupted_def kernel.simps)
  subgoal by (cases K) (simp only: dev_inv_def kernel.simps)
  subgoal by (cases K) (simp only: AESDCHAR_IOCSEEKTO_def kernel.simps)
  done

lemma file_inv_copy_seekto: "file_inv (f\<lparr>kern := (kern f)\<lparr>copy_seekto := c\<rparr>\<rparr>) = file_inv f"
  by (simp add: file_inv_def kernel_ok_def copy_seekto_irrelevant)

lemma device_api_simps [simp]:
  "api_read (device_api policy) = device_read" "api_write (device_api policy) = device_write"
  "api_ioctl (device_api policy) = device_seek" "api_rewind (device_api policy) = device_rewind"
  "flush_policy (device_api policy) = policy"
  by (simp_all add: device_api_def)

lemma device_seek_law:
  assumes inv: "file_inv d" and res: "device_seek d seek = (rc, d')"
  defines "ls \<equiv> complete (view (wld d))"
    and "c \<equiv> unat (write_cmd seek)" and "off \<equiv> unat (write_cmd_offset seek)"
  shows "file_inv d' \<and> kern d' = kern d \<and> view (wld d') = view (wld d) \<and>
     (if c < length ls \<and> off \<le> length (ls ! c)
      then rc = 0 \<and> file_remaining d' = drop off (ls ! c) @ concat (drop (Suc c) ls)
      else rc = - 1 \<and> unat (fpos d') = unat (fpos d))"
proof -
  let ?K = "(kern d)\<lparr>copy_seekto := \<lambda>_. (seek, 0)\<rparr>"
  let ?d = "d\<lparr>kern := ?K\<rparr>"
  obtain f where io: "device_ioctl ?d (AESDCHAR_IOCSEEKTO (kern d)) 0 = (rc, f)" and d': "d' = f\<lparr>kern := kern d\<rparr>"
    using res by (auto simp: device_seek_def split: prod.splits)
  have kf: "kern f = ?K"
    using io by (auto simp: device_ioctl_def split: option.splits sum.splits prod.splits)
  have "f = d'\<lparr>kern := (kern d')\<lparr>copy_seekto := \<lambda>_. (seek, 0)\<rparr>\<rparr>"
    using kf d' by simp
  then have inv': "file_inv d' = file_inv f" by (metis file_inv_copy_seekto)
  have inv0: "file_inv ?d" using inv by (simp add: file_inv_copy_seekto)
  have cs: "copy_seekto (kern ?d) 0 = (seek, 0)" by simp
  have cmd: "AESDCHAR_IOCSEEKTO (kern ?d) = AESDCHAR_IOCSEEKTO (kern d)"
    by (simp add: copy_seekto_irrelevant)
  have sound0: "file_sound ?d" using inv0 by (simp add: file_inv_iff)
  have inv1: "file_inv f = file_sound f" using inv0 by (simp add: file_inv_iff kf)
  note law = device_ioctl_remaining [OF sound0 cs, unfolded cmd io prod.case]
  moreover have "wld d' = wld f" "fpos d' = fpos f" "kern d' = kern d" by (simp_all add: d')
  ultimately show ?thesis
    by (auto simp: inv' inv1 ls_def c_def off_def file_remaining_def cong: if_cong split: if_splits)
qed

text \<open>\<open>fseek\<close> to the start of the device; \<open>llseek\<close> computes a size but uses it only as a bound.\<close>

lemma device_rewind_law:
  assumes inv: "file_inv d" and res: "device_rewind d = (rc, d')"
  shows "rc = 0 \<and> file_inv d' \<and> kern d' = kern d \<and> view (wld d') = view (wld d) \<and> fpos d' = 0"
proof -
  from inv have k: "kernel_ok (kern d)" and di: "dev_inv (kern d) (wld d)" by (simp_all add: file_inv_def)
  let ?p = "esize (buf_entry (dev (wld d)))"
  have small: "unat ?p < 2 ^ 31"
    using esize_fits [OF dev_inv_wfD [OF di]] k by (simp add: kernel_ok_def kmalloc_limit_ok_def)
  define sz :: loff_t where "sz = of_nat (least_multiple_from_ten (Suc (unat ?p)))"
  have "least_multiple_from_ten (Suc (unat ?p)) < 10 + Suc (unat ?p)"
    using least_multiple_bounds [of "Suc (unat ?p)"] by simp
  with small have lt: "least_multiple_from_ten (Suc (unat ?p)) < 2 ^ 32" by simp
  then have "unat sz = least_multiple_from_ten (Suc (unat ?p))"
    unfolding sz_def by (intro unat_of_nat_lt) simp
  with lt have "int (unat sz) < 2 ^ 63" by simp
  then have "uint sz < 2 ^ 63" by simp
  moreover have "- (2 ^ 63) \<le> uint sz" by (rule order_trans [OF _ uint_ge_0]) simp
  ultimately have "sint sz = uint sz"
    using signed_take_bit_int_eq_self [of 63 "uint sz"] by (simp add: sint_uint)
  then have "0 \<le> sint sz" by simp
  moreover have "llseek_target (fpos d) 0 0 sz = 0" by (simp add: llseek_target_def)
  ultimately have "fixed_size_llseek (kern d) (fpos d) 0 0 sz = (0, Inr 0)"
    using k unfolding kernel_ok_def fixed_size_llseek_ok_def Let_def
    by (auto dest!: spec [of _ "0 :: u32"])
  then have "d' = d\<lparr>wld := (wld d)\<lparr>dev := (dev (wld d))\<lparr>mutex_held :=
        mutex_unlock (kern d) (mutex_lock (kern d) (mutex_held (dev (wld d))))\<rparr>\<rparr>, fpos := 0\<rparr> \<and> rc = 0"
    using res small
    by (simp add: device_rewind_def aesd_llseek_result filp_of_def Let_def flip: sz_def)
  then show ?thesis using inv by (simp add: file_inv_def)
qed

section \<open>Content and room\<close>

text \<open>The content is the history of lines, on a kernel; room is what fits into the pending block.\<close>

definition device_content :: "device_file \<Rightarrow> kernel \<times> device_view" where
  "device_content f = (kern f, view (wld f))"

definition device_extend :: "kernel \<times> device_view \<Rightarrow> byte list \<Rightarrow> kernel \<times> device_view" where
  "device_extend h bs = (fst h, view_write (snd h) bs)"

definition device_room :: "kernel \<times> device_view \<Rightarrow> nat" where
  "device_room h =
     (if kernel_roomy (fst h) then kmalloc_max (fst h) - length (pending (snd h)) else 0)"

lemma device_extend_room: "device_room h \<le> device_room (device_extend h bs) + length bs"
proof -
  have "length (pending (view_write (snd h) bs)) \<le> length (pending (snd h)) + length bs"
    by (simp add: view_write_def Let_def)
  then have "k - length (pending (snd h)) \<le> k - length (pending (view_write (snd h) bs)) + length bs" for k
    by linarith
  then show ?thesis by (simp add: device_room_def device_extend_def)
qed

lemma device_write_law:
  assumes inv: "file_inv d" and data: "bs \<noteq> []" "length bs < 2 ^ 31"
    and res: "device_write d bs = (n, d')" and n: "0 < n"
  shows "n \<le> length bs \<and> file_inv d' \<and> device_content d' = device_extend (device_content d) (take n bs) \<and>
     unat (fpos d') = unat (fpos d)"
proof -
  from device_write_counts [OF inv data res] n have "n = length bs" by simp
  moreover have "file_sound d" and quiet: "\<not> checks_reads (kern d)" using inv by (simp_all add: file_inv_iff)
  note device_write_success [OF this(1) data, of d']
  ultimately show ?thesis
    using res quiet by (auto simp: file_inv_iff device_content_def device_extend_def)
qed

lemma device_write_room:
  assumes inv: "file_inv d" and data: "bs \<noteq> []" "length bs < 2 ^ 31"
    and room: "length bs \<le> device_room (device_content d)"
  shows "fst (device_write d bs) = length bs"
proof -
  have un: "unat (of_nat (length bs) :: size_t) = length bs"
    using data by (intro unat_of_nat_lt) simp
  with data have count: "(of_nat (length bs) :: size_t) \<noteq> 0" by (metis length_0_conv unat_0)
  from data room have roomy: "kernel_roomy (kern d)"
    and fit: "length (pending (view (wld d))) + length bs \<le> kmalloc_max (kern d)"
    by (auto simp: device_room_def device_content_def simp flip: length_greater_0_conv split: if_splits)
  obtain w' where "aesd_write (kern d) (Some (filp_of d)) (Some bs) (of_nat (length bs)) (fpos d) (wld d) =
      Inr (Inr (of_nat (length bs)), fpos d, w')"
    using aesd_write_accepts [of "kern d" "wld d" "filp_of d" 0 "of_nat (length bs)" bs "fpos d"]
      inv roomy fit un count
    by (auto simp: file_inv_def filp_of_def)
  then show ?thesis by (simp add: device_write_def un)
qed

section \<open>The contract\<close>

interpretation device_line: seekable_file "device_api policy" file_remaining file_inv "2 ^ 64"
    device_content "\<lambda>f. unat (fpos f)" device_extend "\<lambda>h. contents (snd h)" device_room
    "\<lambda>h. complete (snd h)"
  for policy
proof (unfold_locales, unfold device_api_simps)
  fix d d' bs n
  show "file_inv d \<Longrightarrow> n < 2 ^ 64 \<Longrightarrow> device_read d n = (bs, d') \<Longrightarrow>
      file_remaining d = bs @ file_remaining d' \<and> length bs \<le> n \<and> file_inv d'"
    by (rule device_read_remaining)
  show "file_inv d \<Longrightarrow> n < 2 ^ 64 \<Longrightarrow> device_read d n = (bs, d') \<Longrightarrow> device_content d' = device_content d"
    using device_read_result [of d n] by (auto simp: device_content_def)
  show "file_inv d \<Longrightarrow> n < 2 ^ 64 \<Longrightarrow> 0 < n \<Longrightarrow> file_remaining d \<noteq> [] \<Longrightarrow> fst (device_read d n) \<noteq> []"
    by (rule device_read_progress)
  show "file_remaining d = drop (unat (fpos d)) (contents (snd (device_content d)))"
    by (simp add: file_remaining_def device_content_def)
  show "file_inv d \<Longrightarrow> bs \<noteq> [] \<Longrightarrow> length bs < 2 ^ 31 \<Longrightarrow> device_write d bs = (n, d') \<Longrightarrow> 0 < n \<Longrightarrow>
      n \<le> length bs \<and> file_inv d' \<and> device_content d' = device_extend (device_content d) (take n bs) \<and>
      unat (fpos d') = unat (fpos d)"
    by (rule device_write_law)
  show "file_inv d \<Longrightarrow> bs \<noteq> [] \<Longrightarrow> length bs < 2 ^ 31 \<Longrightarrow> length bs \<le> device_room (device_content d) \<Longrightarrow>
      fst (device_write d bs) = length bs"
    by (rule device_write_room)
next
  fix d rc d'
  show "file_inv d \<Longrightarrow> device_rewind d = (rc, d') \<Longrightarrow>
      rc = 0 \<and> file_inv d' \<and> device_content d' = device_content d \<and> unat (fpos d') = 0"
    using device_rewind_law [of d rc d'] by (simp add: device_content_def)
next
  fix d seek rc d'
  show "file_inv d \<Longrightarrow> device_seek d seek = (rc, d') \<Longrightarrow>
      file_inv d' \<and> device_content d' = device_content d \<and>
      (let ls = complete (snd (device_content d)); c = unat (write_cmd seek); off = unat (write_cmd_offset seek)
       in if c < length ls \<and> off \<le> length (ls ! c)
          then rc = 0 \<and> file_remaining d' = drop off (ls ! c) @ concat (drop (Suc c) ls)
          else rc = - 1 \<and> unat (fpos d') = unat (fpos d))"
    using device_seek_law [of d seek rc d'] unfolding Let_def device_content_def snd_conv by blast
next
  fix xs ys :: "byte list" and h
  show "xs \<noteq> [] \<Longrightarrow> last xs \<noteq> newline \<Longrightarrow> ys \<noteq> [] \<Longrightarrow>
      device_extend (device_extend h xs) ys = device_extend h (xs @ ys)"
    using view_write_split by (simp add: device_extend_def)
  show "device_room h \<le> device_room (device_extend h xs) + length xs"
    by (rule device_extend_room)
qed simp

end
