(* ===== verification/Temp_File.thy ===== *)
theory Temp_File
  imports Connection_Handler
begin

text \<open>
  The data file of the other build, \<open>/var/tmp/aesdsocketdata\<close>, as POSIX describes a regular
  file opened for appending and reading (\<open>fopen\<close> with \<open>a+\<close>): a read takes the bytes at the
  position, a write appends at the end and takes as many bytes as the disk has space for.
  There is no seek command in that build; \<open>ioctl\<close> on a regular file fails.
\<close>

record temp_file =
  tbytes :: "byte list"
  toffs :: nat
  disk_free :: nat

definition temp_read :: "temp_file \<Rightarrow> nat \<Rightarrow> byte list \<times> temp_file" where
  "temp_read f n =
     (let bs = take n (drop (toffs f) (tbytes f)) in (bs, f\<lparr>toffs := toffs f + length bs\<rparr>))"

definition temp_write :: "temp_file \<Rightarrow> byte list \<Rightarrow> nat \<times> temp_file" where
  "temp_write f bs =
     (let n = min (length bs) (disk_free f)
      in (n, f\<lparr>tbytes := tbytes f @ take n bs, disk_free := disk_free f - n\<rparr>))"

definition temp_rewind :: "temp_file \<Rightarrow> int \<times> temp_file" where
  "temp_rewind f = (0, f\<lparr>toffs := 0\<rparr>)"

definition temp_api :: "(byte list \<Rightarrow> nat) \<Rightarrow> temp_file file_api" where
  "temp_api policy =
     \<lparr>api_read = temp_read, api_write = temp_write, api_ioctl = (\<lambda>f _. (- 1, f)),
      api_rewind = temp_rewind, flush_policy = policy\<rparr>"

lemma temp_read_law:
  assumes "temp_read d n = (bs, d')"
  shows "drop (toffs d) (tbytes d) = bs @ drop (toffs d') (tbytes d') \<and> length bs \<le> n"
proof -
  let ?xs = "drop (toffs d) (tbytes d)"
  have bs: "bs = take n ?xs" and d': "d' = d\<lparr>toffs := toffs d + length bs\<rparr>"
    using assms by (auto simp: temp_read_def Let_def)
  have "?xs = bs @ drop (length bs) ?xs"
    using append_take_drop_id [of n ?xs] append_eq_conv_conj [of bs] bs by metis
  moreover have "drop (length bs) ?xs = drop (toffs d') (tbytes d')" by (simp add: d' add.commute)
  ultimately show ?thesis by (simp add: bs)
qed

text \<open>The contract, with the bytes of the file and the free space on the disk as content.\<close>

definition temp_content :: "temp_file \<Rightarrow> byte list \<times> nat" where
  "temp_content f = (tbytes f, disk_free f)"

definition temp_extend :: "byte list \<times> nat \<Rightarrow> byte list \<Rightarrow> byte list \<times> nat" where
  "temp_extend h bs = (fst h @ bs, snd h - length bs)"

interpretation temp_line: data_file "temp_api policy" "\<lambda>f. drop (toffs f) (tbytes f)" "\<lambda>_. True" "2 ^ 64"
    temp_content toffs temp_extend fst snd
  for policy
proof unfold_locales
  fix d d' :: temp_file and bs n
  show "api_read (temp_api policy) d n = (bs, d') \<Longrightarrow>
      drop (toffs d) (tbytes d) = bs @ drop (toffs d') (tbytes d') \<and> length bs \<le> n \<and> True"
    using temp_read_law [of d n bs d'] by (simp add: temp_api_def)
  show "0 < n \<Longrightarrow> drop (toffs d) (tbytes d) \<noteq> [] \<Longrightarrow> fst (api_read (temp_api policy) d n) \<noteq> []"
    by (simp add: temp_api_def temp_read_def Let_def)
  show "api_read (temp_api policy) d n = (bs, d') \<Longrightarrow> temp_content d' = temp_content d"
    by (auto simp: temp_content_def temp_api_def temp_read_def Let_def)
  show "api_write (temp_api policy) d bs = (n, d') \<Longrightarrow>
      n \<le> length bs \<and> True \<and> temp_content d' = temp_extend (temp_content d) (take n bs) \<and> toffs d' = toffs d"
    by (auto simp: temp_content_def temp_extend_def temp_api_def temp_write_def Let_def)
  show "length bs \<le> snd (temp_content d) \<Longrightarrow> fst (api_write (temp_api policy) d bs) = length bs"
    by (simp add: temp_content_def temp_api_def temp_write_def Let_def)
qed (auto simp: temp_api_def temp_rewind_def temp_content_def temp_extend_def)

end
