(* ===== verification/Service.thy ===== *)
theory Service
  imports Shared_File Device_Data_File Temp_File
begin

text \<open>
  The clients of the server on each of its data files: the shared file of \<open>Shared_File\<close> on the
  character device, whose content is the last ten lines, and on the temporary file, which
  keeps everything.
\<close>

section \<open>The character device\<close>

text \<open>\<open>fopen\<close> on the device: the driver's open, on a new \<open>struct file\<close> with position 0.\<close>

definition new_filp :: struct_file where
  "new_filp = snd (fop_open aesd_fops \<lparr>i_cdev = 0\<rparr> \<lparr>private_data = None, f_pos = 0\<rparr>)"

definition reopen_device :: "device_file \<Rightarrow> device_file" where
  "reopen_device f = f\<lparr>fpos := f_pos new_filp\<rparr>"

lemma new_filp: "filp_of (reopen_device f) = new_filp"
  by (simp add: filp_of_def reopen_device_def new_filp_def aesd_open_def)

lemma reopen_device_simps [simp]:
  "kern (reopen_device f) = kern f" "wld (reopen_device f) = wld f" "fpos (reopen_device f) = 0"
  by (simp_all add: reopen_device_def new_filp_def aesd_open_def)

interpretation device_service: shared_file "device_api policy" file_remaining file_inv "2 ^ 64"
    device_content "\<lambda>f. unat (fpos f)" device_extend "\<lambda>h. contents (snd h)" device_room reopen_device
  for policy
  by unfold_locales (simp add: file_inv_def device_content_def)

lemma client_line_is_line:
  assumes "client_ok use_char c"
  shows "is_line (client_line c)"
proof -
  let ?ps = "messages c"
  have ps: "?ps \<noteq> []" "last ?ps \<noteq> []" "last (last ?ps) = newline"
    using assms by (simp_all add: client_ok_def line_parts_def)
  then have "client_line c = concat (butlast ?ps) @ last ?ps"
    unfolding client_line_def by (metis append_butlast_last_id append_Nil2 concat.simps concat_append)
  with ps show ?thesis by (simp add: is_line_def)
qed

lemma device_extend_fold: "foldl device_extend h ls = (fst h, foldl view_write (snd h) ls)"
  by (induction ls arbitrary: h) (simp_all add: device_extend_def)

lemma device_lines:
  assumes "pending v = []" and "length (complete v) \<le> 10"
    and "\<forall>c \<in> set clients. client_ok True c" and "set is \<subseteq> {..<length clients}"
  shows "device_service.content_of clients (K, v) is =
     (K, \<lparr>complete = last_n 10 (complete v @ map (\<lambda>i. client_line (clients ! i)) is), pending = []\<rparr>)"
proof -
  have "\<forall>l \<in> set (map (\<lambda>i. client_line (clients ! i)) is). is_line l"
    using assms(3,4) client_line_is_line by fastforce
  from view_write_lines [OF this assms(1,2)] show ?thesis
    by (simp add: device_service.content_of_def device_extend_fold)
qed

text \<open>A client's line fits if it is no longer than the largest block.\<close>

definition device_clients_ok :: "device_file \<Rightarrow> client list \<Rightarrow> bool" where
  "device_clients_ok d clients \<longleftrightarrow>
     file_inv d \<and> kernel_roomy (kern d) \<and> pending (view (wld d)) = [] \<and>
     (\<forall>c \<in> set clients. client_ok True c \<and> length (client_line c) \<le> kmalloc_max (kern d))"

lemma device_clientsD:
  assumes "device_clients_ok d clients"
  shows "file_inv d" and "\<forall>c \<in> set clients. client_ok True c"
    and "length (complete (view (wld d))) \<le> 10" and "pending (view (wld d)) = []"
    and "device_service.room_for_all clients (device_content d)"
proof -
  show inv: "file_inv d" and ok: "\<forall>c \<in> set clients. client_ok True c" and pend: "pending (view (wld d)) = []"
    using assms by (simp_all add: device_clients_ok_def)
  show len: "length (complete (view (wld d))) \<le> 10"
    using inv stored_count_le by (simp add: file_inv_def dev_inv_def complete_view)
  have "length (client_line (clients ! i)) \<le> device_room (device_service.content_of clients (device_content d) is)"
    if sub: "set (is @ [i]) \<subseteq> {..<length clients}" for "is" i
  proof -
    have "clients ! i \<in> set clients" and sub': "set is \<subseteq> {..<length clients}" using sub by auto
    then have "length (client_line (clients ! i)) \<le> kmalloc_max (kern d)"
      using assms by (simp add: device_clients_ok_def)
    with assms show ?thesis
      unfolding device_content_def device_lines [OF pend len ok sub']
      by (simp add: device_room_def device_clients_ok_def)
  qed
  then show "device_service.room_for_all clients (device_content d)"
    unfolding device_service.room_for_all_def by blast
qed

lemma device_run:
  assumes ok: "device_clients_ok d clients"
    and run: "(service_step (device_api policy) True reopen_device clients)\<^sup>*\<^sup>* (service_start d) s"
  shows "device_service.service_inv clients (device_content d) s"
  using device_service.service_run_inv [OF run] device_service.service_inv_start device_clientsD [OF ok]
  by blast

section \<open>The temporary file\<close>

definition reopen_temp :: "temp_file \<Rightarrow> temp_file" where
  "reopen_temp f = f\<lparr>toffs := 0\<rparr>"

interpretation temp_service: shared_file "temp_api policy" "\<lambda>f. drop (toffs f) (tbytes f)" "\<lambda>_. True" "2 ^ 64"
    temp_content toffs temp_extend fst snd reopen_temp
  for policy
  by unfold_locales (simp add: reopen_temp_def temp_content_def)

lemma temp_lines:
  "temp_service.content_of clients h is =
     (fst h @ concat (map (\<lambda>i. client_line (clients ! i)) is),
      snd h - sum_list (map (\<lambda>i. length (client_line (clients ! i))) is))"
  unfolding temp_service.content_of_def
  by (induction "is" rule: rev_induct) (simp_all add: temp_extend_def)

lemma sum_some_clients:
  fixes len :: "client \<Rightarrow> nat"
  assumes "distinct is" and "set is \<subseteq> {..<length clients}"
  shows "sum_list (map (\<lambda>i. len (clients ! i)) is) \<le> sum_list (map len clients)"
proof -
  have "sum_list (map (\<lambda>i. len (clients ! i)) is) = (\<Sum>i\<in>set is. len (clients ! i))"
    using assms(1) by (simp add: sum_list_distinct_conv_sum_set)
  also have "\<dots> \<le> (\<Sum>i\<in>{..<length clients}. len (clients ! i))"
    using assms(2) by (intro sum_mono2) simp_all
  also have "\<dots> = sum_list (map len clients)"
    by (simp add: sum_list_sum_nth atLeast0LessThan)
  finally show ?thesis .
qed

definition temp_clients_ok :: "temp_file \<Rightarrow> client list \<Rightarrow> bool" where
  "temp_clients_ok d clients \<longleftrightarrow>
     (\<forall>c \<in> set clients. client_ok False c) \<and>
     sum_list (map (\<lambda>c. length (client_line c)) clients) \<le> disk_free d"

lemma temp_room:
  assumes "temp_clients_ok d clients"
  shows "temp_service.room_for_all clients (temp_content d)"
proof -
  have "length (client_line (clients ! i)) \<le> snd (temp_service.content_of clients (temp_content d) is)"
    if "distinct (is @ [i])" "set (is @ [i]) \<subseteq> {..<length clients}" for "is" i
  proof -
    have "sum_list (map (\<lambda>i. length (client_line (clients ! i))) is) + length (client_line (clients ! i))
        \<le> disk_free d"
      using sum_some_clients [OF that, of "\<lambda>c. length (client_line c)"] assms
      by (simp add: temp_clients_ok_def)
    then show ?thesis by (simp add: temp_lines temp_content_def)
  qed
  then show ?thesis unfolding temp_service.room_for_all_def by blast
qed

lemma temp_run:
  assumes ok: "temp_clients_ok d clients"
    and run: "(service_step (temp_api policy) False reopen_temp clients)\<^sup>*\<^sup>* (service_start d) s"
  shows "temp_service.service_inv clients (temp_content d) s"
  using temp_service.service_run_inv [OF run] temp_service.service_inv_start temp_room [OF ok] ok
  unfolding temp_clients_ok_def by blast

end
