(* ===== verification/Timer_Handler.thy ===== *)
theory Timer_Handler
  imports Socket_Commands
begin

text \<open>
  Model of \<open>timer_expired_handler\<close> of server/aesdsocket.c, which the build on a temporary
  file runs every ten seconds: it formats a timestamp and appends it to the data file under
  the file mutex. The effects of one run are a list of events, in order.
\<close>

text \<open>The fields of \<open>struct tm\<close> that the format uses.\<close>

record tm =
  tm_year :: nat
  tm_mon :: nat
  tm_mday :: nat
  tm_hour :: nat
  tm_min :: nat
  tm_sec :: nat

definition two_digits :: "nat \<Rightarrow> byte list" where
  "two_digits n = [48 + of_nat (n div 10 mod 10), 48 + of_nat (n mod 10)]"

text \<open>\<open>strftime\<close> with the format of the code; 0 bytes when the buffer is too small.\<close>

definition timestamp :: "tm \<Rightarrow> byte list" where
  "timestamp t =
     bytes_of ''timestamp: '' @ decimal (1900 + tm_year t) @ bytes_of '', '' @
     two_digits (Suc (tm_mon t)) @ bytes_of '', '' @ two_digits (tm_mday t) @ bytes_of '', '' @
     two_digits (tm_hour t) @ bytes_of '', '' @ two_digits (tm_min t) @ bytes_of '', '' @
     two_digits (tm_sec t) @ [newline]"

definition strftime :: "nat \<Rightarrow> tm \<Rightarrow> byte list" where
  "strftime maxsize t = (if length (timestamp t) < maxsize then timestamp t else [])"

text \<open>What the calls of one run return. \<open>fwrite_short\<close> is how many bytes \<open>fwrite\<close> did not
  write.\<close>

record timer_env =
  time_ok :: bool
  tm_malloc :: ptr
  local_time :: "tm option"
  timer_data_ptr :: ptr
  timer_lock_rc :: int
  file_opens :: bool
  fwrite_short :: nat

datatype timer_event =
    AllocTm ptr
  | LockFile
  | OpenFile
  | Append "byte list"
  | CloseFile
  | UnlockFile
  | FreeTm ptr

text \<open>The two labels: the first falls through to the second.\<close>

definition timer_expired_exit :: "timer_env \<Rightarrow> timer_event list" where
  "timer_expired_exit env = [FreeTm (tm_malloc env)]"

definition timer_expired_close_file :: "timer_env \<Rightarrow> timer_event list" where
  "timer_expired_close_file env = [CloseFile, UnlockFile] @ timer_expired_exit env"

definition timer_expired_handler :: "timer_env \<Rightarrow> timer_event list" where
  "timer_expired_handler env =
     (if \<not> time_ok env then []
      else if tm_malloc env = NULL then []
      else
        AllocTm (tm_malloc env) #
        (case local_time env of
           None \<Rightarrow> timer_expired_exit env
         | Some t \<Rightarrow>
             let time_str = strftime 1024 t; str_size = length time_str in
             if str_size = 0 then timer_expired_exit env
             else if timer_data_ptr env = NULL then timer_expired_exit env
             else if timer_lock_rc env \<noteq> 0 then timer_expired_exit env
             else
               LockFile #
               (if \<not> file_opens env then timer_expired_exit env
                else
                  [OpenFile, Append (take (str_size - fwrite_short env) time_str)] @
                  timer_expired_close_file env)))"

section \<open>What a run leaves behind\<close>

definition frees_all :: "timer_event list \<Rightarrow> bool" where
  "frees_all evs \<longleftrightarrow> (\<forall>p. count_list evs (AllocTm p) = count_list evs (FreeTm p))"

definition mutex_balanced :: "timer_event list \<Rightarrow> bool" where
  "mutex_balanced evs \<longleftrightarrow> count_list evs LockFile = count_list evs UnlockFile"

lemma timestamp_length: "0 < length (timestamp t)"
  by (simp add: timestamp_def)

lemma timer_frees: "frees_all (timer_expired_handler env)"
  by (auto simp: frees_all_def timer_expired_handler_def timer_expired_exit_def
      timer_expired_close_file_def Let_def split: option.split)

lemma timer_balanced:
  "mutex_balanced (timer_expired_handler env) \<longleftrightarrow>
     \<not> (LockFile \<in> set (timer_expired_handler env) \<and> \<not> file_opens env)"
  by (auto simp: mutex_balanced_def timer_expired_handler_def timer_expired_exit_def
      timer_expired_close_file_def Let_def split: option.split)

lemma decimal_year_length: "tm_year t < 8100 \<Longrightarrow> length (decimal (1900 + tm_year t)) \<le> 4"
  by (rule decimal_length) simp_all

lemma timestamp_short: "tm_year t < 8100 \<Longrightarrow> length (timestamp t) < 60"
  using decimal_year_length [of t] by (simp add: timestamp_def bytes_of_def two_digits_def)

lemma timer_appends:
  assumes "time_ok env" and "tm_malloc env \<noteq> NULL" and "local_time env = Some t" and "tm_year t < 8100"
    and "timer_data_ptr env \<noteq> NULL" and "timer_lock_rc env = 0" and "file_opens env"
    and "fwrite_short env = 0"
  shows "timer_expired_handler env =
     [AllocTm (tm_malloc env), LockFile, OpenFile, Append (timestamp t), CloseFile, UnlockFile,
      FreeTm (tm_malloc env)]"
proof -
  have "length (timestamp t) < 1024"
    using timestamp_short [OF assms(4)] by simp
  then show ?thesis
    using assms timestamp_length [of t]
    by (simp add: timer_expired_handler_def timer_expired_close_file_def timer_expired_exit_def
        strftime_def Let_def)
qed

end
