(* ===== verification/Driver_Module.thy ===== *)
theory Driver_Module
  imports Device_File Transition
begin

text \<open>
  Loading and unloading the driver module (\<open>aesd_setup_cdev\<close>, \<open>aesd_init_module\<close>,
  \<open>aesd_cleanup_module\<close> of aesd-char-driver/main.c), and the module as a transition system whose
  steps are the calls of its handlers.
\<close>

section \<open>Loading and unloading\<close>

text \<open>
  The kernel's character-device services, a parameter: \<open>alloc_chrdev_region\<close> with the device
  number it assigns and its return value, \<open>cdev_add\<close> with its return value, and the
  macros \<open>MAJOR\<close> and \<open>MKDEV\<close>.
\<close>

record chrdev_api =
  alloc_chrdev_region :: "u32 \<Rightarrow> u32 \<times> int"
  cdev_add :: "u32 \<Rightarrow> int"
  MAJOR :: "u32 \<Rightarrow> u32"
  MKDEV :: "u32 \<Rightarrow> u32 \<Rightarrow> u32"

text \<open>The module's globals, the device with its heap, and the registered device numbers.\<close>

record module_state =
  aesd_major :: u32
  aesd_minor :: u32
  world_of :: world
  regions :: "u32 set"

definition aesd_setup_cdev :: "chrdev_api \<Rightarrow> module_state \<Rightarrow> int \<times> module_state" where
  "aesd_setup_cdev A s =
     (let devno = MKDEV A (aesd_major s) (aesd_minor s);
          err = cdev_add A devno;
          w = world_of s
      in (err, s\<lparr>world_of := w\<lparr>dev := (dev w)\<lparr>cdev_live := (err = 0)\<rparr>\<rparr>\<rparr>))"

text \<open>The device after \<open>memset\<close>, \<open>mutex_init\<close> and \<open>aesd_circular_buffer_init\<close>.\<close>

definition fresh_device :: aesd_dev where
  "fresh_device =
     \<lparr>buf_entry = zero_entry,
      circular_buf = aesd_circular_buffer_init
        \<lparr>entry = replicate 10 zero_entry, in_offs = 0, out_offs = 0, full = False\<rparr>,
      mutex_held = False, cdev_live = False\<rparr>"

definition aesd_init_module :: "chrdev_api \<Rightarrow> module_state \<Rightarrow> int \<times> module_state" where
  "aesd_init_module A s =
     (let (devno, result) = alloc_chrdev_region A (aesd_minor s);
          s1 = s\<lparr>aesd_major := MAJOR A devno\<rparr>
      in if result < 0 then (result, s1)
         else
           let s2 = s1\<lparr>regions := insert devno (regions s1),
                       world_of := (world_of s1)\<lparr>dev := fresh_device\<rparr>\<rparr>;
               (result', s3) = aesd_setup_cdev A s2
           in (result', if result' \<noteq> 0 then s3\<lparr>regions := regions s3 - {devno}\<rparr> else s3))"

text \<open>
  What \<open>aesd_cleanup_module\<close> does with one array element: a non-null pointer is freed and set
  to null. The loop over the array is \<open>foreach_entry\<close> of \<open>Circular_Buffer\<close>.
\<close>

definition free_entry :: "kernel \<Rightarrow> aesd_buffer_entry \<Rightarrow> heap \<Rightarrow> fault + aesd_buffer_entry \<times> heap" where
  "free_entry K e h =
     (if buffptr e \<noteq> NULL then
        and_then (kfree_checked K h (buffptr e)) (\<lambda>h'. Inr (e\<lparr>buffptr := NULL\<rparr>, h'))
      else Inr (e, h))"

lemma free_entry_simps [simp]:
  "buffptr e = NULL \<Longrightarrow> free_entry K e h = Inr (e, h)"
  "buffptr e \<noteq> NULL \<Longrightarrow> free_entry K e h =
     and_then (kfree_checked K h (buffptr e)) (\<lambda>h'. Inr (e\<lparr>buffptr := NULL\<rparr>, h'))"
  by (simp_all add: free_entry_def)

definition aesd_cleanup_module :: "chrdev_api \<Rightarrow> kernel \<Rightarrow> module_state \<Rightarrow> fault + module_state" where
  "aesd_cleanup_module A K s =
     (let devno = MKDEV A (aesd_major s) (aesd_minor s);
          w = world_of s;
          d = (dev w)\<lparr>cdev_live := False\<rparr>
      in and_then (foreach_entry (free_entry K) 0 (circular_buf d) (mem w))
           (\<lambda>(b, h). Inr (s\<lparr>world_of := \<lparr>dev = d\<lparr>circular_buf := b\<rparr>, mem = h\<rparr>,
                           regions := regions s - {devno}\<rparr>)))"

lemma fresh_device_inv:
  "mem w = Map.empty \<Longrightarrow> dev w = fresh_device\<lparr>cdev_live := c\<rparr> \<Longrightarrow>
   dev_inv K w \<and> view w = \<lparr>complete = [], pending = []\<rparr>"
  by (simp add: dev_inv_def fresh_device_def pending_ok_def zero_entry_def owned_def view_def
      entry_bytes_def)

text \<open>A successful load gives a device in its invariant, empty and unlocked.\<close>

lemma init_module_result:
  assumes "mem (world_of s) = Map.empty"
  shows "case aesd_init_module A s of (rc, s') \<Rightarrow>
     rc = 0 \<longrightarrow> dev_inv K (world_of s') \<and> view (world_of s') = \<lparr>complete = [], pending = []\<rparr> \<and>
       \<not> mutex_held (dev (world_of s')) \<and> cdev_live (dev (world_of s')) \<and>
       fst (alloc_chrdev_region A (aesd_minor s)) \<in> regions s'"
  using assms fresh_device_inv [of "(world_of s)\<lparr>dev := fresh_device\<lparr>cdev_live := True\<rparr>\<rparr>" True K]
  by (auto simp: aesd_init_module_def aesd_setup_cdev_def Let_def fresh_device_def split: prod.splits)

text \<open>A failed load registers no device number.\<close>

lemma init_module_failed:
  "case aesd_init_module A s of (rc, s') \<Rightarrow> rc \<noteq> 0 \<longrightarrow> regions s' \<subseteq> regions s"
  by (auto simp: aesd_init_module_def aesd_setup_cdev_def Let_def split: prod.splits)

section \<open>What unloading frees\<close>

text \<open>The non-null pointers of the array are those of the stored entries.\<close>

lemma stored_rotate:
  assumes "cb_inv b" and "full b"
  shows "stored b = rotate (unat (out_offs b)) (entry b)"
  using assms
  by (auto simp: stored_def stored_count_def slot_def cb_inv_def nth_rotate simp del: upt_Suc
      intro!: nth_equalityI)

definition live_ptrs :: "aesd_buffer_entry list \<Rightarrow> ptr list" where
  "live_ptrs es = filter (\<lambda>p. p \<noteq> NULL) (map buffptr es)"

lemma live_ptrs_array:
  assumes inv: "dev_wf L K w"
  defines "b \<equiv> circular_buf (dev w)"
  shows "distinct (live_ptrs (entry b))" and "set (live_ptrs (entry b)) = buffptr ` set (stored b)"
proof -
  note cbi = dev_wfD(1) [OF inv, folded b_def]
  have nn: "\<And>e. e \<in> set (stored b) \<Longrightarrow> buffptr e \<noteq> NULL"
    using stored_ptr_mem(1) [OF inv] by (simp add: b_def)
  have dist: "distinct (map buffptr (stored b))"
    using dev_wfD(4) [OF inv] by (simp add: owned_def b_def)
  have "distinct (live_ptrs (entry b)) \<and> set (live_ptrs (entry b)) = buffptr ` set (stored b)"
  proof (cases "full b")
    case True
    then have "stored b = rotate (unat (out_offs b)) (entry b)" by (rule stored_rotate [OF cbi])
    then have "set (entry b) = set (stored b)" "distinct (map buffptr (entry b))"
      using dist by (simp_all add: rotate_map flip: rotate_map)
    with nn show ?thesis by (auto simp: live_ptrs_def)
  next
    case False
    let ?k = "unat (in_offs b)"
    have st: "stored b = take ?k (entry b)" using stored_not_full [OF cbi False] .
    have "drop ?k (entry b) = replicate (10 - ?k) zero_entry"
      using cbi False by (auto simp: cb_inv_def intro!: nth_equalityI)
    then have "entry b = stored b @ replicate (10 - ?k) zero_entry"
      by (metis st append_take_drop_id)
    then have "live_ptrs (entry b) = live_ptrs (stored b)"
      by (simp add: live_ptrs_def zero_entry_def)
    also have "\<dots> = map buffptr (stored b)"
      using nn by (simp add: live_ptrs_def filter_map comp_def filter_id_conv)
    finally show ?thesis using dist by simp
  qed
  then show "distinct (live_ptrs (entry b))" and "set (live_ptrs (entry b)) = buffptr ` set (stored b)"
    by blast+
qed

lemma visit_free_result:
  assumes "kfree_ok K" and "distinct (live_ptrs es)" and "set (live_ptrs es) \<subseteq> dom h"
  shows "\<exists>es'. visit_entries (free_entry K) es h = Inr (es', h |` (- set (live_ptrs es))) \<and> live_ptrs es' = []"
  using assms(2,3)
proof (induction es arbitrary: h)
  case Nil
  then show ?case by (simp add: live_ptrs_def)
next
  case (Cons e es)
  show ?case
  proof (cases "buffptr e = NULL")
    case True
    then have lp: "live_ptrs (e # xs) = live_ptrs xs" for xs by (simp add: live_ptrs_def)
    obtain es' where "visit_entries (free_entry K) es h = Inr (es', h |` (- set (live_ptrs es)))"
        "live_ptrs es' = []"
      using Cons.IH [of h] Cons.prems unfolding lp by blast
    with True show ?thesis by (simp add: lp)
  next
    case False
    let ?h = "h(buffptr e := None)"
    have lp: "live_ptrs (e # es) = buffptr e # live_ptrs es" using False by (simp add: live_ptrs_def)
    with Cons.prems have "kfree_checked K h (buffptr e) = Inr ?h"
      using assms(1) False by (auto simp: kfree_checked_def kfree_ok_def)
    moreover have "distinct (live_ptrs es)" and "set (live_ptrs es) \<subseteq> dom ?h"
      using Cons.prems lp by auto
    then obtain es' where "visit_entries (free_entry K) es ?h = Inr (es', ?h |` (- set (live_ptrs es)))"
        "live_ptrs es' = []"
      using Cons.IH [of ?h] by blast
    moreover have "?h |` (- set (live_ptrs es)) = h |` (- set (live_ptrs (e # es)))"
      by (auto simp: lp restrict_map_def)
    moreover have "live_ptrs (e\<lparr>buffptr := NULL\<rparr> # es') = live_ptrs es'" for es'
      by (simp add: live_ptrs_def)
    ultimately show ?thesis using False by simp
  qed
qed

text \<open>After unloading, the blocks left are that of a pending line and those lost before.\<close>

lemma cleanup_module_heap:
  assumes inv: "dev_wf L K (world_of s)" and kf: "kfree_ok K"
  defines "pend \<equiv> buffptr (buf_entry (dev (world_of s)))"
  shows "\<exists>s'. aesd_cleanup_module A K s = Inr s' \<and>
     dom (mem (world_of s')) = (if pend = NULL then {} else {pend}) \<union> L \<and>
     live_ptrs (entry (circular_buf (dev (world_of s')))) = [] \<and>
     \<not> cdev_live (dev (world_of s'))"
proof -
  let ?w = "world_of s" and ?es = "entry (circular_buf (dev (world_of s)))"
  note lp = live_ptrs_array [OF inv]
  have dom: "dom (mem ?w) = set (live_ptrs ?es) \<union> (if pend = NULL then {} else {pend}) \<union> L"
    using dev_wfD(5) [OF inv] lp(2) by (simp add: owned_def pend_def)
  have notin: "pend \<noteq> NULL \<Longrightarrow> pend \<notin> set (live_ptrs ?es)"
    using dev_wfD(4) [OF inv] lp(2) by (auto simp: owned_def pend_def)
  have disj: "set (live_ptrs ?es) \<inter> L = {}"
    using dev_wfD(6) [OF inv] lp(2) by (auto simp: owned_def)
  have "set (live_ptrs ?es) \<subseteq> dom (mem ?w)" by (auto simp: dom)
  from visit_free_result [OF kf lp(1) this] obtain es' where
    "visit_entries (free_entry K) ?es (mem ?w) = Inr (es', mem ?w |` (- set (live_ptrs ?es)))"
    "live_ptrs es' = []" by blast
  then show ?thesis
    using dom notin disj dev_wfD(1) [OF inv]
    by (auto simp: aesd_cleanup_module_def foreach_entry_all cb_inv_def Let_def split: if_splits)
qed

section \<open>The handlers as steps\<close>

text \<open>
  One step is one completed call of a handler, under any kernel that behaves as documented
  (its calls may fail, be interrupted or refuse memory; the size limit of \<open>kmalloc\<close> does
  not change). With \<open>has_memory\<close> no reallocation of a write fails.
\<close>

inductive driver_step :: "bool \<Rightarrow> kernel \<Rightarrow> world \<Rightarrow> world \<Rightarrow> bool" for has_memory :: bool and K0 :: kernel where
  call_write: "kernel_ok K \<Longrightarrow> kmalloc_max K = kmalloc_max K0 \<Longrightarrow> unat count < 2 ^ 31 \<Longrightarrow>
    aesd_write K filp buf count pos w = Inr (ret, pos', w') \<Longrightarrow> \<not> (has_memory \<and> ret = Inl ENOMEM) \<Longrightarrow>
    driver_step has_memory K0 w w'"
| call_read: "kernel_ok K \<Longrightarrow> kmalloc_max K = kmalloc_max K0 \<Longrightarrow>
    aesd_read K filp buf count pos w = Inr (ret, buf', pos', w') \<Longrightarrow> driver_step has_memory K0 w w'"
| call_llseek: "kernel_ok K \<Longrightarrow> aesd_llseek K fp off whence w = Some (res, fp', w') \<Longrightarrow>
    driver_step has_memory K0 w w'"
| call_ioctl: "kernel_ok K \<Longrightarrow> aesd_ioctl K fp cmd arg w = Some (Inr (ret', fp', w')) \<Longrightarrow>
    driver_step has_memory K0 w w'"

text \<open>
  What a handler does to the state apart from the mutex: nothing, unless it is a write, and
  then what \<open>aesd_write_locked\<close> does. It leaves the mutex as it was or free.
\<close>

definition mutex_only :: "world \<Rightarrow> world \<Rightarrow> bool" where
  "mutex_only w w' \<longleftrightarrow>
     (\<exists>m. w' = w\<lparr>dev := (dev w)\<lparr>mutex_held := m\<rparr>\<rparr> \<and> (m \<longrightarrow> mutex_held (dev w)))"

lemma lock_dev_cases:
  assumes "mutex_ok K" and "lock_dev K w = (w1, rc)"
  obtains m where "w1 = w\<lparr>dev := (dev w)\<lparr>mutex_held := m\<rparr>\<rparr>"
    and "rc \<noteq> 0 \<Longrightarrow> m = mutex_held (dev w)"
  using assms mutex_lock_interruptibleD [OF assms(1)]
  by (auto simp: lock_dev_def split: prod.splits)

lemma mutex_only_refl: "mutex_only w w"
  by (auto simp: mutex_only_def intro: exI [of _ "mutex_held (dev w)"])

lemma mutex_only_lock:
  "mutex_ok K \<Longrightarrow> lock_dev K w = (w1, rc) \<Longrightarrow> rc \<noteq> 0 \<Longrightarrow> mutex_only w w1"
  by (auto simp: mutex_only_def elim!: lock_dev_cases)

lemma mutex_only_unlock:
  "mutex_ok K \<Longrightarrow> mutex_only w (unlock_dev K (w\<lparr>dev := (dev w)\<lparr>mutex_held := m\<rparr>\<rparr>))"
  by (auto simp: mutex_only_def unlock_dev_def intro: exI [of _ False])

lemma read_locked_world:
  "aesd_read_locked K ubuf count pos w = Inr (ret, ubuf', pos', w') \<Longrightarrow> w' = w"
  by (auto simp: aesd_read_locked_def Let_def case_prod_unfold split: option.splits if_splits)

lemma read_mutex_only:
  assumes mx: "mutex_ok K" and res: "aesd_read K filp buf count pos w = Inr (ret, buf', pos', w')"
  shows "mutex_only w w'"
proof -
  obtain w1 rc where lock: "lock_dev K w = (w1, rc)" by fastforce
  then obtain m where w1: "w1 = w\<lparr>dev := (dev w)\<lparr>mutex_held := m\<rparr>\<rparr>" using lock_dev_cases [OF mx] by metis
  from res lock mutex_only_refl mutex_only_lock [OF mx lock] mutex_only_unlock [OF mx, of w m] show ?thesis
    by (auto simp: aesd_read_def w1 dest!: read_locked_world split: option.splits if_splits)
qed

lemma llseek_mutex_only:
  assumes "mutex_ok K" and "aesd_llseek K fp off whence w = Some (res, fp', w')"
  shows "mutex_only w w'"
  using assms mutex_only_refl [of w] mutex_only_unlock [of K w]
  by (auto simp: aesd_llseek_def Let_def split: option.splits prod.splits Option.bind_splits)

lemma ioctl_mutex_only:
  assumes mx: "mutex_ok K" and res: "aesd_ioctl K fp cmd arg w = Some (Inr (ret, fp', w'))"
  shows "mutex_only w w'"
proof -
  obtain w1 rc where lock: "lock_dev K w = (w1, rc)" by fastforce
  then obtain m where w1: "w1 = w\<lparr>dev := (dev w)\<lparr>mutex_held := m\<rparr>\<rparr>" using lock_dev_cases [OF mx] by metis
  have "w' = w \<or> rc \<noteq> 0 \<and> w' = w1 \<or> w' = unlock_dev K w1"
    using res lock
    by (auto simp: aesd_ioctl_def Let_def split: if_splits prod.splits Option.bind_splits)
  with mutex_only_refl mutex_only_lock [OF mx lock] mutex_only_unlock [OF mx, of w m] show ?thesis
    by (auto simp: w1)
qed

lemma write_effect:
  assumes mx: "mutex_ok K" and res: "aesd_write K filp buf count pos w = Inr (ret, pos', w')"
  obtains "mutex_only w w'"
  | ubuf m w2 where "aesd_write_locked K ubuf count (w\<lparr>dev := (dev w)\<lparr>mutex_held := m\<rparr>\<rparr>) = Inr (ret, w2)"
      and "w' = w2\<lparr>dev := (dev w2)\<lparr>mutex_held := False\<rparr>\<rparr>"
proof -
  obtain w1 rc where lock: "lock_dev K w = (w1, rc)" by fastforce
  then obtain m where w1: "w1 = w\<lparr>dev := (dev w)\<lparr>mutex_held := m\<rparr>\<rparr>" using lock_dev_cases [OF mx] by metis
  from res lock mutex_only_refl mutex_only_lock [OF mx lock]
  have "mutex_only w w' \<or> (\<exists>ubuf w2. aesd_write_locked K ubuf count w1 = Inr (ret, w2) \<and> w' = unlock_dev K w2)"
    by (auto simp: aesd_write_def split: option.splits if_splits)
  then show thesis using that mx by (auto simp: w1 unlock_dev_def)
qed

section \<open>Invariants of the handlers\<close>

text \<open>With memory: the device's invariant; without: what is left of it when blocks are lost.\<close>

definition driver_inv :: "kernel \<Rightarrow> world \<Rightarrow> bool" where
  "driver_inv K w \<longleftrightarrow> dev_inv K w \<and> \<not> mutex_held (dev w)"

definition driver_safe :: "kernel \<Rightarrow> world \<Rightarrow> bool" where
  "driver_safe K w \<longleftrightarrow> (\<exists>L. dev_wf L K w) \<and> \<not> mutex_held (dev w)"

lemma dev_inv_limit: "kmalloc_max K = kmalloc_max K' \<Longrightarrow> dev_inv K w = dev_inv K' w"
  by (simp add: dev_inv_def)

lemma dev_wf_limit: "kmalloc_max K = kmalloc_max K' \<Longrightarrow> dev_wf L K w = dev_wf L K' w"
  by (simp add: dev_wf_def)

lemma mutex_only_inv:
  "mutex_only w w' \<Longrightarrow> driver_inv K w \<Longrightarrow> driver_inv K w'"
  "mutex_only w w' \<Longrightarrow> driver_safe K w \<Longrightarrow> driver_safe K w'"
  by (auto simp: mutex_only_def driver_inv_def driver_safe_def)

lemma step_cases:
  assumes "driver_step has_memory K0 w w'"
  obtains "mutex_only w w'"
  | K ubuf count m ret w2 where "kernel_ok K" and "kmalloc_max K = kmalloc_max K0" and "unat count < 2 ^ 31"
      and "aesd_write_locked K ubuf count (w\<lparr>dev := (dev w)\<lparr>mutex_held := m\<rparr>\<rparr>) = Inr (ret, w2)"
      and "w' = w2\<lparr>dev := (dev w2)\<lparr>mutex_held := False\<rparr>\<rparr>" and "has_memory \<Longrightarrow> ret \<noteq> Inl ENOMEM"
  using assms
proof cases
  case (call_write K count filp buf pos ret pos')
  then have "mutex_ok K" by (simp add: kernel_ok_def)
  from write_effect [OF this call_write(4)] call_write that show thesis by metis
qed (auto simp: kernel_ok_def intro: that(1) read_mutex_only llseek_mutex_only ioctl_mutex_only)

lemma driver_step_inv:
  assumes "driver_step True K0 w w'" and inv: "driver_inv K0 w"
  shows "driver_inv K0 w'"
  using assms(1)
proof (cases rule: step_cases)
  case 1
  then show ?thesis using mutex_only_inv inv by blast
next
  case (2 K ubuf count m ret w2)
  have "dev_inv K (w\<lparr>dev := (dev w)\<lparr>mutex_held := m\<rparr>\<rparr>)"
    using inv dev_inv_limit [OF 2(2)] by (simp add: driver_inv_def)
  with 2 have "write_outcome K ubuf count (w\<lparr>dev := (dev w)\<lparr>mutex_held := m\<rparr>\<rparr>) ret w2"
    using write_locked_outcome [of K "w\<lparr>dev := (dev w)\<lparr>mutex_held := m\<rparr>\<rparr>" count ubuf]
    by (auto simp: kernel_ok_def)
  then have "dev_inv K w2"
    using 2(6) by (auto simp: write_outcome_def split: sum.splits errno.splits)
  with 2(5) dev_inv_limit [OF 2(2)] show ?thesis by (simp add: driver_inv_def)
qed

text \<open>A failed reallocation loses the pending block; the other blocks stay accounted for.\<close>

lemma lost_block_wf:
  assumes wf: "dev_wf L K w" and w': "mem w' = mem w" "circular_buf (dev w') = circular_buf (dev w)"
    "buf_entry (dev w') = (buf_entry (dev w))\<lparr>buffptr := NULL\<rparr>"
  shows "dev_wf (L \<union> ({buffptr (buf_entry (dev w))} - {NULL})) K w'"
  using wf w' by (auto simp: dev_wf_def owned_def pending_wf_def split: if_splits)

lemma driver_step_safe:
  assumes "driver_step has_memory K0 w w'" and inv: "driver_safe K0 w"
  shows "driver_safe K0 w'"
  using assms(1)
proof (cases rule: step_cases)
  case 1
  then show ?thesis using mutex_only_inv inv by blast
next
  case (2 K ubuf count m ret w2)
  let ?w1 = "w\<lparr>dev := (dev w)\<lparr>mutex_held := m\<rparr>\<rparr>"
  obtain L where wf: "dev_wf L K ?w1"
    using inv dev_wf_limit [OF 2(2)] by (auto simp: driver_safe_def)
  with 2 have "write_outcome_wf L K ubuf count ?w1 ret w2"
    using write_locked_wf [of L K ?w1 count ubuf] by (auto simp: kernel_ok_def)
  then have "\<exists>L. dev_wf L K w2"
    using lost_block_wf [OF wf] by (auto simp: write_outcome_wf_def Let_def split: if_splits)
  then obtain L' where "dev_wf L' K w2" by blast
  with 2(5) dev_wf_limit [OF 2(2), of L'] show ?thesis by (auto simp: driver_safe_def)
qed

interpretation driver: step_invariant "driver_step True K0" "driver_inv K0" for K0
  by unfold_locales (rule driver_step_inv)

interpretation driver_low: step_invariant "driver_step has_memory K0" "driver_safe K0" for has_memory K0
  by unfold_locales (rule driver_step_safe)

lemma lock_dev_result:
  obtains m rc where "lock_dev K w = (w\<lparr>dev := (dev w)\<lparr>mutex_held := m\<rparr>\<rparr>, rc)"
proof -
  obtain m rc where "mutex_lock_interruptible K (mutex_held (dev w)) = (m, rc)" by fastforce
  then show thesis using that by (simp add: lock_dev_def)
qed

text \<open>In a safe state no handler faults, but for a write of nothing to an empty pending line, and a
  read on a kernel that traps the debugging print.\<close>

lemma read_faults_only_printing:
  assumes wf: "dev_wf L K w" and k: "kernel_ok K" and fault: "aesd_read K filp buf count pos w = Inl f"
  shows "f = OutOfBounds \<and> print_traps K (view w) pos"
proof -
  obtain m rc where lock: "lock_dev K w = (w\<lparr>dev := (dev w)\<lparr>mutex_held := m\<rparr>\<rparr>, rc)"
    by (rule lock_dev_result)
  let ?w1 = "w\<lparr>dev := (dev w)\<lparr>mutex_held := m\<rparr>\<rparr>"
  obtain ubuf where "aesd_read_locked K ubuf count pos ?w1 = Inl f"
    using fault lock by (auto simp: aesd_read_def and_then_eq_Inl split: option.splits if_splits)
  then show ?thesis
    using read_locked_view [of L K ?w1 ubuf count pos] wf k
    by (auto simp: kernel_ok_def Let_def split: if_splits prod.splits)
qed

lemma read_never_faults:
  assumes "dev_wf L K w" and "kernel_ok K" and "\<not> checks_reads K"
  shows "\<exists>res. aesd_read K filp buf count pos w = Inr res"
  using read_faults_only_printing [OF assms(1,2)] print_traps_unchecked [OF assms(3)]
  by (cases "aesd_read K filp buf count pos w") auto

lemma write_never_faults:
  assumes wf: "dev_wf L K w" and k: "kernel_ok K" and count: "unat count < 2 ^ 31"
    and some: "esize (buf_entry (dev w)) \<noteq> 0 \<or> count \<noteq> 0"
  shows "\<exists>res. aesd_write K filp buf count pos w = Inr res"
proof -
  obtain m rc where lock: "lock_dev K w = (w\<lparr>dev := (dev w)\<lparr>mutex_held := m\<rparr>\<rparr>, rc)"
    by (rule lock_dev_result)
  let ?w1 = "w\<lparr>dev := (dev w)\<lparr>mutex_held := m\<rparr>\<rparr>"
  have "aesd_write_locked K ubuf count ?w1 \<noteq> Inl e" for ubuf e
    using write_locked_wf [of L K ?w1 count ubuf] wf k count some by (auto simp: kernel_ok_def)
  with lock show ?thesis
    by (auto simp: aesd_write_def and_then_def split: option.splits sum.splits)
qed

end
