(* ===== verification/Driver_Concurrency.thy ===== *)
theory Driver_Concurrency
  imports Driver_Module
begin

text \<open>
  Processes that call \<open>read\<close> and \<open>write\<close> on the device at the same time. Each call is a sequence
  of small steps - taking the mutex, growing the pending block, copying, committing, looking
  up the position, copying out, releasing the mutex - and the steps of different calls
  interleave. The calls take effect one after the other, in the order in which they release
  the mutex, each as the handler of \<open>Char_Driver\<close> says; and none faults.
\<close>

section \<open>Calls and their steps\<close>

datatype call = WriteCall "byte list" size_t | ReadCall "byte list" size_t loff_t

text \<open>What a call returns: the value; for a read also the user's buffer and the new position.\<close>

datatype reply =
    Wrote "errno + size_t"
  | GotBytes "errno + size_t" "byte list" loff_t
  | Interrupted

text \<open>Where a caller is: before the mutex, at one of the places in the critical section, or back.\<close>

datatype place =
    Outside
  | Entered
  | Grown
  | Copied
  | Located nat size_t
  | Leaving reply
  | Returned reply

definition inside :: "place \<Rightarrow> bool" where
  "inside p \<longleftrightarrow> p \<noteq> Outside \<and> (\<forall>r. p \<noteq> Returned r)"

definition working :: "place \<Rightarrow> bool" where
  "working p \<longleftrightarrow> inside p \<and> (\<forall>r. p \<noteq> Leaving r)"

text \<open>The steps of a write: reallocation, copy, size and commit.\<close>

definition write_grow :: "kernel \<Rightarrow> size_t \<Rightarrow> world \<Rightarrow> fault + place \<times> world" where
  "write_grow K count w =
     (let e = buf_entry (dev w); new_entry_size = esize e + count in
      and_then (krealloc_checked K (mem w) (buffptr e) new_entry_size)
        (\<lambda>(h1, q). Inr (if q = NULL then Leaving (Wrote (Inl ENOMEM)) else Grown,
                        w\<lparr>dev := (dev w)\<lparr>buf_entry := e\<lparr>buffptr := q\<rparr>\<rparr>, mem := h1\<rparr>)))"

definition write_copy :: "kernel \<Rightarrow> byte list \<Rightarrow> size_t \<Rightarrow> world \<Rightarrow> fault + place \<times> world" where
  "write_copy K ubuf count w =
     (let e = buf_entry (dev w); q = buffptr e in
      and_then (heap_slice (mem w) q (unat (esize e)) (unat count))
        (\<lambda>dst.
           let (dst', retval) = copy_from_user K dst ubuf
           in Inr (if retval \<noteq> 0 then Leaving (Wrote (Inl EFAULT)) else Copied,
                   w\<lparr>mem := heap_write (mem w) q (unat (esize e)) dst'\<rparr>)))"

definition write_end :: "kernel \<Rightarrow> size_t \<Rightarrow> world \<Rightarrow> fault + place \<times> world" where
  "write_end K count w =
     (let e = buf_entry (dev w) in
      and_then (write_commit K count
          (w\<lparr>dev := (dev w)\<lparr>buf_entry := \<lparr>buffptr = buffptr e, esize = esize e + count\<rparr>\<rparr>\<rparr>))
        (\<lambda>(ret, w'). Inr (Leaving (Wrote ret), w')))"

text \<open>The steps of a read: the search and the copy.\<close>

definition read_find :: "kernel \<Rightarrow> byte list \<Rightarrow> loff_t \<Rightarrow> world \<Rightarrow> fault + place" where
  "read_find K ubuf pos w =
     and_then (aesd_circular_buffer_find_entry_offset_for_fpos (print_entry_str K (mem w))
         (Some (circular_buf (dev w))) pos (Some 0))
       (\<lambda>found. case found of
          (Some idx, Some entry_offset) \<Rightarrow> Inr (Located idx entry_offset)
        | _ \<Rightarrow> Inr (Leaving (GotBytes (Inr 0) ubuf pos)))"

definition read_copy ::
  "kernel \<Rightarrow> byte list \<Rightarrow> size_t \<Rightarrow> loff_t \<Rightarrow> nat \<Rightarrow> size_t \<Rightarrow> world \<Rightarrow> fault + place" where
  "read_copy K ubuf count pos idx entry_offset w =
     (let e = entry (circular_buf (dev w)) ! idx;
          avail = esize e - entry_offset;
          bytes_read = (if count < avail then count else avail)
      in and_then (heap_slice (mem w) (buffptr e) (unat entry_offset) (unat bytes_read))
           (\<lambda>src.
              let (ubuf', retval) = copy_to_user K ubuf src
              in Inr (Leaving (if retval \<noteq> 0 then GotBytes (Inl EFAULT) ubuf' pos
                               else GotBytes (Inr bytes_read) ubuf' (pos + bytes_read)))))"

fun call_step :: "kernel \<Rightarrow> call \<Rightarrow> place \<Rightarrow> world \<Rightarrow> fault + place \<times> world" where
  "call_step K (WriteCall ubuf count) Entered w = write_grow K count w"
| "call_step K (WriteCall ubuf count) Grown w = write_copy K ubuf count w"
| "call_step K (WriteCall ubuf count) Copied w = write_end K count w"
| "call_step K (ReadCall ubuf count pos) Entered w =
     and_then (read_find K ubuf pos w) (\<lambda>p. Inr (p, w))"
| "call_step K (ReadCall ubuf count pos) (Located idx off) w =
     and_then (read_copy K ubuf count pos idx off w) (\<lambda>p. Inr (p, w))"
| "call_step K c p w = Inr (p, w)"

text \<open>
  The system: the device, the place of every caller, the calls that have returned with their
  replies, in order (not in the code), and whether something faulted. With \<open>signals\<close>, a
  signal may interrupt a caller that waits for the mutex.
\<close>

record system =
  device :: world
  place_of :: "nat \<Rightarrow> place"
  returned :: "(nat \<times> reply) list"
  crashed :: bool

inductive system_step :: "bool \<Rightarrow> kernel \<Rightarrow> call list \<Rightarrow> system \<Rightarrow> system \<Rightarrow> bool" for signals K calls where
  enter: "i < length calls \<Longrightarrow> place_of s i = Outside \<Longrightarrow> \<not> mutex_held (dev (device s)) \<Longrightarrow>
    system_step signals K calls s
      (s\<lparr>device := (device s)\<lparr>dev := (dev (device s))\<lparr>mutex_held := True\<rparr>\<rparr>,
         place_of := (place_of s)(i := Entered)\<rparr>)"
| interrupt: "signals \<Longrightarrow> i < length calls \<Longrightarrow> place_of s i = Outside \<Longrightarrow>
    system_step signals K calls s (s\<lparr>place_of := (place_of s)(i := Returned Interrupted)\<rparr>)"
| work: "i < length calls \<Longrightarrow> working (place_of s i) \<Longrightarrow>
    call_step K (calls ! i) (place_of s i) (device s) = Inr (p, w) \<Longrightarrow>
    system_step signals K calls s (s\<lparr>device := w, place_of := (place_of s)(i := p)\<rparr>)"
| faults: "i < length calls \<Longrightarrow> working (place_of s i) \<Longrightarrow>
    call_step K (calls ! i) (place_of s i) (device s) = Inl f \<Longrightarrow>
    system_step signals K calls s (s\<lparr>crashed := True\<rparr>)"
| leave: "i < length calls \<Longrightarrow> place_of s i = Leaving r \<Longrightarrow>
    system_step signals K calls s
      (s\<lparr>device := (device s)\<lparr>dev := (dev (device s))\<lparr>mutex_held := False\<rparr>\<rparr>,
         place_of := (place_of s)(i := Returned r), returned := returned s @ [(i, r)]\<rparr>)"

definition system_start :: "world \<Rightarrow> system" where
  "system_start w = \<lparr>device = w, place_of = (\<lambda>_. Outside), returned = [], crashed = False\<rparr>"

section \<open>The rest of a call\<close>

text \<open>What remains to be done from a place in the critical section, as one computation.\<close>

fun rest_of :: "kernel \<Rightarrow> call \<Rightarrow> place \<Rightarrow> world \<Rightarrow> fault + reply \<times> world" where
  "rest_of K c (Leaving r) w = Inr (r, w)"
| "rest_of K (WriteCall ubuf count) Entered w =
     and_then (aesd_write_locked K ubuf count w) (\<lambda>(ret, w'). Inr (Wrote ret, w'))"
| "rest_of K (WriteCall ubuf count) Grown w =
     and_then (write_copy K ubuf count w) (\<lambda>(p, w').
       case p of Leaving r \<Rightarrow> Inr (r, w')
       | _ \<Rightarrow> and_then (write_end K count w') (\<lambda>(p', w''). case p' of Leaving r \<Rightarrow> Inr (r, w'') | _ \<Rightarrow> Inr (Interrupted, w'')))"
| "rest_of K (WriteCall ubuf count) Copied w =
     and_then (write_end K count w) (\<lambda>(p', w''). case p' of Leaving r \<Rightarrow> Inr (r, w'') | _ \<Rightarrow> Inr (Interrupted, w''))"
| "rest_of K (ReadCall ubuf count pos) Entered w =
     and_then (aesd_read_locked K ubuf count pos w) (\<lambda>(ret, ubuf', pos', w'). Inr (GotBytes ret ubuf' pos', w'))"
| "rest_of K (ReadCall ubuf count pos) (Located idx off) w =
     and_then (read_copy K ubuf count pos idx off w) (\<lambda>p. case p of Leaving r \<Rightarrow> Inr (r, w) | _ \<Rightarrow> Inr (Interrupted, w))"
| "rest_of K c p w = Inr (Interrupted, w)"

text \<open>The small steps of a write make up the critical section of \<open>aesd_write\<close>, those of a read
  that of \<open>aesd_read\<close>.\<close>

lemma write_end_leaves: "write_end K count w = Inr (p, w') \<Longrightarrow> \<exists>r. p = Leaving r"
  by (auto simp: write_end_def Let_def)

lemma read_find_goes:
  "read_find K ubuf pos w = Inr p \<Longrightarrow> (\<exists>idx off. p = Located idx off) \<or> (\<exists>r. p = Leaving r)"
  by (auto simp: read_find_def and_then_def simp del: and_then_eq_Inr
      split: sum.splits prod.splits option.splits)

lemma write_end_rest:
  "and_then (write_end K count w) (\<lambda>(p', w''). case p' of Leaving r \<Rightarrow> Inr (r, w'') | _ \<Rightarrow> Inr (Interrupted, w'')) =
   and_then (write_commit K count
      (w\<lparr>dev := (dev w)\<lparr>buf_entry := \<lparr>buffptr = buffptr (buf_entry (dev w)), esize = esize (buf_entry (dev w)) + count\<rparr>\<rparr>\<rparr>))
     (\<lambda>(ret, w'). Inr (Wrote ret, w'))"
  by (simp add: write_end_def Let_def and_then_assoc case_prod_unfold del: and_then_eq_Inr)

lemma grow_rest:
  "rest_of K (WriteCall ubuf count) Entered w =
   and_then (write_grow K count w) (\<lambda>(p, w'). rest_of K (WriteCall ubuf count) p w')"
proof (cases "krealloc_checked K (mem w) (buffptr (buf_entry (dev w))) (esize (buf_entry (dev w)) + count)")
  case (Inl f)
  then show ?thesis by (simp add: aesd_write_locked_def write_grow_def Let_def)
next
  case (Inr hq)
  obtain h1 q where hq: "hq = (h1, q)" by fastforce
  show ?thesis
  proof (cases "q = NULL")
    case True
    with Inr hq show ?thesis by (simp add: aesd_write_locked_def write_grow_def Let_def)
  next
    case False
    let ?e = "buf_entry (dev w)"
    let ?w1 = "w\<lparr>dev := (dev w)\<lparr>buf_entry := ?e\<lparr>buffptr := q\<rparr>\<rparr>, mem := h1\<rparr>"
    have g: "write_grow K count w = Inr (Grown, ?w1)"
      using Inr hq False by (simp add: write_grow_def Let_def)
    show ?thesis
    proof (cases "heap_slice h1 q (unat (esize ?e)) (unat count)")
      case (Inl f)
      with Inr hq False g show ?thesis
        by (simp add: aesd_write_locked_def write_copy_def Let_def)
    next
      case (Inr dst)
      obtain dst' r where cp: "copy_from_user K dst ubuf = (dst', r)" by fastforce
      show ?thesis
        using Inr cp hq False g \<open>krealloc_checked _ _ _ _ = Inr hq\<close> write_end_rest
        by (cases "r = 0") (simp_all add: aesd_write_locked_def write_copy_def Let_def)
    qed
  qed
qed

lemma find_rest:
  "rest_of K (ReadCall ubuf count pos) Entered w =
   and_then (read_find K ubuf pos w) (\<lambda>p. rest_of K (ReadCall ubuf count pos) p w)"
proof (cases "aesd_circular_buffer_find_entry_offset_for_fpos (print_entry_str K (mem w))
    (Some (circular_buf (dev w))) pos (Some 0)")
  case (Inl x)
  then show ?thesis by (simp add: aesd_read_locked_def read_find_def Let_def)
next
  case (Inr found)
  obtain oi oo where f: "aesd_circular_buffer_find_entry_offset_for_fpos (print_entry_str K (mem w))
      (Some (circular_buf (dev w))) pos (Some 0) = Inr (oi, oo)"
    using Inr by fastforce
  show ?thesis
  proof (cases "oi = None \<or> oo = None")
    case True
    with f show ?thesis
      by (cases oi; cases oo) (simp_all add: aesd_read_locked_def read_find_def Let_def)
  next
    case False
    then obtain idx off where io: "oi = Some idx" "oo = Some off" by auto
    let ?e = "entry (circular_buf (dev w)) ! idx"
    let ?n = "if count < esize ?e - off then count else esize ?e - off"
    show ?thesis
    proof (cases "heap_slice (mem w) (buffptr ?e) (unat off) (unat ?n)")
      case (Inl x)
      with f io show ?thesis by (simp add: aesd_read_locked_def read_find_def read_copy_def Let_def)
    next
      case (Inr src)
      obtain ubuf' r where "copy_to_user K ubuf src = (ubuf', r)" by fastforce
      with Inr f io show ?thesis
        by (cases "r = 0") (simp_all add: aesd_read_locked_def read_find_def read_copy_def Let_def)
    qed
  qed
qed

text \<open>Places a call of each kind can be at.\<close>

fun at_place :: "call \<Rightarrow> place \<Rightarrow> bool" where
  "at_place c Entered = True"
| "at_place c (Leaving r) = True"
| "at_place (WriteCall ubuf count) Grown = True"
| "at_place (WriteCall ubuf count) Copied = True"
| "at_place (ReadCall ubuf count pos) (Located idx off) = True"
| "at_place c p = False"

lemma entered_rest:
  "rest_of K c Entered w = and_then (call_step K c Entered w) (\<lambda>(p', w'). rest_of K c p' w')"
proof (cases c)
  case (WriteCall ubuf count)
  show ?thesis unfolding WriteCall call_step.simps by (rule grow_rest)
next
  case (ReadCall ubuf count pos)
  show ?thesis unfolding ReadCall call_step.simps and_then_assoc and_then_simps prod.case by (rule find_rest)
qed

lemma call_step_rest:
  assumes "at_place c p"
  shows "rest_of K c p w = and_then (call_step K c p w) (\<lambda>(p', w'). rest_of K c p' w')"
  using assms
proof (cases rule: at_place.cases [of "(c, p)"])
  case 1
  then show ?thesis using entered_rest by (simp only: prod.inject)
next
  case (3 ubuf count)
  show ?thesis
  proof (cases "write_copy K ubuf count w")
    case (Inr pw)
    then have "fst pw = Copied \<or> (\<exists>r. fst pw = Leaving r)"
      by (auto simp: write_copy_def Let_def case_prod_unfold split: if_splits)
    with Inr 3 show ?thesis by (cases pw) auto
  next
    case (Inl f)
    with 3 show ?thesis by simp
  qed
next
  case (4 ubuf count)
  then show ?thesis using write_end_leaves [of K count w]
    by (cases "write_end K count w") (auto split: place.splits)
next
  case (5 ubuf count pos idx off)
  then show ?thesis
    by (cases "read_copy K ubuf count pos idx off w")
      (auto simp: read_copy_def Let_def case_prod_unfold)
qed simp_all

lemma call_step_place:
  assumes "at_place c p" and "call_step K c p w = Inr (p', w')"
  shows "at_place c p'"
  using assms
  by (cases rule: at_place.cases [of "(c, p)"]; cases c)
    (auto simp: write_grow_def write_copy_def read_copy_def Let_def case_prod_unfold
       dest!: write_end_leaves read_find_goes split: if_splits option.splits)

lemma at_place_inside: "at_place c p \<Longrightarrow> inside p"
  by (cases rule: at_place.cases [of "(c, p)"]) (auto simp: inside_def)

section \<open>One call after the other\<close>

text \<open>The reference: the whole handler on a file of the device, and a list of calls in turn.\<close>

definition handle :: "kernel \<Rightarrow> call \<Rightarrow> world \<Rightarrow> fault + reply \<times> world" where
  "handle K c w =
     (let filp = Some \<lparr>private_data = Some 0, f_pos = 0\<rparr> in
      case c of
        WriteCall ubuf count \<Rightarrow>
          and_then (aesd_write K filp (Some ubuf) count 0 w) (\<lambda>(ret, _, w'). Inr (Wrote ret, w'))
      | ReadCall ubuf count pos \<Rightarrow>
          and_then (aesd_read K filp (Some ubuf) count pos w)
            (\<lambda>(ret, ubuf', pos', w'). Inr (GotBytes ret (the ubuf') pos', w')))"

fun serial :: "kernel \<Rightarrow> call list \<Rightarrow> world \<Rightarrow> fault + reply list \<times> world" where
  "serial K [] w = Inr ([], w)"
| "serial K (c # cs) w =
     and_then (handle K c w)
       (\<lambda>(r, w'). and_then (serial K cs w') (\<lambda>(rs, w''). Inr (r # rs, w'')))"

lemma serial_snoc:
  "serial K cs w = Inr (rs, w') \<Longrightarrow> handle K c w' = Inr (r, w'') \<Longrightarrow>
   serial K (cs @ [c]) w = Inr (rs @ [r], w'')"
  by (induction cs arbitrary: w rs) auto

abbreviation with_mutex :: "bool \<Rightarrow> world \<Rightarrow> world" where
  "with_mutex m w \<equiv> w\<lparr>dev := (dev w)\<lparr>mutex_held := m\<rparr>\<rparr>"

text \<open>A whole handler: the mutex, what the small steps do from \<open>Entered\<close> on, the mutex.\<close>

lemma handle_rest:
  assumes "mutex_ok K" and "not_interrupted K"
  shows "handle K c w =
    and_then (rest_of K c Entered (with_mutex True w)) (\<lambda>(r, w'). Inr (r, with_mutex False w'))"
proof -
  obtain m where lock: "lock_dev K w = (with_mutex m w, 0)" and m: m
    using lock_devE assms by blast
  have unlock: "unlock_dev K w' = with_mutex False w'" for w'
    using assms(1) by (simp add: unlock_dev_def)
  show ?thesis
    using lock m
    by (cases c) (simp_all add: handle_def aesd_write_def aesd_read_def unlock and_then_assoc
        case_prod_unfold del: and_then_eq_Inr)
qed

lemma commit_mutex: "write_commit K count w = Inr (ret, w') \<Longrightarrow> mutex_held (dev w') = mutex_held (dev w)"
  by (auto simp: write_commit_def finish_line_def Let_def split: if_splits)

lemma call_step_mutex:
  assumes "call_step K c p w = Inr (p', w')"
  shows "mutex_held (dev w') = mutex_held (dev w)"
  using assms
  by (cases "(K, c, p, w)" rule: call_step.cases)
    (auto simp: write_grow_def write_copy_def write_end_def Let_def case_prod_unfold dest!: commit_mutex)

section \<open>Interleaved calls take effect in the order of their release\<close>

text \<open>
  The invariant: the calls that have returned, one after the other, give the replies they gave
  and a device \<open>w0\<close>; nobody is inside and the device is \<open>w0\<close>, or one caller is, holds the mutex,
  and what it has left to do is what it had to do when it entered \<open>w0\<close>.
\<close>

definition calls_inv :: "kernel \<Rightarrow> call list \<Rightarrow> world \<Rightarrow> system \<Rightarrow> bool" where
  "calls_inv K calls w s \<longleftrightarrow> mutex_ok K \<and> not_interrupted K \<and>
     (\<exists>w0. serial K (map (\<lambda>(i, r). calls ! i) (returned s)) w = Inr (map snd (returned s), w0) \<and>
        \<not> mutex_held (dev w0) \<and>
        ((\<forall>i. \<not> inside (place_of s i)) \<and> device s = w0 \<or>
         (\<exists>i. i < length calls \<and> (\<forall>j. inside (place_of s j) \<longleftrightarrow> j = i) \<and>
            mutex_held (dev (device s)) \<and> at_place (calls ! i) (place_of s i) \<and>
            rest_of K (calls ! i) (place_of s i) (device s) =
              rest_of K (calls ! i) Entered (with_mutex True w0))))"

text \<open>Whoever is inside is the one the invariant names.\<close>

lemma calls_inv_inside:
  assumes "calls_inv K calls w s" and "inside (place_of s i)"
  shows "\<exists>w0. serial K (map (\<lambda>(i, r). calls ! i) (returned s)) w = Inr (map snd (returned s), w0) \<and>
    \<not> mutex_held (dev w0) \<and> i < length calls \<and> (\<forall>j. inside (place_of s j) \<longleftrightarrow> j = i) \<and>
    mutex_held (dev (device s)) \<and> at_place (calls ! i) (place_of s i) \<and>
    rest_of K (calls ! i) (place_of s i) (device s) = rest_of K (calls ! i) Entered (with_mutex True w0)"
  using assms unfolding calls_inv_def by metis

lemma inside_simps [simp]:
  "\<not> inside Outside" "inside Entered" "inside (Leaving r)" "\<not> inside (Returned r)"
  by (simp_all add: inside_def)

lemma calls_inv_enter:
  assumes inv: "calls_inv K calls w s" and i: "i < length calls" "place_of s i = Outside"
    and free: "\<not> mutex_held (dev (device s))"
  shows "calls_inv K calls w
    (s\<lparr>device := with_mutex True (device s), place_of := (place_of s)(i := Entered)\<rparr>)"
proof -
  from inv free have "\<forall>j. \<not> inside (place_of s j)" unfolding calls_inv_def by metis
  with inv i show ?thesis unfolding calls_inv_def by auto
qed

lemma calls_inv_places:
  assumes "calls_inv K calls w s" and "\<And>j. inside (q j) = inside (place_of s j)"
    and "\<And>j. inside (place_of s j) \<Longrightarrow> q j = place_of s j"
  shows "calls_inv K calls w (s\<lparr>place_of := q\<rparr>)"
  using assms unfolding calls_inv_def by (simp, metis)

lemma calls_inv_interrupt:
  assumes inv: "calls_inv K calls w s" and i: "place_of s i = Outside"
  shows "calls_inv K calls w (s\<lparr>place_of := (place_of s)(i := Returned Interrupted)\<rparr>)"
proof -
  have "inside (((place_of s)(i := Returned Interrupted)) j) = inside (place_of s j)" for j
    using i by simp
  moreover have "((place_of s)(i := Returned Interrupted)) j = place_of s j" if "inside (place_of s j)" for j
    using i that by auto
  ultimately show ?thesis using calls_inv_places [OF inv] by metis
qed

lemma calls_inv_work:
  assumes inv: "calls_inv K calls w s" and i: "inside (place_of s i)"
    and step: "call_step K (calls ! i) (place_of s i) (device s) = Inr (p, w')"
  shows "calls_inv K calls w (s\<lparr>device := w', place_of := (place_of s)(i := p)\<rparr>)"
proof -
  from calls_inv_inside [OF inv i] obtain w0 where
    w0: "serial K (map (\<lambda>(i, r). calls ! i) (returned s)) w = Inr (map snd (returned s), w0)"
      "\<not> mutex_held (dev w0)" and il: "i < length calls" and
    only: "\<forall>j. inside (place_of s j) \<longleftrightarrow> j = i" and held: "mutex_held (dev (device s))" and
    at: "at_place (calls ! i) (place_of s i)" and
    rest: "rest_of K (calls ! i) (place_of s i) (device s) = rest_of K (calls ! i) Entered (with_mutex True w0)"
    by blast
  have at': "at_place (calls ! i) p" by (rule call_step_place [OF at step])
  have "rest_of K (calls ! i) p w' = rest_of K (calls ! i) Entered (with_mutex True w0)"
    using call_step_rest [OF at, of K "device s"] rest by (simp add: step)
  moreover have "mutex_held (dev w')" using call_step_mutex [OF step] held by simp
  moreover have "inside (((place_of s)(i := p)) j) \<longleftrightarrow> j = i" for j
    using only at_place_inside [OF at'] by simp
  ultimately show ?thesis
    using inv w0 il at' unfolding calls_inv_def by auto
qed

lemma calls_inv_leave:
  assumes inv: "calls_inv K calls w s" and i: "place_of s i = Leaving r"
  shows "calls_inv K calls w
    (s\<lparr>device := with_mutex False (device s), place_of := (place_of s)(i := Returned r),
       returned := returned s @ [(i, r)]\<rparr>)"
proof -
  have "inside (place_of s i)" using i by simp
  from calls_inv_inside [OF inv this] obtain w0 where
    w0: "serial K (map (\<lambda>(i, r). calls ! i) (returned s)) w = Inr (map snd (returned s), w0)" and
    only: "\<forall>j. inside (place_of s j) \<longleftrightarrow> j = i" and
    rest: "rest_of K (calls ! i) (place_of s i) (device s) = rest_of K (calls ! i) Entered (with_mutex True w0)"
    by blast
  have mx: "mutex_ok K" "not_interrupted K" using inv by (simp_all add: calls_inv_def)
  have "handle K (calls ! i) w0 = Inr (r, with_mutex False (device s))"
    using rest i by (simp add: handle_rest [OF mx] flip: rest)
  from serial_snoc [OF w0 this] show ?thesis
    using mx only by (auto simp: calls_inv_def)
qed

lemma system_step_inv:
  assumes "calls_inv K calls w s" and "system_step signals K calls s s'"
  shows "calls_inv K calls w s'"
  using assms(2)
proof cases
  case (enter i)
  then show ?thesis using calls_inv_enter [OF assms(1)] by simp
next
  case (interrupt i)
  then show ?thesis using calls_inv_interrupt [OF assms(1)] by simp
next
  case (work i p w')
  then show ?thesis using calls_inv_work [OF assms(1)] by (simp add: working_def)
next
  case (faults i f)
  then show ?thesis using assms(1) by (simp add: calls_inv_def)
next
  case (leave i r)
  then show ?thesis using calls_inv_leave [OF assms(1)] by simp
qed

interpretation calls: step_invariant "system_step signals K calls" "calls_inv K calls w" for signals K calls w
  by unfold_locales (rule system_step_inv)

lemma calls_inv_start:
  "mutex_ok K \<Longrightarrow> not_interrupted K \<Longrightarrow> \<not> mutex_held (dev w) \<Longrightarrow> calls_inv K calls w (system_start w)"
  by (simp add: calls_inv_def system_start_def)

section \<open>No interleaving faults\<close>

text \<open>Writes of at least one byte, each below 2 GiB, as the kernel passes them on.\<close>

fun call_ok :: "call \<Rightarrow> bool" where
  "call_ok (WriteCall ubuf count) = (0 < count \<and> unat count < 2 ^ 31)"
| "call_ok (ReadCall ubuf count pos) = True"

lemma handle_safe:
  assumes "driver_safe K w" and "kernel_ok K" and "call_ok c" and "\<not> checks_reads K"
  shows "\<exists>r w'. handle K c w = Inr (r, w') \<and> driver_safe K w'"
proof -
  let ?filp = "Some \<lparr>private_data = Some 0, f_pos = 0\<rparr>"
  obtain L where wf: "dev_wf L K w" using assms(1) by (auto simp: driver_safe_def)
  show ?thesis
  proof (cases c)
    case (WriteCall ubuf count)
    then have count: "count \<noteq> 0" "unat count < 2 ^ 31" using assms(3) by auto
    then obtain ret pos' w' where res: "aesd_write K ?filp (Some ubuf) count 0 w = Inr (ret, pos', w')"
      using write_never_faults [OF wf assms(2), of count ?filp "Some ubuf" 0] by auto
    have "driver_step False K w w'"
      by (rule driver_step.call_write [OF assms(2) refl count(2) res]) simp
    with res WriteCall show ?thesis
      using driver_step_safe assms(1) by (auto simp: handle_def Let_def)
  next
    case (ReadCall ubuf count pos)
    obtain ret ubuf' pos' w' where res: "aesd_read K ?filp (Some ubuf) count pos w = Inr (ret, ubuf', pos', w')"
      using read_never_faults [OF wf assms(2,4), of ?filp "Some ubuf" count pos] by auto
    have "driver_step False K w w'"
      by (rule driver_step.call_read [OF assms(2) refl res])
    with res ReadCall show ?thesis
      using driver_step_safe assms(1) by (auto simp: handle_def Let_def)
  qed
qed

lemma serial_safe:
  assumes "serial K cs w = Inr (rs, w')" and "driver_safe K w" and "kernel_ok K" and "list_all call_ok cs"
    and "\<not> checks_reads K"
  shows "driver_safe K w'"
  using assms
proof (induction cs arbitrary: w rs)
  case (Cons c cs)
  with handle_safe [of K w c] show ?case by auto
qed simp

definition quiet_inv :: "kernel \<Rightarrow> call list \<Rightarrow> world \<Rightarrow> system \<Rightarrow> bool" where
  "quiet_inv K calls w s \<longleftrightarrow> calls_inv K calls w s \<and> kernel_ok K \<and> \<not> checks_reads K \<and> driver_safe K w \<and>
     list_all call_ok calls \<and> (\<forall>(i, r) \<in> set (returned s). i < length calls) \<and> \<not> crashed s"

text \<open>A caller whose next step faults would make the whole handler fault on a safe device.\<close>

lemma quiet_no_fault:
  assumes inv: "quiet_inv K calls w s" and i: "inside (place_of s i)"
  shows "call_step K (calls ! i) (place_of s i) (device s) \<noteq> Inl f"
proof
  assume fault: "call_step K (calls ! i) (place_of s i) (device s) = Inl f"
  from calls_inv_inside [OF _ i, of K calls w] inv obtain w0 where
    w0: "serial K (map (\<lambda>(i, r). calls ! i) (returned s)) w = Inr (map snd (returned s), w0)" and
    il: "i < length calls" and at: "at_place (calls ! i) (place_of s i)" and
    rest: "rest_of K (calls ! i) (place_of s i) (device s) = rest_of K (calls ! i) Entered (with_mutex True w0)"
    unfolding quiet_inv_def by blast
  have "list_all call_ok (map (\<lambda>(i, r). calls ! i) (returned s))"
    using inv by (force simp: quiet_inv_def list_all_iff)
  then have "driver_safe K w0"
    using serial_safe [OF w0] inv by (simp add: quiet_inv_def)
  moreover have "call_ok (calls ! i)" using inv il by (simp add: quiet_inv_def list_all_length)
  ultimately obtain r w' where ok: "handle K (calls ! i) w0 = Inr (r, w')"
    using handle_safe inv unfolding quiet_inv_def by blast
  have "mutex_ok K" "not_interrupted K" using inv by (simp_all add: quiet_inv_def calls_inv_def)
  then have "handle K (calls ! i) w0 = Inl f"
    using call_step_rest [OF at, of K "device s"] by (simp add: handle_rest fault flip: rest)
  with ok show False by simp
qed

lemma quiet_step:
  assumes "quiet_inv K calls w s" and "system_step signals K calls s s'"
  shows "quiet_inv K calls w s'"
proof -
  have "calls_inv K calls w s'"
    using system_step_inv assms unfolding quiet_inv_def by blast
  with assms(2) assms(1) show ?thesis
    by cases (auto simp: quiet_inv_def working_def quiet_no_fault [OF assms(1)])
qed

interpretation quiet_calls: step_invariant "system_step signals K calls" "quiet_inv K calls w" for signals K calls w
  by unfold_locales (rule quiet_step)

lemma quiet_inv_start:
  "kernel_ok K \<Longrightarrow> not_interrupted K \<Longrightarrow> \<not> checks_reads K \<Longrightarrow> driver_safe K w \<Longrightarrow> list_all call_ok calls \<Longrightarrow>
   quiet_inv K calls w (system_start w)"
  by (simp add: quiet_inv_def calls_inv_start driver_safe_def kernel_ok_def) (simp add: system_start_def)

text \<open>Every call returns at most once, and a call that has returned is in the list or was interrupted.\<close>

definition returned_inv :: "system \<Rightarrow> bool" where
  "returned_inv s \<longleftrightarrow> distinct (map fst (returned s)) \<and>
     (\<forall>(i, r) \<in> set (returned s). place_of s i = Returned r) \<and>
     (\<forall>i r. place_of s i = Returned r \<longrightarrow> (i, r) \<in> set (returned s) \<or> r = Interrupted)"

lemma call_step_not_returned: "inside p \<Longrightarrow> call_step K c p w = Inr (p', w') \<Longrightarrow> p' \<noteq> Returned r"
  by (cases "(K, c, p, w)" rule: call_step.cases)
    (auto simp: inside_def write_grow_def write_copy_def write_end_def read_copy_def Let_def
       case_prod_unfold dest!: read_find_goes split: if_splits option.splits)

lemma returned_step:
  assumes inv: "returned_inv s" and "system_step signals K calls s s'"
  shows "returned_inv s'"
proof -
  have not_yet: "i \<notin> fst ` set (returned s)" if "\<And>r. place_of s i \<noteq> Returned r" for i
    using inv that by (force simp: returned_inv_def)
  have upd: "returned_inv (s\<lparr>device := w, place_of := (place_of s)(i := p)\<rparr>)"
    if "\<And>r. place_of s i \<noteq> Returned r" "\<And>r. p = Returned r \<Longrightarrow> r = Interrupted" for w i p
  proof -
    have "i \<notin> fst ` set (returned s)" using not_yet that(1) by blast
    then have "j \<noteq> i" if "(j, r) \<in> set (returned s)" for j r
      using that by force
    with inv that(2) show ?thesis by (auto simp: returned_inv_def)
  qed
  from assms(2) show ?thesis
  proof cases
    case (enter i)
    then show ?thesis using upd [of i Entered] by simp
  next
    case (interrupt i)
    then show ?thesis using upd [of i "Returned Interrupted" "device s"] by simp
  next
    case (work i p w')
    then have "inside (place_of s i)" by (simp add: working_def)
    then have "place_of s i \<noteq> Returned r" for r by auto
    moreover have "p \<noteq> Returned r" for r
      using call_step_not_returned [OF \<open>inside (place_of s i)\<close> work(4)] .
    ultimately show ?thesis using upd [of i p w'] work(1) by blast
  next
    case (faults i f)
    with inv show ?thesis by (simp add: returned_inv_def)
  next
    case (leave i r)
    then have "i \<notin> fst ` set (returned s)" using not_yet [of i] by simp
    with leave inv show ?thesis by (force simp: returned_inv_def)
  qed
qed

interpretation returned_calls: step_invariant "system_step signals K calls" returned_inv for signals K calls
  by unfold_locales (rule returned_step)

lemma returned_inv_start: "returned_inv (system_start w)"
  by (simp add: returned_inv_def system_start_def)

text \<open>The conclusions of the invariants.\<close>

lemma calls_inv_serial:
  assumes "calls_inv K calls w s"
  shows "\<exists>w'. serial K (map (\<lambda>(i, r). calls ! i) (returned s)) w = Inr (map snd (returned s), w') \<and>
     ((\<forall>i. \<not> inside (place_of s i)) \<longrightarrow> device s = w')"
  using assms unfolding calls_inv_def by blast

lemma calls_inv_exclusive:
  "calls_inv K calls w s \<Longrightarrow> inside (place_of s i) \<Longrightarrow> inside (place_of s j) \<Longrightarrow> i = j"
  by (drule (1) calls_inv_inside) blast

section \<open>Every call returns\<close>

text \<open>The steps a call has left, at most.\<close>

fun steps_to_go :: "place \<Rightarrow> nat" where
  "steps_to_go Outside = 5"
| "steps_to_go Entered = 4"
| "steps_to_go Grown = 3"
| "steps_to_go Copied = 2"
| "steps_to_go (Located idx off) = 2"
| "steps_to_go (Leaving r) = 1"
| "steps_to_go (Returned r) = 0"

definition calls_work :: "call list \<Rightarrow> system \<Rightarrow> nat" where
  "calls_work calls s = (\<Sum>i<length calls. steps_to_go (place_of s i))"

lemma call_step_progress:
  assumes "at_place c p" and "working p" and "call_step K c p w = Inr (p', w')"
  shows "steps_to_go p' < steps_to_go p"
  using assms
  by (cases "(K, c, p, w)" rule: call_step.cases)
    (auto simp: working_def inside_def write_grow_def write_copy_def write_end_def read_copy_def Let_def
       case_prod_unfold dest!: read_find_goes split: if_splits option.splits)

lemma calls_work_less:
  assumes "i < length calls" and "steps_to_go p < steps_to_go (place_of s i)" and "place_of s' = (place_of s)(i := p)"
  shows "calls_work calls s' < calls_work calls s"
  unfolding calls_work_def
  using assms by (intro sum_strict_mono_ex1) (auto intro!: bexI [of _ i])

lemma quiet_step_progress:
  assumes inv: "quiet_inv K calls w s" and step: "system_step signals K calls s s'"
  shows "calls_work calls s' < calls_work calls s"
  using step
proof cases
  case (enter i)
  then show ?thesis by (intro calls_work_less [of i _ Entered s]) simp_all
next
  case (interrupt i)
  then show ?thesis by (intro calls_work_less [of i _ "Returned Interrupted" s]) simp_all
next
  case (work i p w')
  then have "inside (place_of s i)" by (simp add: working_def)
  then have "at_place (calls ! i) (place_of s i)"
    using calls_inv_inside [of K calls w s i] inv unfolding quiet_inv_def by blast
  with work show ?thesis
    using call_step_progress by (intro calls_work_less [of i _ p s]) simp_all
next
  case (faults i f)
  then show ?thesis using quiet_no_fault [OF inv, of i f] by (simp add: working_def)
next
  case (leave i r)
  then show ?thesis by (intro calls_work_less [of i _ "Returned r" s]) simp_all
qed

lemma calls_steps_bound:
  assumes "(system_step signals K calls ^^ n) s s'" and "quiet_inv K calls w s"
  shows "n + calls_work calls s' \<le> calls_work calls s"
  using assms
proof (induction n arbitrary: s)
  case (Suc n)
  then obtain t where t: "system_step signals K calls s t" "(system_step signals K calls ^^ n) t s'"
    by (metis relpowp_Suc_D2)
  from quiet_step_progress [OF Suc.prems(2) t(1)] Suc.IH [OF t(2) quiet_step [OF Suc.prems(2) t(1)]]
  show ?case by linarith
qed simp

text \<open>No deadlock: while a call has not returned, some caller can go on, without any signal.\<close>

lemma calls_no_deadlock:
  assumes inv: "calls_inv K calls w s" and i: "i < length calls" "\<And>r. place_of s i \<noteq> Returned r"
  shows "\<exists>s'. system_step signals K calls s s'"
proof (cases "\<exists>j. inside (place_of s j)")
  case True
  then obtain j where j: "inside (place_of s j)" by blast
  have jl: "j < length calls" using calls_inv_inside [OF inv j] by blast
  show ?thesis
  proof (cases "\<exists>r. place_of s j = Leaving r")
    case True
    then show ?thesis using system_step.leave [OF jl] by blast
  next
    case False
    with j have "working (place_of s j)" by (simp add: working_def)
    then show ?thesis
      using system_step.work [OF jl] system_step.faults [OF jl]
      by (cases "call_step K (calls ! j) (place_of s j) (device s)") (auto, blast+)
  qed
next
  case False
  with inv have "\<not> mutex_held (dev (device s))" unfolding calls_inv_def by metis
  moreover have "place_of s i = Outside" using False i(2) by (auto simp: inside_def)
  ultimately show ?thesis using system_step.enter [OF i(1)] by blast
qed

end
