(* ===== verification/Driver_Properties.thy ===== *)
theory Driver_Properties
  imports Driver_Concurrency
begin

text \<open>
  The properties of the character driver: what its handlers do in terms of the history of
  complete lines, what every reachable state satisfies, and where the code does not do what
  it means to. Each property has, where it has hypotheses, a witness on a concrete device.
\<close>

section \<open>A concrete device for the witnesses\<close>

definition demo_world :: world where
  "demo_world = \<lparr>dev = fresh_device\<lparr>cdev_live := True\<rparr>, mem = Map.empty\<rparr>"

definition demo_filp :: struct_file where
  "demo_filp = \<lparr>private_data = Some 0, f_pos = 0\<rparr>"

definition demo_file :: device_file where
  "demo_file = \<lparr>kern = demo_kernel, wld = demo_world, fpos = 0\<rparr>"

lemma demo_world_inv [simp]: "dev_inv K demo_world" "view demo_world = \<lparr>complete = [], pending = []\<rparr>"
  using fresh_device_inv [of demo_world True K] by (simp_all add: demo_world_def)

lemma demo_file_inv [simp]: "file_inv demo_file"
  by (simp add: file_inv_def demo_file_def)

lemma demo_file_sound [simp]: "file_sound demo_file"
  using demo_file_inv by (simp add: file_inv_iff)

lemma demo_filp_private [simp]: "private_data demo_filp = Some 0"
  by (simp add: demo_filp_def)

lemma demo_file_simps [simp]: "kern demo_file = demo_kernel" "wld demo_file = demo_world" "fpos demo_file = 0"
  by (simp_all add: demo_file_def)

text \<open>A line of three bytes, and the device after it, as the model computes it.\<close>

definition hi_line :: "byte list" where
  "hi_line = [104, 105, 10]"

definition hi_buffer :: aesd_circular_buffer where
  "hi_buffer = cb_push (circular_buf fresh_device) \<lparr>buffptr = 16, esize = 3\<rparr>"

definition hi_world :: world where
  "hi_world =
     \<lparr>dev = (dev demo_world)\<lparr>circular_buf := hi_buffer, mutex_held := False\<rparr>, mem = [16 \<mapsto> hi_line]\<rparr>"

definition hi_file :: device_file where
  "hi_file = demo_file\<lparr>wld := hi_world\<rparr>"

lemma demo_kernel_simps [simp]:
  "krealloc demo_kernel = demo_krealloc" "kfree demo_kernel h p = h(p := None)"
  "copy_from_user demo_kernel dst src =
     (if length dst \<le> length src then (take (length dst) src, 0) else (dst, 1))"
  "mutex_lock_interruptible demo_kernel m = (True, 0)" "\<not> mutex_unlock demo_kernel m"
  by (simp_all add: demo_kernel_def)

lemma demo_krealloc_new: "demo_krealloc (\<lambda>x. None) 0 3 = ([16 \<mapsto> [0, 0, 0]], 16)"
proof -
  have "List.find (\<lambda>q. True) demo_pool = Some 16" by (simp add: demo_pool_def upt_rec)
  moreover have "replicate 3 0 = [0, 0, 0 :: byte]" by (simp add: numeral_3_eq_3)
  ultimately show ?thesis by (simp add: demo_krealloc_def)
qed

lemma hi_add_entry:
  "aesd_circular_buffer_add_entry (Some (circular_buf fresh_device)) (Some \<lparr>buffptr = 16, esize = 3\<rparr>) =
     Inr (Some hi_buffer, 0)"
  by (simp add: add_entry_push hi_buffer_def fresh_device_def cb_evicted_def)
    (simp add: aesd_circular_buffer_init_def)

lemma hi_write_locked:
  "aesd_write_locked demo_kernel hi_line 3 (demo_world\<lparr>dev := (dev demo_world)\<lparr>mutex_held := True\<rparr>\<rparr>) =
     Inr (Inr 3, hi_world\<lparr>dev := (dev hi_world)\<lparr>mutex_held := True\<rparr>\<rparr>)"
proof -
  have b: "buf_entry fresh_device = \<lparr>buffptr = 0, esize = 0\<rparr>" by (simp add: fresh_device_def zero_entry_def)
  show ?thesis
    by (simp add: aesd_write_locked_def krealloc_checked_def demo_world_def b demo_krealloc_new
          del: and_then_eq_Inr,
        simp add: heap_slice_def heap_block_def heap_write_def write_commit_def heap_load_def Let_def
          finish_line_def hi_line_def hi_add_entry kfree_checked_def hi_world_def demo_world_def
          del: and_then_eq_Inr heap_load_eq_Inr heap_block_eq_Inr)
      (auto simp: zero_entry_def b)
qed

lemma hi_aesd_write:
  "aesd_write demo_kernel (Some demo_filp) (Some hi_line) 3 0 demo_world = Inr (Inr 3, 0, hi_world)"
  using hi_write_locked
  by (simp add: aesd_write_def lock_dev_def unlock_dev_def hi_world_def)

lemma hi_write: "device_write demo_file hi_line = (3, hi_file)"
proof -
  have "length hi_line = 3" by (simp add: hi_line_def)
  then show ?thesis
    using hi_aesd_write
    by (simp add: device_write_def filp_of_def hi_file_def demo_file_def demo_filp_def)
qed

lemma hi_file_facts:
  "file_inv hi_file" "view (wld hi_file) = \<lparr>complete = [hi_line], pending = []\<rparr>" "fpos hi_file = 0"
  "kern hi_file = demo_kernel"
  using device_write_success [of demo_file hi_line hi_file] hi_write
  by (simp_all add: hi_line_def view_write_def file_inv_iff)

text \<open>The same line written in two parts.\<close>

definition part_world :: world where
  "part_world = \<lparr>dev = (dev demo_world)\<lparr>buf_entry := \<lparr>buffptr = 16, esize = 1\<rparr>\<rparr>, mem = [16 \<mapsto> [104]]\<rparr>"

lemma part_write_1:
  "aesd_write demo_kernel (Some demo_filp) (Some [104]) 1 0 demo_world = Inr (Inr 1, 0, part_world)"
proof -
  have "List.find (\<lambda>q. True) demo_pool = Some 16" by (simp add: demo_pool_def upt_rec)
  then have kr: "demo_krealloc (\<lambda>x. None) 0 1 = ([16 \<mapsto> [0]], 16)" by (simp add: demo_krealloc_def)
  have b: "buf_entry fresh_device = \<lparr>buffptr = 0, esize = 0\<rparr>" "mutex_held fresh_device = False"
    by (simp_all add: fresh_device_def zero_entry_def)
  show ?thesis
    by (simp add: aesd_write_def lock_dev_def aesd_write_locked_def krealloc_checked_def demo_world_def b kr
          del: and_then_eq_Inr,
        simp add: heap_slice_def heap_block_def heap_write_def write_commit_def heap_load_def Let_def
          unlock_dev_def part_world_def demo_world_def
          del: and_then_eq_Inr heap_load_eq_Inr heap_block_eq_Inr)
      (auto simp: b)
qed

lemma part_write_2:
  "aesd_write demo_kernel (Some demo_filp) (Some [105, 10]) 2 0 part_world = Inr (Inr 2, 0, hi_world)"
proof -
  have kr: "demo_krealloc [16 \<mapsto> [104]] 16 3 = ([16 \<mapsto> [104, 0, 0]], 16)"
  proof -
    have "replicate 2 0 = [0, 0 :: byte]" by (simp add: numeral_2_eq_2)
    then show ?thesis by (simp add: demo_krealloc_def)
  qed
  have b: "buf_entry fresh_device = zero_entry" "mutex_held fresh_device = False"
    by (simp_all add: fresh_device_def)
  show ?thesis
    by (simp add: aesd_write_def lock_dev_def aesd_write_locked_def krealloc_checked_def part_world_def
          demo_world_def kr del: and_then_eq_Inr,
        simp add: heap_slice_def heap_block_def heap_write_def write_commit_def heap_load_def Let_def
          finish_line_def hi_add_entry kfree_checked_def unlock_dev_def hi_world_def hi_line_def demo_world_def
          del: and_then_eq_Inr heap_load_eq_Inr heap_block_eq_Inr)
      (auto simp: b)
qed

lemma part_writes: "device_writes demo_file [[104], [105, 10]] = Some hi_file"
  using part_write_1 part_write_2
  by (simp add: device_write_def filp_of_def demo_file_def demo_filp_def hi_file_def)

section \<open>The handlers and the history of lines\<close>

text \<open>C1: a write to a device in its invariant returns, releases the mutex and either appends
  the bytes to the history (all of them), or refuses with EFAULT (history unchanged) or
  ENOMEM; the one other outcome is the fault of a write of nothing to an empty pending line.\<close>

theorem aesd_write_refines_history:
  assumes "dev_inv K w" and "kernel_ok K" and "not_interrupted K" and "private_data fp = Some d"
    and "unat count < 2 ^ 31"
  shows "(\<exists>ret w'. aesd_write K (Some fp) (Some ubuf) count pos w = Inr (ret, pos, w') \<and>
       write_outcome K ubuf count w ret w' \<and> \<not> mutex_held (dev w')) \<or>
     pending (view w) = [] \<and> count = 0 \<and>
       aesd_write K (Some fp) (Some ubuf) count pos w = Inl OutOfBounds"
  using aesd_write_outcome assms unfolding kernel_ok_def by blast

theorem aesd_write_refines_history_witness:
  "(\<exists>ret w'. aesd_write demo_kernel (Some demo_filp) (Some hi_line) 3 0 demo_world = Inr (ret, 0, w') \<and>
       write_outcome demo_kernel hi_line 3 demo_world ret w' \<and> \<not> mutex_held (dev w')) \<or>
     pending (view demo_world) = [] \<and> (3 :: size_t) = 0 \<and>
       aesd_write demo_kernel (Some demo_filp) (Some hi_line) 3 0 demo_world = Inl OutOfBounds"
  by (rule aesd_write_refines_history [where d = 0]) simp_all

text \<open>C2: a read of a device in its invariant returns the rest of the line the position is in,
  up to the count (nothing at the end), advances the position by that much, and changes
  neither the history nor the heap. The one fault is that of the search's debugging print, on
  a kernel that traps it and a line without a zero byte.\<close>

theorem aesd_read_refines_history:
  assumes "dev_inv K w" and "kernel_ok K" and "user_memory_mapped K" and "not_interrupted K"
    and "private_data fp = Some d" and "unat count \<le> length ubuf"
  shows "if print_traps K (view w) pos
     then aesd_read K (Some fp) (Some ubuf) count pos w = Inl OutOfBounds
     else \<exists>w'. aesd_read K (Some fp) (Some ubuf) count pos w =
         (let data = view_read (view w) (unat pos) (unat count) in
          Inr (Inr (of_nat (length data)), Some (data @ drop (length data) ubuf),
               pos + of_nat (length data), w')) \<and>
       dev_inv K w' \<and> view w' = view w \<and> \<not> mutex_held (dev w') \<and> mem w' = mem w"
  using aesd_read_view [of K w pos fp d count ubuf] aesd_read_traps [OF dev_inv_wfD [OF assms(1)]] assms
  unfolding kernel_ok_def by simp

theorem aesd_read_refines_history_witness:
  "\<exists>w'. aesd_read demo_kernel (Some demo_filp) (Some [0, 0]) 2 0 hi_world =
       (let data = view_read (view hi_world) (unat (0 :: loff_t)) (unat (2 :: size_t)) in
        Inr (Inr (of_nat (length data)), Some (data @ drop (length data) [0, 0]),
             0 + of_nat (length data), w')) \<and>
     dev_inv demo_kernel w' \<and> view w' = view hi_world \<and> \<not> mutex_held (dev w') \<and> mem w' = mem hi_world"
proof -
  have "dev_inv demo_kernel hi_world" using hi_file_facts(1) by (simp add: file_inv_def hi_file_def demo_file_def)
  from aesd_read_refines_history [OF this, of demo_filp 0 2 "[0, 0]" 0] show ?thesis
    by (simp add: print_traps_unchecked)
qed

text \<open>C3: after any sequence of lines written in full, the device holds exactly the last ten
  lines of what it held before followed by what was written.\<close>

theorem device_keeps_last_ten_lines:
  assumes "file_sound f" and "pending (view (wld f)) = []"
    and "\<forall>l \<in> set ls. is_line l \<and> length l < 2 ^ 31" and "device_writes f ls = Some f'"
  shows "complete (view (wld f')) = last_n 10 (complete (view (wld f)) @ ls) \<and>
     pending (view (wld f')) = []"
proof -
  have "length (complete (view (wld f))) \<le> 10"
    using assms(1) stored_count_le by (simp add: file_sound_def dev_inv_def complete_view)
  with assms view_write_lines [of ls "view (wld f)"] device_writes_view [of f ls f'] show ?thesis
    by (auto simp: is_line_def)
qed

theorem device_keeps_last_ten_lines_witness:
  "complete (view (wld hi_file)) = last_n 10 (complete (view (wld demo_file)) @ [hi_line]) \<and>
     pending (view (wld hi_file)) = []"
  by (rule device_keeps_last_ten_lines) (simp_all add: hi_write, simp_all add: is_line_def hi_line_def)

text \<open>C15: a line written in two parts is the same as the line written at once.\<close>

theorem device_write_in_parts:
  assumes "file_sound f" and "a \<noteq> []" and "b \<noteq> []" and "last a \<noteq> newline"
    and "length a < 2 ^ 31" and "length b < 2 ^ 31" and "device_writes f [a, b] = Some f'"
  shows "view (wld f') = view_write (view (wld f)) (a @ b)"
  using device_writes_view [of f "[a, b]" f'] view_write_split [of a b] assms by simp

theorem device_write_in_parts_witness:
  "view (wld hi_file) = view_write (view (wld demo_file)) ([104] @ [105, 10])"
  by (rule device_write_in_parts) (simp_all add: part_writes del: device_writes.simps)

text \<open>C16: a buffered read (\<open>fread\<close>) of the open device returns exactly the next bytes of the
  concatenated lines, all that are left if there are fewer.\<close>

theorem fread_returns_next_bytes:
  assumes "file_inv f" and "want < 2 ^ 64"
  shows "\<exists>f'. fread device_read want f = (take want (file_remaining f), f') \<and>
     file_inv f' \<and> file_remaining f' = drop want (file_remaining f)"
  using assms by (rule device_stream.fread_spec)

theorem fread_returns_next_bytes_witness:
  "\<exists>f'. fread device_read 512 hi_file = (take 512 (file_remaining hi_file), f') \<and>
     file_inv f' \<and> file_remaining f' = drop 512 (file_remaining hi_file)"
  by (rule fread_returns_next_bytes) (simp_all add: hi_file_facts)

text \<open>C13: the seek command moves the position to the given byte of the given line, so that
  reading returns the rest of that line and all later lines; it is refused, with the position
  unchanged, when there is no such line or the byte lies beyond its end.\<close>

theorem ioctl_seek_then_read:
  fixes seek :: aesd_seekto
  assumes "file_sound f" and "copy_seekto (kern f) arg = (seek, 0)"
  shows "case device_ioctl f (AESDCHAR_IOCSEEKTO (kern f)) arg of (rc, f') \<Rightarrow>
     let ls = complete (view (wld f)); c = unat (write_cmd seek); off = unat (write_cmd_offset seek) in
     file_sound f' \<and> view (wld f') = view (wld f) \<and>
     (if c < length ls \<and> off \<le> length (ls ! c)
      then rc = 0 \<and> file_remaining f' = drop off (ls ! c) @ concat (drop (Suc c) ls)
      else rc = - 1 \<and> fpos f' = fpos f)"
  unfolding Let_def using assms by (rule device_ioctl_remaining)

theorem ioctl_seek_then_read_witness:
  "case device_ioctl hi_file (AESDCHAR_IOCSEEKTO (kern hi_file)) 0 of (rc, f') \<Rightarrow>
     let ls = complete (view (wld hi_file)); c = unat (0 :: u32); off = unat (0 :: u32) in
     file_sound f' \<and> view (wld f') = view (wld hi_file) \<and>
     (if c < length ls \<and> off \<le> length (ls ! c)
      then rc = 0 \<and> file_remaining f' = drop off (ls ! c) @ concat (drop (Suc c) ls)
      else rc = - 1 \<and> fpos f' = fpos hi_file)"
proof -
  have "copy_seekto (kern hi_file) 0 = (\<lparr>write_cmd = 0, write_cmd_offset = 0\<rparr>, 0)"
    by (simp add: hi_file_facts demo_kernel_def)
  moreover have "file_sound hi_file" using hi_file_facts(1) by (simp add: file_inv_iff)
  ultimately show ?thesis using ioctl_seek_then_read [of hi_file 0] by (simp add: hi_file_facts)
qed

section \<open>Reachable states\<close>

text \<open>C8: whatever sequence of handler calls follows a successful load of the module (each call
  by any kernel that behaves as documented), the device is well formed, but for blocks that
  failed reallocations have lost, and its mutex is free; and where no reallocation failed,
  the device is in its invariant, with no block lost.\<close>

theorem loaded_driver_stays_consistent:
  assumes "aesd_init_module A s = (0, s')" and "mem (world_of s) = Map.empty"
    and "(driver_step has_memory K)\<^sup>*\<^sup>* (world_of s') w"
  shows "(\<exists>L. dev_wf L K w) \<and> \<not> mutex_held (dev w) \<and> (has_memory \<longrightarrow> dev_inv K w)"
proof -
  have start: "driver_inv K (world_of s')"
    using init_module_result [OF assms(2), where A = A and K = K] assms(1) by (simp add: driver_inv_def)
  then have "driver_safe K (world_of s')" by (auto simp: driver_inv_def driver_safe_def dest: dev_inv_wfD)
  from driver_low.run_inv [OF assms(3) this] have "driver_safe K w" .
  moreover have "dev_inv K w" if has_memory
    using driver.run_inv [of K "world_of s'" w] assms(3) start that by (simp add: driver_inv_def)
  ultimately show ?thesis by (auto simp: driver_safe_def)
qed

definition demo_chrdev :: chrdev_api where
  "demo_chrdev =
     \<lparr>alloc_chrdev_region = (\<lambda>m. (0xF00000, 0)), cdev_add = (\<lambda>d. 0), MAJOR = (\<lambda>d. d div 2 ^ 20),
      MKDEV = (\<lambda>a b. a * 2 ^ 20 + b)\<rparr>"

definition demo_module :: module_state where
  "demo_module = \<lparr>aesd_major = 0, aesd_minor = 0, world_of = demo_world, regions = {}\<rparr>"

theorem loaded_driver_stays_consistent_witness:
  "dev_inv demo_kernel hi_world \<and> \<not> mutex_held (dev hi_world)"
proof -
  let ?s = "\<lparr>aesd_major = 15, aesd_minor = 0, world_of = demo_world, regions = {0xF00000}\<rparr>"
  have load: "aesd_init_module demo_chrdev demo_module = (0, ?s)"
    by (simp add: aesd_init_module_def aesd_setup_cdev_def demo_chrdev_def demo_module_def demo_world_def)
  have empty: "mem (world_of demo_module) = Map.empty" by (simp add: demo_module_def demo_world_def)
  have "driver_step True demo_kernel demo_world hi_world"
    by (rule driver_step.call_write [OF _ _ _ hi_aesd_write]) simp_all
  then have "(driver_step True demo_kernel)\<^sup>*\<^sup>* (world_of ?s) hi_world" by simp
  from loaded_driver_stays_consistent [OF load empty this] show ?thesis by simp
qed

text \<open>C20: unloading frees every block of the stored lines, exactly once, and nothing else: the
  block of a pending line stays allocated.\<close>

theorem cleanup_leaves_pending_only:
  assumes "dev_inv K (world_of s)" and "kfree_ok K"
  shows "\<exists>s'. aesd_cleanup_module A K s = Inr s' \<and>
     dom (mem (world_of s')) =
       (let p = buffptr (buf_entry (dev (world_of s))) in if p = NULL then {} else {p}) \<and>
     live_ptrs (entry (circular_buf (dev (world_of s')))) = [] \<and> \<not> cdev_live (dev (world_of s'))"
  using cleanup_module_heap [OF dev_inv_wfD [OF assms(1)] assms(2), of A] by (simp add: Let_def)

theorem cleanup_leaves_pending_only_witness:
  "\<exists>s'. aesd_cleanup_module demo_chrdev demo_kernel (demo_module\<lparr>world_of := hi_world\<rparr>) = Inr s' \<and>
     dom (mem (world_of s')) = {} \<and> 16 \<in> dom (mem hi_world) \<and> \<not> cdev_live (dev (world_of s'))"
proof -
  have "dev_inv demo_kernel (world_of (demo_module\<lparr>world_of := hi_world\<rparr>))"
    using hi_file_facts(1) by (simp add: file_inv_def hi_file_def demo_file_def)
  from cleanup_leaves_pending_only [OF this demo_kernel_ok(1), of demo_chrdev] show ?thesis
    by (auto simp: hi_world_def demo_world_def fresh_device_def zero_entry_def)
qed

text \<open>C9: also when reallocations fail, every state the handlers reach is well formed, but for
  blocks that belong to no entry any more: no write of at least one byte (or onto a pending
  line) faults, unloading frees all stored blocks, and a read faults only where the kernel
  traps the search's debugging print of a line without a zero byte.\<close>

theorem driver_survives_failed_allocations:
  assumes "aesd_init_module A s = (0, s')" and "mem (world_of s) = Map.empty"
    and "(driver_step False K)\<^sup>*\<^sup>* (world_of s') w" and "kernel_ok K"
    and "unat count < 2 ^ 31" and "esize (buf_entry (dev w)) \<noteq> 0 \<or> count \<noteq> 0"
  shows "\<exists>L. dev_wf L K w \<and> \<not> mutex_held (dev w) \<and>
     ((\<exists>res. aesd_read K filp buf n pos w = Inr res) \<or>
        aesd_read K filp buf n pos w = Inl OutOfBounds \<and> print_traps K (view w) pos) \<and>
     (\<exists>res. aesd_write K filp buf count pos w = Inr res) \<and>
     (\<exists>s2. aesd_cleanup_module A K (s'\<lparr>world_of := w\<rparr>) = Inr s2 \<and>
        live_ptrs (entry (circular_buf (dev (world_of s2)))) = [])"
proof -
  have "driver_safe K (world_of s')"
    using init_module_result [OF assms(2), where A = A and K = K] assms(1)
    by (auto simp: driver_safe_def dest: dev_inv_wfD)
  then obtain L where wf: "dev_wf L K w" "\<not> mutex_held (dev w)"
    using driver_low.run_inv [OF assms(3)] by (auto simp: driver_safe_def)
  moreover have "\<exists>s2. aesd_cleanup_module A K (s'\<lparr>world_of := w\<rparr>) = Inr s2 \<and>
        live_ptrs (entry (circular_buf (dev (world_of s2)))) = []"
    using cleanup_module_heap [of L K "s'\<lparr>world_of := w\<rparr>" A] wf(1) assms(4) by (auto simp: kernel_ok_def)
  moreover have "(\<exists>res. aesd_read K filp buf n pos w = Inr res) \<or>
      aesd_read K filp buf n pos w = Inl OutOfBounds \<and> print_traps K (view w) pos"
    using read_faults_only_printing [OF wf(1) assms(4), of filp buf n pos]
    by (cases "aesd_read K filp buf n pos w") auto
  ultimately show ?thesis
    using write_never_faults [OF wf(1) assms(4,5,6)] by blast
qed

definition loaded_demo :: module_state where
  "loaded_demo = \<lparr>aesd_major = 15, aesd_minor = 0, world_of = demo_world, regions = {0xF00000}\<rparr>"

definition lost_world :: world where
  "lost_world = part_world\<lparr>dev := (dev part_world)\<lparr>buf_entry := \<lparr>buffptr = 0, esize = 1\<rparr>\<rparr>\<rparr>"

lemma demo_load: "aesd_init_module demo_chrdev demo_module = (0, loaded_demo)"
  by (simp add: aesd_init_module_def aesd_setup_cdev_def demo_chrdev_def demo_module_def demo_world_def loaded_demo_def)

lemma lost_write:
  "aesd_write demo_kernel (Some demo_filp) (Some []) 4194304 0 part_world = Inr (Inl ENOMEM, 0, lost_world)"
  by (simp add: aesd_write_def lock_dev_def aesd_write_locked_def krealloc_checked_def part_world_def
      demo_krealloc_def Let_def unlock_dev_def lost_world_def demo_world_def del: and_then_eq_Inr)
    (simp add: fresh_device_def)

theorem driver_survives_failed_allocations_witness:
  "\<exists>L. dev_wf L demo_kernel lost_world \<and> \<not> mutex_held (dev lost_world) \<and>
     (\<exists>res. aesd_read demo_kernel (Some demo_filp) (Some [0]) 1 0 lost_world = Inr res) \<and>
     (\<exists>res. aesd_write demo_kernel (Some demo_filp) (Some [0]) 1 0 lost_world = Inr res)"
proof -
  have "mem (world_of demo_module) = Map.empty" by (simp add: demo_module_def demo_world_def)
  moreover have "driver_step False demo_kernel demo_world part_world"
    by (rule driver_step.call_write [OF _ _ _ part_write_1]) simp_all
  moreover have "driver_step False demo_kernel part_world lost_world"
    by (rule driver_step.call_write [OF _ _ _ lost_write]) simp_all
  ultimately have empty: "mem (world_of demo_module) = Map.empty"
    and run: "(driver_step False demo_kernel)\<^sup>*\<^sup>* (world_of loaded_demo) lost_world"
    by (simp_all add: loaded_demo_def)
  from driver_survives_failed_allocations [OF demo_load empty run, of 1 "Some demo_filp" "Some [0]" 1 0]
  show ?thesis by auto
qed

section \<open>The circular buffer\<close>

text \<open>C21: adding any sequence of entries to a buffer in its invariant keeps the invariant and
  leaves the last ten of the old and the new entries, oldest first.\<close>

theorem add_entries_keep_last_ten:
  assumes "cb_inv b"
  shows "cb_inv (foldl cb_push b es) \<and> stored (foldl cb_push b es) = last_n 10 (stored b @ es)"
  using cb.inv_fold [OF assms] cb.content_fold [OF assms] by blast

theorem add_entries_keep_last_ten_witness:
  "cb_inv (foldl cb_push (circular_buf fresh_device) (replicate 11 \<lparr>buffptr = 16, esize = 3\<rparr>)) \<and>
   stored (foldl cb_push (circular_buf fresh_device) (replicate 11 \<lparr>buffptr = 16, esize = 3\<rparr>)) =
     last_n 10 (stored (circular_buf fresh_device) @ replicate 11 \<lparr>buffptr = 16, esize = 3\<rparr>)"
  by (rule add_entries_keep_last_ten) (simp add: fresh_device_def)

text \<open>C22: one call of \<open>add_entry\<close> never leaves the array; it returns the data pointer of the
  oldest entry exactly when the buffer holds ten, else null, and what it returns and keeps
  is together what was stored and the new entry.\<close>

theorem add_entry_returns_evicted:
  assumes "cb_inv b"
  shows "\<exists>b'. aesd_circular_buffer_add_entry (Some b) (Some e) =
       Inr (Some b', if length (stored b) = 10 then buffptr (hd (stored b)) else NULL) \<and>
     cb_inv b' \<and>
     (if length (stored b) = 10 then hd (stored b) # stored b' = stored b @ [e]
      else stored b' = stored b @ [e])"
  using cb.add_partition [OF assms, of e] cb.evicted_full [OF assms] cb.content_bound [OF assms]
    add_entry_push [OF assms, of e] cb_inv_push [OF assms, of e]
  by (auto split: if_splits)

theorem add_entry_returns_evicted_witness:
  "\<exists>b'. aesd_circular_buffer_add_entry (Some hi_buffer) (Some zero_entry) =
       Inr (Some b', if length (stored hi_buffer) = 10 then buffptr (hd (stored hi_buffer)) else NULL) \<and>
     cb_inv b' \<and>
     (if length (stored hi_buffer) = 10 then hd (stored hi_buffer) # stored b' = stored hi_buffer @ [zero_entry]
      else stored b' = stored hi_buffer @ [zero_entry])"
  by (rule add_entry_returns_evicted) (simp add: hi_buffer_def cb_inv_push fresh_device_def)

text \<open>C23: as long as the stored sizes sum to less than 2^31, the search returns the entry a
  position falls into and the offset within it, and null exactly for positions past the end.\<close>

theorem find_entry_offset_correct:
  assumes "cb_inv b" and "sum_list (stored_sizes b) < 2 ^ 31"
  shows "case aesd_circular_buffer_find_entry_offset_for_fpos print_str (Some b) pos (Some r) of
       Inl f \<Rightarrow> \<exists>j. j < length (stored b) \<and> print_str (stored b ! j) = Inl f \<and>
         sum_list (take j (stored_sizes b)) \<le> unat pos \<and> unat pos < sum_list (take (Suc j) (stored_sizes b))
     | Inr (None, _) \<Rightarrow> sum_list (stored_sizes b) \<le> unat pos
     | Inr (Some i, off) \<Rightarrow> \<exists>j k. i = slot b j \<and> off = Some (of_nat k) \<and> j < length (stored b) \<and>
         k < unat (esize (stored b ! j)) \<and> unat pos = sum_list (take j (stored_sizes b)) + k"
proof (cases "locate (stored_sizes b) (unat pos)")
  case None
  with find_locate [OF assms, of print_str pos r] show ?thesis by (simp add: locate_None_iff)
next
  case (Some jk)
  then obtain j k where jk: "locate (stored_sizes b) (unat pos) = Some (j, k)" by (cases jk) auto
  then have j: "j < length (stored b)" "k < unat (esize (stored b ! j))"
      "unat pos = sum_list (take j (stored_sizes b)) + k"
    by (auto simp: locate_Some_iff stored_sizes_def)
  have next_sum: "sum_list (take (Suc j) (stored_sizes b)) = sum_list (take j (stored_sizes b)) + unat (esize (stored b ! j))"
    using j(1) by (simp add: take_Suc_conv_app_nth stored_sizes_def)
  have found: "aesd_circular_buffer_find_entry_offset_for_fpos print_str (Some b) pos (Some r) =
      and_then (print_str (stored b ! j)) (\<lambda>_. Inr (Some (slot b j), Some (of_nat k)))"
    using find_locate [OF assms, of print_str pos r] jk by simp
  show ?thesis
  proof (cases "print_str (stored b ! j)")
    case (Inl f)
    with j next_sum show ?thesis unfolding found by (simp, intro exI [of _ j]) simp
  next
    case (Inr u)
    with j show ?thesis unfolding found by (simp, intro exI [of _ j] conjI refl exI [of _ k]) simp_all
  qed
qed

theorem find_entry_offset_correct_witness:
  "case aesd_circular_buffer_find_entry_offset_for_fpos (\<lambda>_. Inr ()) (Some hi_buffer) 2 (Some 0) of
       Inl f \<Rightarrow> False
     | Inr (None, _) \<Rightarrow> sum_list (stored_sizes hi_buffer) \<le> unat (2 :: size_t)
     | Inr (Some i, off) \<Rightarrow> \<exists>j k. i = slot hi_buffer j \<and> off = Some (of_nat k) \<and> j < length (stored hi_buffer) \<and>
         k < unat (esize (stored hi_buffer ! j)) \<and>
         unat (2 :: size_t) = sum_list (take j (stored_sizes hi_buffer)) + k"
proof -
  have "cb_inv hi_buffer" "sum_list (stored_sizes hi_buffer) < 2 ^ 31"
    by (simp_all add: hi_buffer_def cb_inv_push fresh_device_def stored_sizes_def stored_push)
  from find_entry_offset_correct [OF this, of "\<lambda>_. Inr ()" 2 0] show ?thesis
    by (auto split: sum.splits prod.splits option.splits)
qed

text \<open>C30: beyond that bound the 32-bit accumulator turns negative, which the comparison takes for a
  large number: every position at or after the start of the entry whose end passes 2^31 is
  reported to lie in that entry, at an offset too large by 2^32, past the entry's end.\<close>

theorem find_entry_offset_overflow:
  fixes b :: aesd_circular_buffer and j :: nat
  defines "start \<equiv> sum_list (take j (stored_sizes b))" and "n \<equiv> unat (esize (stored b ! j))"
  assumes "cb_inv b" and "j < length (stored b)" and "start < 2 ^ 31" and "2 ^ 31 \<le> start + n" and "start + n < 2 ^ 32"
    and "start \<le> unat pos" and "unat pos < 2 ^ 62" and "print_str (stored b ! j) = Inr ()"
  shows "\<exists>off. aesd_circular_buffer_find_entry_offset_for_fpos print_str (Some b) pos (Some r) =
       Inr (Some (slot b j), Some off) \<and> unat off = unat pos - start + 2 ^ 32 \<and> n < unat off"
proof -
  have "aesd_circular_buffer_find_entry_offset_for_fpos print_str (Some b) pos (Some r) =
      Inr (Some (slot b j), Some (of_nat (unat pos - start + 2 ^ 32)))"
    using find_overflow [of b j pos print_str r] assms(3-10) by (simp add: start_def n_def)
  moreover have "unat (of_nat (unat pos - start + 2 ^ 32) :: size_t) = unat pos - start + 2 ^ 32"
    using assms(9) by (intro unat_of_nat_lt) simp
  ultimately show ?thesis using assms(7) by auto
qed

text \<open>Two entries of 1.5 GiB; the last byte of the first is found, the first of the second is not.\<close>

theorem find_entry_offset_overflow_witness:
  "\<exists>off. aesd_circular_buffer_find_entry_offset_for_fpos (\<lambda>_. Inr ())
       (Some (cb_push (cb_push (circular_buf fresh_device) \<lparr>buffptr = 16, esize = 0x60000000\<rparr>)
          \<lparr>buffptr = 17, esize = 0x60000000\<rparr>)) 0x60000000 (Some 0) =
       Inr (Some 1, Some off) \<and> unat off = 2 ^ 32"
proof -
  let ?b = "cb_push (cb_push (circular_buf fresh_device) \<lparr>buffptr = 16, esize = 0x60000000\<rparr>)
          \<lparr>buffptr = 17, esize = 0x60000000\<rparr>"
  have inv: "cb_inv ?b" by (simp add: cb_inv_push fresh_device_def)
  have st: "stored ?b = [\<lparr>buffptr = 16, esize = 0x60000000\<rparr>, \<lparr>buffptr = 17, esize = 0x60000000\<rparr>]"
    by (simp add: stored_push cb_inv_push fresh_device_def)
  have "slot ?b 1 = 1"
    by (simp add: slot_def push_not_full cb_inv_push fresh_device_def aesd_circular_buffer_init_def cb_inv_def nth_Cons' zero_entry_def)
  with find_entry_offset_overflow [of ?b 1 "0x60000000" "\<lambda>_. Inr ()" 0] inv show ?thesis
    unfolding stored_sizes_def st by (simp, blast)
qed

section \<open>Positioning\<close>

text \<open>C31: the loop of the seek command ends for every index of the array, within the array.\<close>

theorem seek_loop_returns:
  assumes "cb_inv b" and "idx < 10"
  shows "\<exists>off. seek_loop b idx (unat (out_offs b)) 0 = Some (Inr (idx, off))"
proof -
  let ?o = "unat (out_offs b)"
  define j where "j = (idx + (10 - ?o)) mod 10"
  have "?o < 10" using out_offs_lt [OF assms(1)] .
  then have "slot b j = idx" using assms(2) by (simp add: slot_def j_def mod_add_right_eq)
  moreover have "j < 10" by (simp add: j_def)
  ultimately show ?thesis
    using seek_loop_from [OF assms(1), of 0 j 0] by (simp add: slot_0 [OF assms(1)])
qed

theorem seek_loop_returns_witness:
  "\<exists>off. seek_loop hi_buffer 9 (unat (out_offs hi_buffer)) 0 = Some (Inr (9, off))"
  by (rule seek_loop_returns) (simp_all add: hi_buffer_def cb_inv_push fresh_device_def)

text \<open>C32: the loop of \<open>llseek\<close> ends, with the least multiple of the pending size plus one that is
  at least ten; the sizes of the stored lines do not enter.\<close>

theorem llseek_size_is_least_multiple:
  assumes "unat pending_size < 2 ^ 62"
  shows "\<exists>sz. llseek_size pending_size 0 = Some sz \<and>
     unat sz = least_multiple_from_ten (Suc (unat pending_size)) \<and>
     10 \<le> unat sz \<and> unat sz < 10 + Suc (unat pending_size)"
proof -
  note b = least_multiple_bounds [of "Suc (unat pending_size)", simplified]
  then have "unat (of_nat (least_multiple_from_ten (Suc (unat pending_size))) :: loff_t) =
      least_multiple_from_ten (Suc (unat pending_size))"
    using assms by (intro unat_of_nat_lt) simp
  moreover have "least_multiple_from_ten (Suc (unat pending_size)) < 10 + Suc (unat pending_size)"
    using b by simp
  ultimately show ?thesis using b llseek_size_result [OF assms] by metis
qed

theorem llseek_size_is_least_multiple_witness:
  "\<exists>sz. llseek_size 3 0 = Some sz \<and> unat sz = least_multiple_from_ten (Suc (unat (3 :: size_t))) \<and>
     10 \<le> unat sz \<and> unat sz < 10 + Suc (unat (3 :: size_t))"
  by (rule llseek_size_is_least_multiple) simp

text \<open>C33: so a seek to the end of a device without pending bytes goes to position 10, whatever
  the device holds.\<close>

theorem seek_end_ignores_contents:
  assumes "private_data filp = Some d" and "esize (buf_entry (dev w)) = 0" and "fixed_size_llseek_ok K"
  shows "\<exists>w'. aesd_llseek K filp 0 2 w = Some (Inr (Inr 10), filp\<lparr>f_pos := 10\<rparr>, w')"
proof -
  have "llseek_target (f_pos filp) 0 2 10 = 10" by (simp add: llseek_target_def)
  then have "fixed_size_llseek K (f_pos filp) 0 2 10 = (10, Inr 10)"
    using assms(3) unfolding fixed_size_llseek_ok_def Let_def by (auto dest!: spec [of _ 2])
  then show ?thesis
    using assms by (simp add: aesd_llseek_result least_multiple_from_ten_def)
qed

theorem seek_end_ignores_contents_witness:
  "\<exists>w'. aesd_llseek demo_kernel demo_filp 0 2 hi_world = Some (Inr (Inr 10), demo_filp\<lparr>f_pos := 10\<rparr>, w')"
  by (rule seek_end_ignores_contents)
    (simp_all add: hi_world_def demo_world_def fresh_device_def zero_entry_def)

section \<open>Writes that go wrong\<close>

text \<open>A write of no bytes to a device with no pending bytes never succeeds: it is refused, or
  reads the byte before the block.\<close>

theorem write_of_nothing_never_succeeds:
  assumes "dev_inv K w" and "kernel_ok K" and "not_interrupted K" and "private_data fp = Some d"
    and "pending (view w) = []"
  shows "(\<exists>w'. aesd_write K (Some fp) (Some ubuf) 0 pos w = Inr (Inl EFAULT, pos, w') \<or>
       aesd_write K (Some fp) (Some ubuf) 0 pos w = Inr (Inl ENOMEM, pos, w')) \<or>
     aesd_write K (Some fp) (Some ubuf) 0 pos w = Inl OutOfBounds"
proof -
  consider ret w' where "aesd_write K (Some fp) (Some ubuf) 0 pos w = Inr (ret, pos, w')"
      "write_outcome K ubuf 0 w ret w'"
    | "aesd_write K (Some fp) (Some ubuf) 0 pos w = Inl OutOfBounds"
    using aesd_write_outcome [of K w fp d 0 ubuf pos] assms unfolding kernel_ok_def by auto
  then show ?thesis
  proof cases
    case 1
    from 1(2) have "ret = Inl EFAULT \<or> ret = Inl ENOMEM"
      using assms(5) by (cases ret) (auto simp: write_outcome_def split: errno.splits)
    with 1(1) show ?thesis by blast
  next
    case 2
    then show ?thesis by (rule disjI2)
  qed
qed

theorem write_of_nothing_never_succeeds_witness:
  "(\<exists>w'. aesd_write demo_kernel (Some demo_filp) (Some []) 0 0 demo_world = Inr (Inl EFAULT, 0, w') \<or>
       aesd_write demo_kernel (Some demo_filp) (Some []) 0 0 demo_world = Inr (Inl ENOMEM, 0, w')) \<or>
     aesd_write demo_kernel (Some demo_filp) (Some []) 0 0 demo_world = Inl OutOfBounds"
  by (rule write_of_nothing_never_succeeds [where d = 0]) simp_all

text \<open>A write whose reallocation fails loses the pending line: its pointer is overwritten with
  null although the block stays allocated, and its size is kept, so that a device with
  pending bytes is no longer in its invariant.\<close>

theorem failed_realloc_loses_pending:
  assumes "dev_inv K w" and "esize (buf_entry (dev w)) \<noteq> 0"
    and "krealloc K (mem w) (buffptr (buf_entry (dev w))) (esize (buf_entry (dev w)) + count) = (mem w, NULL)"
  shows "\<exists>w'. aesd_write_locked K ubuf count w = Inr (Inl ENOMEM, w') \<and> mem w' = mem w \<and>
     buf_entry (dev w') = (buf_entry (dev w))\<lparr>buffptr := NULL\<rparr> \<and>
     mem w' (buffptr (buf_entry (dev w))) \<noteq> None \<and> \<not> dev_inv K w'"
proof -
  let ?e = "buf_entry (dev w)"
  have m: "mem w (buffptr ?e) \<noteq> None" "buffptr ?e \<noteq> NULL"
    using dev_invD(3) [OF assms(1)] assms(2) by (auto simp: pending_ok_def split: if_splits option.splits)
  let ?w' = "w\<lparr>dev := (dev w)\<lparr>buf_entry := ?e\<lparr>buffptr := NULL\<rparr>\<rparr>\<rparr>"
  have "aesd_write_locked K ubuf count w = Inr (Inl ENOMEM, ?w')"
    using m assms(3) by (simp add: aesd_write_locked_def krealloc_checked_def Let_def)
  moreover have "\<not> dev_inv K ?w'" using assms(2) by (simp add: dev_inv_def pending_ok_def)
  ultimately show ?thesis using m by (intro exI [of _ ?w']) simp
qed

theorem failed_realloc_loses_pending_witness:
  "\<exists>w'. aesd_write_locked demo_kernel [] 4194304 part_world = Inr (Inl ENOMEM, w') \<and> mem w' = mem part_world \<and>
     buf_entry (dev w') = (buf_entry (dev part_world))\<lparr>buffptr := NULL\<rparr> \<and>
     mem w' (buffptr (buf_entry (dev part_world))) \<noteq> None \<and> \<not> dev_inv demo_kernel w'"
proof (rule failed_realloc_loses_pending)
  have "device_writes demo_file [[104]] = Some (demo_file\<lparr>wld := part_world\<rparr>)"
    using part_write_1 by (simp add: device_write_def filp_of_def demo_file_def demo_filp_def)
  from device_writes_view [OF demo_file_sound _ this] show "dev_inv demo_kernel part_world"
    by (simp add: file_sound_def)
qed (simp_all add: part_world_def demo_krealloc_def)

text \<open>C34: the bytes that were pending then reappear as whatever the next block holds: a write after
  a failed reallocation puts as many bytes of the new block as were pending before the
  written ones, and so hands kernel memory to readers.\<close>

theorem lost_line_discloses_block:
  assumes "dev_wf L K w" and "\<not> has_pending_block w" and "kernel_ok K" and "unat count < 2 ^ 31"
    and "krealloc K (mem w) NULL (esize (buf_entry (dev w)) + count) = (h, q)" and "h q = Some bs"
    and "aesd_write_locked K ubuf count w = Inr (Inr n, w')"
  shows "esize (buf_entry (dev w)) \<noteq> 0 \<and> pending (view w) = [] \<and>
     view w' = view_write ((view w)\<lparr>pending := take (unat (esize (buf_entry (dev w)))) bs\<rparr>) (take (unat count) ubuf)"
proof -
  let ?e = "buf_entry (dev w)"
  have e: "buffptr ?e = NULL" "esize ?e \<noteq> 0" using assms(2) by (simp_all add: has_pending_block_def)
  then have "write_outcome_wf L K ubuf count w (Inr n) w'"
    using write_locked_wf [OF assms(1), of count ubuf] assms(3,4,7) by (auto simp: kernel_ok_def)
  then have "view w' = view_write ((view w)\<lparr>pending := take (unat (esize ?e)) bs\<rparr>) (take (unat count) ubuf)"
    using assms(5,6) e(1) by (auto simp: write_outcome_wf_simps pending_prefix_def Let_def)
  moreover have "pending (view w) = []"
    using null_not_mapped [OF assms(1)] e(1) by (simp add: pending_view entry_bytes_def)
  ultimately show ?thesis using e(2) by simp
qed

lemma lost_world_wf: "dev_wf {16} demo_kernel lost_world"
proof -
  have "device_writes demo_file [[104]] = Some (demo_file\<lparr>wld := part_world\<rparr>)"
    using part_write_1 by (simp add: device_write_def filp_of_def demo_file_def demo_filp_def)
  from device_writes_view [OF demo_file_sound _ this] have "dev_wf {} demo_kernel part_world"
    by (simp add: file_sound_def dev_inv_wfD)
  from lost_block_wf [OF this, of lost_world] show ?thesis
    by (simp add: lost_world_def part_world_def)
qed

definition stale_world :: world where
  "stale_world = lost_world\<lparr>dev := (dev lost_world)\<lparr>buf_entry := \<lparr>buffptr = 17, esize = 2\<rparr>\<rparr>,
     mem := [16 \<mapsto> [104], 17 \<mapsto> [0, 105]]\<rparr>"

lemma stale_write: "aesd_write_locked demo_kernel [105] 1 lost_world = Inr (Inr 1, stale_world)"
  and stale_block: "krealloc demo_kernel (mem lost_world) NULL 2 = ([16 \<mapsto> [104], 17 \<mapsto> [0, 0]], 17)"
proof -
  have "List.find (\<lambda>q. q \<noteq> 16) demo_pool = Some 17" by (simp add: demo_pool_def upt_rec)
  moreover have "replicate 2 0 = [0, 0 :: byte]" by (simp add: numeral_2_eq_2)
  ultimately have kr: "demo_krealloc [16 \<mapsto> [104]] 0 2 = ([16 \<mapsto> [104], 17 \<mapsto> [0, 0]], 17)"
    by (simp add: demo_krealloc_def)
  have m: "mem lost_world = [16 \<mapsto> [104]]" by (simp add: lost_world_def part_world_def)
  show "krealloc demo_kernel (mem lost_world) NULL 2 = ([16 \<mapsto> [104], 17 \<mapsto> [0, 0]], 17)"
    using kr by (simp add: m)
  show "aesd_write_locked demo_kernel [105] 1 lost_world = Inr (Inr 1, stale_world)"
    by (simp add: aesd_write_locked_def krealloc_checked_def lost_world_def part_world_def kr del: and_then_eq_Inr,
        simp add: heap_slice_def heap_block_def heap_write_def write_commit_def heap_load_def Let_def
          stale_world_def lost_world_def part_world_def
          del: and_then_eq_Inr heap_load_eq_Inr heap_block_eq_Inr)
qed

theorem lost_line_discloses_block_witness:
  "esize (buf_entry (dev lost_world)) \<noteq> 0 \<and> pending (view lost_world) = [] \<and>
     view stale_world = view_write ((view lost_world)\<lparr>pending := take (unat (esize (buf_entry (dev lost_world)))) [0, 0]\<rparr>)
       (take (unat (1 :: size_t)) [105])"
proof (rule lost_line_discloses_block [OF lost_world_wf _ _ _ _ _ stale_write])
  show "krealloc demo_kernel (mem lost_world) NULL (esize (buf_entry (dev lost_world)) + 1) =
      ([16 \<mapsto> [104], 17 \<mapsto> [0, 0]], 17)"
    using stale_block by (simp add: lost_world_def)
qed (simp_all add: has_pending_block_def lost_world_def)



section \<open>The loop over the array\<close>

text \<open>C24: AESD_CIRCULAR_BUFFER_FOREACH, with its 8-bit index, runs its body once on each of the ten
  elements of a buffer in its invariant, in order, and stops at the first fault of the body;
  it is the plain traversal of the array.\<close>

theorem foreach_visits_every_entry:
  assumes "cb_inv b"
  shows "foreach_entry body 0 b h =
    and_then (visit_entries body (entry b) h) (\<lambda>(es, h'). Inr (b\<lparr>entry := es\<rparr>, h'))"
  using assms by (simp add: foreach_entry_all cb_inv_def)

text \<open>A body that counts its runs and writes the count into the element's size.\<close>

definition count_body :: "aesd_buffer_entry \<Rightarrow> nat \<Rightarrow> fault + aesd_buffer_entry \<times> nat" where
  "count_body e n = Inr (e\<lparr>esize := of_nat n\<rparr>, Suc n)"

theorem foreach_visits_every_entry_witness:
  "\<exists>b'. foreach_entry count_body 0 (circular_buf fresh_device) 0 = Inr (b', 10) \<and>
     map esize (entry b') = map of_nat [0 ..< 10]"
proof -
  have "cb_inv (circular_buf fresh_device)"
    using demo_world_inv(1) by (auto simp: dev_inv_def demo_world_def)
  note foreach_visits_every_entry [OF this, of count_body 0]
  moreover have "entry (circular_buf fresh_device) = replicate 10 zero_entry"
    by (simp add: fresh_device_def aesd_circular_buffer_init_def)
  ultimately show ?thesis
    by (simp add: numeral_eq_Suc count_body_def upt_rec)
qed

section \<open>Calls that overlap\<close>

text \<open>C4: reads and writes of any number of processes, their steps interleaved in any way on a
  device that is safe, give the replies and leave the device that the handlers give one after the
  other in the order in which the calls released the mutex; each call returns once.\<close>

theorem concurrent_calls_linearize:
  assumes "mutex_ok K" and "not_interrupted K" and "\<not> mutex_held (dev w)"
    and "(system_step signals K calls)\<^sup>*\<^sup>* (system_start w) s"
  shows "(\<exists>w'. serial K (map (\<lambda>(i, r). calls ! i) (returned s)) w = Inr (map snd (returned s), w') \<and>
            ((\<forall>i. \<not> inside (place_of s i)) \<longrightarrow> device s = w')) \<and>
         distinct (map fst (returned s)) \<and>
         (\<forall>i r. place_of s i = Returned r \<longrightarrow> (i, r) \<in> set (returned s) \<or> r = Interrupted)"
  using calls_inv_serial [OF calls.run_inv [OF assms(4) calls_inv_start [OF assms(1-3)]]]
    returned_calls.run_inv [OF assms(4) returned_inv_start]
  unfolding returned_inv_def by blast

text \<open>One caller writes a line while another waits and is interrupted.\<close>

definition demo_calls :: "call list" where
  "demo_calls = [WriteCall hi_line 3, ReadCall [] 0 0]"

definition grown_world :: "byte list \<Rightarrow> world" where
  "grown_world bytes = \<lparr>dev = (dev demo_world)\<lparr>mutex_held := True, buf_entry := \<lparr>buffptr = 16, esize = 0\<rparr>\<rparr>,
     mem = [16 \<mapsto> bytes]\<rparr>"

lemma demo_steps:
  "write_grow demo_kernel 3 (with_mutex True demo_world) = Inr (Grown, grown_world [0, 0, 0])"
  "write_copy demo_kernel hi_line 3 (grown_world [0, 0, 0]) = Inr (Copied, grown_world hi_line)"
  "write_end demo_kernel 3 (grown_world hi_line) = Inr (Leaving (Wrote (Inr 3)), with_mutex True hi_world)"
proof -
  have b: "buf_entry fresh_device = \<lparr>buffptr = 0, esize = 0\<rparr>" by (simp add: fresh_device_def zero_entry_def)
  show "write_grow demo_kernel 3 (with_mutex True demo_world) = Inr (Grown, grown_world [0, 0, 0])"
    by (simp add: write_grow_def krealloc_checked_def demo_world_def grown_world_def b
        demo_krealloc_new del: and_then_eq_Inr)
  show "write_copy demo_kernel hi_line 3 (grown_world [0, 0, 0]) = Inr (Copied, grown_world hi_line)"
    by (simp add: write_copy_def grown_world_def heap_slice_def heap_block_def heap_write_def hi_line_def
        del: and_then_eq_Inr heap_block_eq_Inr)
  show "write_end demo_kernel 3 (grown_world hi_line) = Inr (Leaving (Wrote (Inr 3)), with_mutex True hi_world)"
    by (simp add: write_end_def grown_world_def write_commit_def heap_load_def heap_block_def Let_def
          finish_line_def hi_line_def demo_world_def hi_add_entry kfree_checked_def hi_world_def
          del: and_then_eq_Inr heap_load_eq_Inr heap_block_eq_Inr)
      (auto simp: zero_entry_def b)
qed

lemma demo_run:
  "\<exists>s. (system_step True demo_kernel demo_calls)\<^sup>*\<^sup>* (system_start demo_world) s \<and>
     returned s = [(0, Wrote (Inr 3))] \<and> device s = hi_world \<and> place_of s 1 = Returned Interrupted \<and>
     (\<forall>i. \<not> inside (place_of s i))"
proof -
  let ?step = "system_step True demo_kernel demo_calls"
  define s where "s w p = \<lparr>device = w, place_of = (\<lambda>_. Outside)(0 := p), returned = [], crashed = False\<rparr>" for w p
  have start: "?step (system_start demo_world) (s (with_mutex True demo_world) Entered)"
    using system_step.enter [of 0 demo_calls "system_start demo_world" True demo_kernel]
    by (simp add: s_def system_start_def demo_calls_def demo_world_def fresh_device_def)
  have "?step (s w p) (s w' p')" if "working p" "call_step demo_kernel (WriteCall hi_line 3) p w = Inr (p', w')" for w p w' p'
    using system_step.work [of 0 demo_calls "s w p" demo_kernel p' w' True] that
    by (simp add: s_def demo_calls_def)
  then have work: "?step (s (with_mutex True demo_world) Entered) (s (grown_world [0, 0, 0]) Grown)"
    "?step (s (grown_world [0, 0, 0]) Grown) (s (grown_world hi_line) Copied)"
    "?step (s (grown_world hi_line) Copied) (s (with_mutex True hi_world) (Leaving (Wrote (Inr 3))))"
    using demo_steps by (simp_all add: working_def inside_def)
  define left where "left = \<lparr>device = hi_world, place_of = (\<lambda>_. Outside)(0 := Returned (Wrote (Inr 3))),
      returned = [(0, Wrote (Inr 3))], crashed = False\<rparr>"
  define last where "last = left\<lparr>place_of := (place_of left)(1 := Returned Interrupted)\<rparr>"
  have "?step (s (with_mutex True hi_world) (Leaving (Wrote (Inr 3)))) left"
    using system_step.leave [of 0 demo_calls "s (with_mutex True hi_world) (Leaving (Wrote (Inr 3)))"
        "Wrote (Inr 3)" True demo_kernel]
    by (simp add: s_def left_def demo_calls_def hi_world_def)
  moreover have "?step left last"
    using system_step.interrupt [of True 1 demo_calls left demo_kernel]
    by (simp add: demo_calls_def left_def last_def)
  ultimately have "?step\<^sup>*\<^sup>* (system_start demo_world) last"
    using start work by (meson converse_rtranclp_into_rtranclp rtranclp.rtrancl_refl)
  moreover have "returned last = [(0, Wrote (Inr 3))]" "device last = hi_world"
      "place_of last 1 = Returned Interrupted" "\<forall>i. \<not> inside (place_of last i)"
    by (simp_all add: last_def left_def)
  ultimately show ?thesis by blast
qed

theorem concurrent_calls_linearize_witness:
  "serial demo_kernel [WriteCall hi_line 3] demo_world = Inr ([Wrote (Inr 3)], hi_world)"
proof -
  from demo_run obtain s where
    run: "(system_step True demo_kernel demo_calls)\<^sup>*\<^sup>* (system_start demo_world) s" and
    s: "returned s = [(0, Wrote (Inr 3))]" "device s = hi_world" "\<forall>i. \<not> inside (place_of s i)"
    by blast
  have "\<not> mutex_held (dev demo_world)" by (simp add: demo_world_def fresh_device_def)
  from concurrent_calls_linearize [OF demo_kernel_ok(6,7) this run]
  obtain w' where "serial demo_kernel (map (\<lambda>(i, r). demo_calls ! i) (returned s)) demo_world =
      Inr (map snd (returned s), w')" "device s = w'"
    using s(3) by blast
  then show ?thesis by (simp only: s) (simp add: demo_calls_def)
qed

text \<open>C10: no two callers are ever in the critical section together; on a kernel that does not trap the
  search's debugging print none of their steps faults, also when reallocations and copies
  fail, and all calls return: no run takes more than five steps per call, and where no step
  is possible every call has returned. This holds with and without signals that interrupt a
  waiting caller.\<close>

theorem concurrent_calls_return_safely:
  assumes "kernel_ok K" and "not_interrupted K" and "driver_safe K w" and "list_all call_ok calls"
    and "(system_step signals K calls ^^ n) (system_start w) s"
  shows "(\<forall>i j. i \<noteq> j \<longrightarrow> \<not> (inside (place_of s i) \<and> inside (place_of s j))) \<and>
     (\<not> checks_reads K \<longrightarrow>
        \<not> crashed s \<and> n \<le> 5 * length calls \<and>
        ((\<nexists>s'. system_step signals K calls s s') \<longrightarrow> (\<forall>i < length calls. \<exists>r. place_of s i = Returned r)))"
proof -
  have "calls_inv K calls w (system_start w)"
    using assms(1-3) by (intro calls_inv_start) (simp_all add: kernel_ok_def driver_safe_def)
  from calls.run_inv [OF relpowp_imp_rtranclp [OF assms(5)] this] have inv: "calls_inv K calls w s" .
  have "\<not> crashed s \<and> n \<le> 5 * length calls" if unchecked': "\<not> checks_reads K"
  proof -
    note start = quiet_inv_start [OF assms(1,2) unchecked' assms(3,4)]
    from quiet_calls.run_inv [OF relpowp_imp_rtranclp [OF assms(5)] start] calls_steps_bound [OF assms(5) start]
    show ?thesis by (simp add: quiet_inv_def calls_work_def system_start_def)
  qed
  moreover have "\<exists>r. place_of s i = Returned r"
    if "\<nexists>s'. system_step signals K calls s s'" "i < length calls" for i
    using calls_no_deadlock [OF inv that(2), of signals] that(1) by blast
  ultimately show ?thesis using calls_inv_exclusive [OF inv] by blast
qed

theorem concurrent_calls_return_safely_witness:
  "\<exists>s :: system. returned s = [(0, Wrote (Inr 3))] \<and> \<not> crashed s"
proof -
  from demo_run obtain s where
    run: "(system_step True demo_kernel demo_calls)\<^sup>*\<^sup>* (system_start demo_world) s" and
    s: "returned s = [(0, Wrote (Inr 3))]"
    by blast
  have "driver_safe demo_kernel demo_world"
    using dev_inv_wfD [OF demo_world_inv(1)] by (auto simp: driver_safe_def demo_world_def fresh_device_def)
  moreover have "list_all call_ok demo_calls" by (simp add: demo_calls_def)
  moreover obtain n where "(system_step True demo_kernel demo_calls ^^ n) (system_start demo_world) s"
    using rtranclp_imp_relpowp [OF run] by blast
  ultimately have "\<not> crashed s"
    using concurrent_calls_return_safely [OF demo_kernel_all(1) demo_kernel_ok(7)] demo_unchecked by blast
  with s show ?thesis by blast
qed

end
