(* ===== verification/Server_Properties.thy ===== *)
theory Server_Properties
  imports Server_Main Server_Threads Service Timer_Handler Driver_Properties
begin

text \<open>
  The properties of the server: what a client gets from a connection that works on the
  character device, how the listener and its threads account for every connection and
  thread, and the error paths that do not do what they mean to.
\<close>

section \<open>Concrete environments for the witnesses\<close>

definition demo_conn :: "recv_result list \<Rightarrow> device_file \<Rightarrow> device_file conn_env" where
  "demo_conn rs d =
     \<lparr>lock_rc = 0, opened = Some d, recvs = rs, send_rc = (\<lambda>_ bs. int (length bs))\<rparr>"

lemma demo_conn_simps [simp]:
  "lock_rc (demo_conn rs d) = 0" "opened (demo_conn rs d) = Some d" "recvs (demo_conn rs d) = rs"
  "full_sends (send_rc (demo_conn rs d))"
  by (simp_all add: demo_conn_def full_sends_def)

definition demo_round :: round_env where
  "demo_round = \<lparr>accept_fd = 4, malloc_data = 100, malloc_inst = 200, create_rc = 0, create_tid = 1,
     malloc_node = 300\<rparr>"

definition demo_server :: server where
  "demo_server =
     (case listener_spawn demo_round server_init of Some (Inr (_, s)) \<Rightarrow> s | _ \<Rightarrow> server_init)"

lemma demo_allocates [simp]: "allocates demo_round server_init"
  by (simp add: allocates_def server_init_def empty_queue_def)

lemma demo_spawn:
  "listener_spawn demo_round server_init = Some (Inr (True, demo_server)) \<and>
     server_inv demo_server [200] \<and> inst_data demo_server 200 = 100"
proof -
  obtain s' where "listener_spawn demo_round server_init = Some (Inr (True, s'))" "server_inv s' [200]"
      "inst_of s' 200 = Some \<lparr>thread = 1, thread_data = 100\<rparr>"
    using spawn_thread [OF server_inv_init demo_allocates] by (auto simp: demo_round_def)
  then show ?thesis by (simp add: demo_server_def inst_data_def)
qed

lemma demo_running:
  "data_of demo_server 100 = Some \<lparr>client_fd = 4, thread_completed = False\<rparr>"
  using spawn_thread [OF server_inv_init demo_allocates] demo_spawn by (auto simp: demo_round_def)

lemma demo_allocated:
  "data_of demo_server 101 = None \<and> inst_of demo_server 201 = None \<and>
     nodes (queue_of demo_server) 0 = None"
proof -
  have ok: "server_ok demo_server [200]" and d: "inst_data demo_server 200 = 100"
    using demo_spawn by (simp_all add: server_inv_def)
  obtain as where "queue_nodes (queue_of demo_server) as"
    using server_okD(1) [OF ok] by (auto simp: queue_rep_def)
  then have "0 \<notin> dom (nodes (queue_of demo_server))"
    using chain_nonnull unfolding queue_nodes_def by metis
  moreover have "101 \<notin> dom (data_of demo_server)" "201 \<notin> dom (inst_of demo_server)"
    using server_okD(4,7) [OF ok] d by simp_all
  ultimately show ?thesis by (simp add: domIff)
qed

section \<open>Connections\<close>

text \<open>C25: parsing the seek command reads back the two numbers the client printed, and leaves the
  newline that ends the packet in the buffer.\<close>

theorem seek_command_roundtrip:
  assumes "a < 2 ^ 32" and "b < 2 ^ 32"
  shows "\<exists>buf. parse_seek_command (padded (seek_command a b)) =
       Inr (\<lparr>write_cmd = of_nat a, write_cmd_offset = of_nat b\<rparr>, buf) \<and>
     newline_received buf (length (seek_command a b)) \<and>
     unat (of_nat a :: u32) = a \<and> unat (of_nat b :: u32) = b"
proof -
  obtain zs where "padded (seek_command a b) = seek_command a b @ 0 # zs"
    using padded_seek_command [OF assms] by blast
  with parse_padded [OF assms, of zs] seek_command_newline [of a b "0 # zs"] assms show ?thesis
    by (simp add: unat_of_nat_lt)
qed

theorem seek_command_roundtrip_witness:
  "\<exists>buf. parse_seek_command (padded (seek_command 9 4096)) =
       Inr (\<lparr>write_cmd = of_nat 9, write_cmd_offset = of_nat 4096\<rparr>, buf) \<and>
     newline_received buf (length (seek_command 9 4096)) \<and>
     unat (of_nat 9 :: u32) = 9 \<and> unat (of_nat 4096 :: u32) = 4096"
  by (rule seek_command_roundtrip) simp_all

section \<open>The listener\<close>

text \<open>C11: a server whose allocations succeed and whose signal comes when no thread runs never
  touches freed memory, however its threads interleave with the listener: every thread that
  runs has its own data, and when the server has exited nothing is left allocated and every
  thread created was joined.\<close>

theorem patient_server_never_faults:
  assumes "(threads_step True True)\<^sup>*\<^sup>* (Accept, server_init, Map.empty) (pc, s, live)"
  shows "pc \<noteq> Crashed \<and>
     (\<forall>t p. live t = Some p \<longrightarrow> running s p) \<and>
     (pc = Exited \<longrightarrow> data_of s = Map.empty \<and> inst_of s = Map.empty \<and>
        (\<forall>t p. CreateThread t p \<in> set (trace s) \<longrightarrow> JoinThread t \<in> set (trace s)))"
proof -
  have "patient_inv (Accept, server_init, Map.empty)" using threads_inv_init by auto
  then have inv: "patient_inv (pc, s, live)" by (rule patient_server.run_inv [OF assms])
  have live: "running s p" if "threads_inv s tis live" "live t = Some p" for tis t p
    using that by (rule running_thread)
  have exited: "data_of s = Map.empty \<and> inst_of s = Map.empty \<and>
      (\<forall>t p. CreateThread t p \<in> set (trace s) \<longrightarrow> JoinThread t \<in> set (trace s))"
    if "threads_inv s [] Map.empty"
    using threads_invD(2,3,4) [OF that] by (auto simp: server_ok_def accounted_def)
  show ?thesis using inv live exited by (cases pc) auto
qed

definition demo_live :: "nat \<rightharpoonup> ptr" where
  "demo_live = [1 \<mapsto> 100]"

lemma demo_accept_step: "threads_step has_memory patient (Accept, server_init, Map.empty) (Reap, demo_server, demo_live)"
proof -
  have "fresh_thread demo_round server_init Map.empty" by (simp add: fresh_thread_def server_init_def)
  moreover have "malloc_inst demo_round \<noteq> NULL \<and> malloc_node demo_round \<noteq> NULL" by (simp add: demo_round_def)
  moreover have "start_thread demo_round Map.empty = demo_live"
    by (simp add: start_thread_def creates_thread_def demo_round_def demo_live_def)
  ultimately show ?thesis
    using threads_step.round [OF demo_allocates, of Map.empty has_memory True demo_server patient] demo_spawn by simp
qed

theorem patient_server_never_faults_witness: "running demo_server 100"
proof -
  have "(threads_step True True)\<^sup>*\<^sup>* (Accept, server_init, Map.empty) (Reap, demo_server, demo_live)"
    using demo_accept_step by blast
  from patient_server_never_faults [OF this] show ?thesis by (simp add: demo_live_def)
qed

text \<open>C36: when the queue has no memory for the new thread, the thread is cancelled and its data
  freed at once; a thread that still gets to its end then touches freed memory.\<close>

theorem cancelled_thread_uses_freed_data:
  assumes "creates_thread env" and "malloc_node env = NULL" and "allocates env s" and "fresh_thread env s live"
  shows "\<exists>s'. threads_step False patient (Accept, s, live) (Accept, s', live(create_tid env \<mapsto> malloc_data env)) \<and>
     CancelThread (create_tid env) \<in> set (trace s') \<and>
     threads_step False patient (Accept, s', live(create_tid env \<mapsto> malloc_data env))
       (Crashed, s', live(create_tid env \<mapsto> malloc_data env))"
proof -
  let ?live = "live(create_tid env \<mapsto> malloc_data env)"
  let ?s' = "s\<lparr>trace := trace s @
     [CreateThread (create_tid env) (malloc_data env), CancelThread (create_tid env),
      FreeInstance (malloc_inst env), FreeData (malloc_data env), CloseFd (accept_fd env)]\<rparr>"
  have env: "accept_fd env \<noteq> - 1" "malloc_data env \<noteq> NULL" "malloc_inst env \<noteq> NULL" "create_rc env = 0"
    using assms(1) by (simp_all add: creates_thread_def)
  have "listener_spawn env s = Some (Inr (False, ?s'))"
    by (rule spawn_no_node [OF env assms(2,3)])
  then have "threads_step False patient (Accept, s, live) (Accept, ?s', ?live)"
    using threads_step.round [OF assms(3,4), of False False ?s' patient] assms(1)
    by (simp add: start_thread_def)
  moreover have "worker_finish (malloc_data env) ?s' = Inl UseAfterFree"
    using assms(3) env by (simp add: worker_finish_def allocates_def)
  then have "threads_step False patient (Accept, ?s', ?live) (Crashed, ?s', ?live)"
    by (intro threads_step.thread_faults [of _ "create_tid env"]) simp_all
  ultimately show ?thesis by (intro exI [of _ ?s']) simp
qed

theorem cancelled_thread_uses_freed_data_witness:
  "\<exists>s'. threads_step False False (Accept, server_init, Map.empty) (Accept, s', [1 \<mapsto> 100]) \<and>
     CancelThread 1 \<in> set (trace s') \<and>
     threads_step False False (Accept, s', [1 \<mapsto> 100]) (Crashed, s', [1 \<mapsto> 100])"
proof -
  let ?env = "demo_round\<lparr>malloc_node := NULL\<rparr>"
  have "creates_thread ?env" "malloc_node ?env = NULL" "allocates ?env server_init"
      "fresh_thread ?env server_init Map.empty"
    by (simp_all add: creates_thread_def demo_round_def allocates_def fresh_thread_def server_init_def empty_queue_def)
  from cancelled_thread_uses_freed_data [OF this, of False] show ?thesis by (simp add: demo_round_def)
qed

text \<open>C37: the shutdown loop frees the data of a thread before it waits for the thread: if the thread
  at the front of the queue still runs when its turn comes, the server can crash and cannot
  exit any more.\<close>

theorem shutdown_dooms_running_thread:
  assumes "threads_inv s tis live" and "queue_dequeue (queue_of s) = Inr (ti, q)" and "ti \<in> set tis"
    and "inst_of s ti = Some \<lparr>thread = t, thread_data = p\<rparr>" and "live t = Some p"
  shows "\<exists>s'. threads_step has_memory patient (Drain, s, live) (Join ti, s', live) \<and>
     threads_step has_memory patient (Join ti, s', live) (Crashed, s', live) \<and>
     \<not> (\<exists>s2 live2. (threads_step has_memory patient)\<^sup>*\<^sup>* (Join ti, s', live) (Exited, s2, live2))"
proof -
  obtain s' where s': "shutdown_release ti (s\<lparr>queue_of := q\<rparr>) = Inr s'" "doomed ti (Join ti, s', live)"
    using release_dooms [OF assms] by blast
  have "ti \<noteq> NULL" using server_okD(3) [OF threads_invD(2) [OF assms(1)]] assms(3) by metis
  then have rel: "threads_step has_memory patient (Drain, s, live) (Join ti, s', live)"
    using threads_step.release assms(2) s'(1) by blast
  from s'(2) obtain u r where "live u = Some r" "r \<noteq> NULL" "data_of s' r = None" by (auto simp: doomed_def)
  then have crash: "threads_step has_memory patient (Join ti, s', live) (Crashed, s', live)"
    by (intro threads_step.thread_faults [of _ u r]) (simp_all add: worker_finish_def)
  have "\<not> doomed ti (Exited, s2, live2)" for s2 live2 by (simp add: doomed_def)
  then have "\<not> (threads_step has_memory patient)\<^sup>*\<^sup>* (Join ti, s', live) (Exited, s2, live2)" for s2 live2
    using doomed_server.run_inv s'(2) by blast
  with rel crash show ?thesis by blast
qed

theorem shutdown_dooms_running_thread_witness:
  "\<exists>s'. threads_step False False (Drain, demo_server, demo_live) (Join 200, s', demo_live) \<and>
     threads_step False False (Join 200, s', demo_live) (Crashed, s', demo_live) \<and>
     \<not> (\<exists>s2 live2. (threads_step False False)\<^sup>*\<^sup>* (Join 200, s', demo_live) (Exited, s2, live2))"
proof -
  have inst: "inst_of demo_server 200 = Some \<lparr>thread = 1, thread_data = 100\<rparr>" and ok: "server_inv demo_server [200]"
    and tr: "trace demo_server = [CreateThread 1 100]"
    using spawn_thread [OF server_inv_init demo_allocates] demo_spawn by (auto simp: demo_round_def server_init_def)
  have "\<not> completed demo_server 200" using demo_spawn demo_running by (simp add: completed_def)
  then have inv: "threads_inv demo_server [200] demo_live"
    using inst ok tr by (auto simp: threads_inv_def accounted_def demo_live_def split: if_splits)
  obtain q where "queue_dequeue (queue_of demo_server) = Inr (200, q)"
    using tq.dequeue_ok [of "queue_of demo_server" 200 "[]"] ok by (auto simp: server_inv_def server_ok_def)
  from shutdown_dooms_running_thread [OF inv this _ inst] show ?thesis by (simp add: demo_live_def)
qed

text \<open>C12: a server whose set-up succeeds, whose rounds get memory for their instances, and in which
  no thread runs any more when the signal comes, returns 0 with nothing left allocated, the
  queue empty, the listening socket closed, and every thread it created joined or cancelled.\<close>

theorem server_exits_cleanly:
  assumes "setup_succeeds env" and "events_ok es server_init"
  shows "\<exists>evs s. server_main use_char argv env es = Some (Inr (0, evs, s)) \<and>
     data_of s = Map.empty \<and> inst_of s = Map.empty \<and> queue_rep (queue_of s) [] \<and>
     CloseSocket (socket_fd env) \<in> set evs \<and>
     (\<forall>t p. CreateThread t p \<in> set (trace s) \<longrightarrow>
        JoinThread t \<in> set (trace s) \<or> CancelThread t \<in> set (trace s))"
proof -
  have "accounted server_init []" by (simp add: accounted_def server_init_def)
  then obtain s1 tis where s1: "accept_loop es server_init = Some (Inr s1)" "server_inv s1 tis" "accounted s1 tis"
    using accept_loop_inv [OF server_inv_init _ assms(2)] by blast
  then obtain s where "shutdown_loop s1 = Some (Inr s)" "server_ok s []" "accounted s []"
    using shutdown_accounted unfolding server_inv_def by blast
  with s1(1) setup_listening [OF assms(1)] show ?thesis
    by (auto simp: server_main_def main_exit_def accounted_def server_ok_def)
qed

definition demo_setup :: setup_env where
  "demo_setup = \<lparr>getaddrinfo_rc = 0, socket_fd = 3, setsockopt_rc = 0, bind_rc = 0, daemon_rc = 0,
     listen_rc = 0, mutex_init_rc = 0, timer_create_rc = 0, new_timer = 7, timer_settime_rc = 0\<rparr>"

lemma demo_round_runs:
  "\<exists>s. listener_round demo_round server_init = Some (Inr s) \<and> dom (data_of s) = {100} \<and>
     data_of s 100 = Some \<lparr>client_fd = 4, thread_completed = False\<rparr>"
proof -
  have inv: "server_inv demo_server [200]" and d: "inst_data demo_server 200 = 100" using demo_spawn by simp_all
  have "\<not> completed demo_server 200" using d demo_running by (simp add: completed_def)
  then obtain s where s: "reap_loop (queue_get_head (queue_of demo_server)) demo_server = Some (Inr s)"
      "agree_on {200} demo_server s" "server_inv s [200]"
    using reap_inv [OF inv] by auto
  then have "inst_data s 200 = 100" using agree_on_inst_data [OF s(2)] d by simp
  then have "dom (data_of s) = {100}" using s(3) by (simp add: server_inv_def server_ok_def)
  moreover have "data_of s 100 = Some \<lparr>client_fd = 4, thread_completed = False\<rparr>"
    using s(2) d demo_running by (simp add: agree_on_def)
  ultimately show ?thesis using s(1) demo_spawn by (simp add: listener_round_def)
qed

lemma demo_events_ok: "events_ok [Round demo_round, ThreadEnds 100] server_init"
proof -
  obtain s where s: "listener_round demo_round server_init = Some (Inr s)" "dom (data_of s) = {100}"
     "data_of s 100 = Some \<lparr>client_fd = 4, thread_completed = False\<rparr>" using demo_round_runs by blast
  define s' where "s' = s\<lparr>trace := trace s @ [CloseFd 4],
     data_of := (data_of s)(100 \<mapsto> \<lparr>client_fd = - 1, thread_completed = True\<rparr>)\<rparr>"
  have "worker_finish 100 s = Inr s'" using s(3) by (simp add: worker_finish_def log_event_def s'_def)
  moreover have "running s 100" using s(3) by (simp add: running_def)
  moreover have "\<forall>p \<in> dom (data_of s'). \<not> running s' p" using s(2) by (simp add: s'_def running_def)
  moreover have "malloc_inst demo_round \<noteq> NULL" by (simp add: demo_round_def)
  ultimately show ?thesis using s(1) by simp
qed

theorem server_exits_cleanly_witness:
  "\<exists>evs s. server_main True [''aesdsocket'', ''-d''] demo_setup [Round demo_round, ThreadEnds 100] = Some (Inr (0, evs, s)) \<and>
     data_of s = Map.empty \<and> inst_of s = Map.empty \<and> queue_rep (queue_of s) [] \<and>
     CloseSocket (socket_fd demo_setup) \<in> set evs"
proof -
  have "setup_succeeds demo_setup" by (simp add: setup_succeeds_def demo_setup_def)
  with demo_events_ok show ?thesis using server_exits_cleanly by blast
qed

text \<open>C19: the reaping walk removes exactly the completed threads, in the order of the queue: of each
  it frees the data, joins the very thread that was created for the instance and frees the
  instance, and does not close its connection again; the other threads are untouched.\<close>

theorem reaping_removes_completed:
  assumes "server_inv s tis"
  shows "\<exists>s'. reap_loop (queue_get_head (queue_of s)) s = Some (Inr s') \<and>
     server_inv s' (filter (\<lambda>t. \<not> completed s t) tis) \<and>
     agree_on (set (filter (\<lambda>t. \<not> completed s t) tis)) s s' \<and>
     (\<exists>evs. trace s' = trace s @ concat evs \<and>
        list_all2 (\<lambda>ti ev. \<exists>inst. inst_of s ti = Some inst \<and>
            ev = [FreeData (thread_data inst), JoinThread (thread inst), FreeInstance ti])
          (filter (completed s) tis) evs)"
proof -
  have "list_all2 (\<lambda>ti ev. \<exists>inst. inst_of s ti = Some inst \<and>
        ev = [FreeData (thread_data inst), JoinThread (thread inst), FreeInstance ti])
      (filter (completed s) tis) (map (reap_events s) (filter (completed s) tis))"
    using reap_events_completed [OF assms] by (simp add: list_all2_map2 list_all2_same)
  with reap_inv [OF assms] show ?thesis by blast
qed

theorem reaping_removes_completed_witness:
  "\<exists>s s'. worker_finish 100 demo_server = Inr s \<and>
     reap_loop (queue_get_head (queue_of s)) s = Some (Inr s') \<and> server_inv s' [] \<and>
     trace s' = [CreateThread 1 100, CloseFd 4, FreeData 100, JoinThread 1, FreeInstance 200]"
proof -
  have inst: "inst_of demo_server 200 = Some \<lparr>thread = 1, thread_data = 100\<rparr>" and ok: "server_inv demo_server [200]"
    and tr: "trace demo_server = [CreateThread 1 100]"
    using spawn_thread [OF server_inv_init demo_allocates] demo_spawn by (auto simp: demo_round_def server_init_def)
  define s where "s = demo_server\<lparr>trace := [CreateThread 1 100, CloseFd 4],
     data_of := (data_of demo_server)(100 \<mapsto> \<lparr>client_fd = - 1, thread_completed = True\<rparr>)\<rparr>"
  have fin: "worker_finish 100 demo_server = Inr s"
    using demo_running tr by (simp add: worker_finish_def log_event_def s_def)
  have "inst_data s = inst_data demo_server" by (simp add: inst_data_def s_def fun_eq_iff)
  then have inv: "server_inv s [200]" and c: "completed s 200"
    using ok demo_spawn by (auto simp: server_inv_def server_ok_def s_def completed_def)
  have "inst_of s 200 = Some \<lparr>thread = 1, thread_data = 100\<rparr>" "trace s = [CreateThread 1 100, CloseFd 4]"
    by (simp_all add: s_def inst)
  with reaping_removes_completed [OF inv] c obtain s' where
    "reap_loop (queue_get_head (queue_of s)) s = Some (Inr s')" "server_inv s' []"
    "trace s' = [CreateThread 1 100, CloseFd 4, FreeData 100, JoinThread 1, FreeInstance 200]"
    by (auto simp: list_all2_Cons1)
  with fin show ?thesis by blast
qed

text \<open>C18: every sequence of operations on the linked list of threads returns what the same
  sequence returns on a plain list, with the same elements left in the same order, touching
  no freed node and running into no cycle.\<close>

theorem queue_refines_list:
  assumes "\<forall>q xs. queue_rep q xs \<longrightarrow> queue_fresh (alloc q) q" and "queue_rep q xs"
  shows "\<exists>q'. fifo_run queue_enqueue queue_dequeue queue_remove alloc ops q =
       Some (Inr (fst (list_run ops xs), q')) \<and> queue_rep q' (snd (list_run ops xs))"
  using assms tq.run_refines by blast

theorem queue_refines_list_witness:
  "\<exists>q'. fifo_run queue_enqueue queue_dequeue queue_remove (\<lambda>q. Suc (Max (insert 0 (dom (nodes q)))))
       [Enqueue True 7, Enqueue True 8, Enqueue False 5, Enqueue True 9, Remove 7, Dequeue, Remove 7] empty_queue =
       Some (Inr ([Accepted True, Accepted True, Accepted False, Accepted True, Found True, Taken 8, Found False], q')) \<and>
     queue_rep q' [9]"
proof -
  have "queue_fresh (Suc (Max (insert 0 (dom (nodes q))))) q" if "queue_rep q xs" for q xs
  proof -
    have "finite (dom (nodes q))" using that by (auto simp: queue_rep_def queue_nodes_def)
    then have "Suc (Max (insert 0 (dom (nodes q)))) \<notin> dom (nodes q)"
      using Max_ge [of "insert 0 (dom (nodes q))"] by (metis Suc_n_not_le_n finite_insert insertCI)
    then show ?thesis by (simp add: queue_fresh_def domIff)
  qed
  from queue_refines_list [OF allI [OF allI [OF impI [OF this]]] queue_rep_empty,
      where ops = "[Enqueue True 7, Enqueue True 8, Enqueue False 5, Enqueue True 9, Remove 7, Dequeue, Remove 7]"]
  show ?thesis by simp
qed

text \<open>C35: a round that starts no thread leaves queue, data and instances as they were, closes the
  connection it accepted, and cancels a thread it created.\<close>

theorem failed_round_leaves_nothing:
  assumes "listener_spawn env s = Some (Inr (False, s'))" and "allocates env s" and "server_inv s tis"
  shows "\<exists>evs. s' = s\<lparr>trace := trace s @ evs\<rparr> \<and>
     (\<forall>t p. CreateThread t p \<in> set evs \<longrightarrow> CancelThread t \<in> set evs) \<and>
     (if accept_fd env = - 1 then evs = [] else \<exists>es. evs = es @ [CloseFd (accept_fd env)])"
  using assms by (rule spawn_no_reap)

theorem failed_round_leaves_nothing_witness:
  "\<exists>evs. server_init\<lparr>trace := [FreeInstance 200, FreeData 100, CloseFd 4]\<rparr> =
       server_init\<lparr>trace := trace server_init @ evs\<rparr> \<and>
     (if accept_fd (demo_round\<lparr>create_rc := 11\<rparr>) = - 1 then evs = []
      else \<exists>es. evs = es @ [CloseFd (accept_fd (demo_round\<lparr>create_rc := 11\<rparr>))])"
proof -
  have al: "allocates (demo_round\<lparr>create_rc := 11\<rparr>) server_init"
    by (simp add: allocates_def server_init_def empty_queue_def)
  have "listener_spawn (demo_round\<lparr>create_rc := 11\<rparr>) server_init =
      Some (Inr (False, server_init\<lparr>trace := [FreeInstance 200, FreeData 100, CloseFd 4]\<rparr>))"
    using spawn_no_thread [OF _ _ _ _ al] by (simp add: demo_round_def server_init_def)
  from failed_round_leaves_nothing [OF this al server_inv_init] show ?thesis by blast
qed

text \<open>When the instance of an accepted connection cannot be allocated, the round clears it
  through the null pointer before it checks it.\<close>

theorem instance_cleared_before_check:
  assumes "accept_fd env \<noteq> - 1" and "malloc_data env \<noteq> NULL" and "malloc_inst env = NULL"
  shows "listener_round env s = Some (Inl NullDeref)"
  using spawn_no_instance [OF assms] by (simp add: listener_round_def)

theorem instance_cleared_before_check_witness:
  "listener_round (demo_round\<lparr>malloc_inst := NULL\<rparr>) server_init = Some (Inl NullDeref)"
  by (rule instance_cleared_before_check) (simp_all add: demo_round_def)

text \<open>In the build with the timer, a server whose timer cannot be created serves nothing, yet
  returns 0, and deletes a timer that does not exist.\<close>

theorem timer_failure_returns_success:
  assumes "setup_succeeds (env\<lparr>timer_create_rc := 0\<rparr>)" and "timer_create_rc env \<noteq> 0"
  shows "\<exists>evs. server_main False argv env es = Some (Inr (0, evs, server_init)) \<and>
     TimerDelete None \<in> set evs"
  using assms
  by (simp add: server_main_def main_setup_def setup_timer_def setup_succeeds_def Let_def main_exit_def)

theorem timer_failure_returns_success_witness:
  "\<exists>evs. server_main False [] (demo_setup\<lparr>timer_create_rc := - 1\<rparr>) [Round demo_round] =
       Some (Inr (0, evs, server_init)) \<and> TimerDelete None \<in> set evs"
  by (rule timer_failure_returns_success) (simp_all add: setup_succeeds_def demo_setup_def)

section \<open>Error paths of the threads, the timer and the signals\<close>

text \<open>A thread that fails to lock the file mutex unlocks it all the same.\<close>

theorem unlocks_without_lock:
  assumes "p \<noteq> NULL" and "lock_rc env \<noteq> 0"
  shows "\<exists>out. connection_handler api use_char env p = Some (Inr out) \<and>
     MutexUnlocked \<in> set (log out) \<and> MutexLocked \<notin> set (log out)"
  using handler_lock_failed [OF assms, of api use_char] by simp

theorem unlocks_without_lock_witness:
  "\<exists>out. connection_handler (device_api (\<lambda>_. 0)) True ((demo_conn [] hi_file)\<lparr>lock_rc := 22\<rparr>) 100 = Some (Inr out) \<and>
     MutexUnlocked \<in> set (log out) \<and> MutexLocked \<notin> set (log out)"
  by (rule unlocks_without_lock) simp_all

text \<open>A seek command without its numbers makes the thread convert a null pointer.\<close>

theorem seek_without_numbers_faults:
  assumes "p \<noteq> NULL" and "lock_rc env = 0" and "opened env = Some d"
    and "recvs env = Received (AESD_SEEKTO_KEYWORD @ [newline]) # rest"
  shows "connection_handler api True env p = Some (Inl NullDeref)"
  using assms by (rule handler_seek_without_numbers)

theorem seek_without_numbers_faults_witness:
  "connection_handler (device_api (\<lambda>_. 0)) True
     (demo_conn [Received (AESD_SEEKTO_KEYWORD @ [newline])] hi_file) 100 = Some (Inl NullDeref)"
  by (rule seek_without_numbers_faults) simp_all

text \<open>C38: every run of the timer handler frees the time structure it allocated, and unlocks the
  file mutex exactly when it locked it, except that a run that cannot open the data file
  keeps the mutex.\<close>

theorem timer_handler_balance:
  "frees_all (timer_expired_handler env) \<and>
   mutex_balanced (timer_expired_handler env) =
     (\<not> (LockFile \<in> set (timer_expired_handler env) \<and> \<not> file_opens env))"
  using timer_frees timer_balanced by blast

text \<open>A run in which every call succeeds appends one timestamp line to the file, under the
  mutex.\<close>

theorem timer_appends_timestamp:
  assumes "time_ok env" and "tm_malloc env \<noteq> NULL" and "local_time env = Some t" and "tm_year t < 8100"
    and "timer_data_ptr env \<noteq> NULL" and "timer_lock_rc env = 0" and "file_opens env"
    and "fwrite_short env = 0"
  shows "timer_expired_handler env =
     [AllocTm (tm_malloc env), LockFile, OpenFile, Append (timestamp t), CloseFile, UnlockFile,
      FreeTm (tm_malloc env)]"
  using assms by (rule timer_appends)

theorem timer_appends_timestamp_witness:
  "timer_expired_handler
     \<lparr>time_ok = True, tm_malloc = 5,
      local_time = Some \<lparr>tm_year = 124, tm_mon = 0, tm_mday = 31, tm_hour = 23, tm_min = 59, tm_sec = 7\<rparr>,
      timer_data_ptr = 9, timer_lock_rc = 0, file_opens = True, fwrite_short = 0\<rparr> =
     [AllocTm 5, LockFile, OpenFile,
      Append (timestamp \<lparr>tm_year = 124, tm_mon = 0, tm_mday = 31, tm_hour = 23, tm_min = 59, tm_sec = 7\<rparr>),
      CloseFile, UnlockFile, FreeTm 5]"
  by (subst timer_appends_timestamp) simp_all

text \<open>The signal handler stops the accept loop and shuts down the listening socket for SIGINT
  and SIGTERM, does nothing for other signals, and always restores \<open>errno\<close>.\<close>

theorem signal_handler_effect:
  "signal_handler sig clobber p =
     (if sig \<in> {SIGINT, SIGTERM}
      then (p\<lparr>is_active := False\<rparr>, if listen_fd p = - 1 then [] else [listen_fd p])
      else (p, []))"
  by (rule signal_handler_result)

end
