(* ===== verification/Systemcalls.thy ===== *)
theory Systemcalls
  imports Prelude
begin

unbundle bit_operations_syntax

text \<open>
  Model of examples/systemcalls/systemcalls.c: running a command with \<open>system\<close>, with
  \<open>fork\<close>, \<open>execv\<close> and \<open>waitpid\<close>, and the same with the output redirected to a file. A
  process is its table of open descriptors and whether its log is open; \<open>fork\<close> copies the
  table, and what the child does with its copy decides the status the parent waits for.
\<close>

section \<open>Wait statuses\<close>

text \<open>The macros of sys/wait.h.\<close>

definition WIFEXITED :: "u32 \<Rightarrow> bool" where
  "WIFEXITED status \<longleftrightarrow> status AND 0x7F = 0"

definition WEXITSTATUS :: "u32 \<Rightarrow> u32" where
  "WEXITSTATUS status = drop_bit 8 (status AND 0xFF00)"

text \<open>How a program ends, and the status the kernel makes of it: the exit code in the second
  byte, or the signal in the low seven bits, with a flag for a core dump.\<close>

datatype program_end = Exited u8 | Killed nat bool

fun status_of :: "program_end \<Rightarrow> u32" where
  "status_of (Exited code) = push_bit 8 (ucast code)"
| "status_of (Killed sig core) = of_nat sig + (if core then 128 else 0)"

fun valid_end :: "program_end \<Rightarrow> bool" where
  "valid_end (Exited code) = True"
| "valid_end (Killed sig core) \<longleftrightarrow> 0 < sig \<and> sig < 127"

section \<open>The operating system\<close>

text \<open>
  The results of the calls: \<open>system\<close> of a command; \<open>fork\<close> as the parent sees it and
  \<open>waitpid\<close> (-1 for an error); \<open>open\<close>; \<open>dup2\<close>; and \<open>execv\<close> of a path with arguments in a
  process with the given descriptors: None when it fails, else how the program ends.
\<close>

type_synonym fd_table = "int \<rightharpoonup> string"

record os =
  system_rc :: "string \<Rightarrow> u32"
  fork_rc :: int
  waitpid_rc :: int
  open_rc :: int
  dup2_rc :: int
  execv :: "string option \<Rightarrow> string option list \<Rightarrow> fd_table \<Rightarrow> program_end option"

record proc =
  fds :: fd_table
  log_open :: bool

definition STDOUT_FILENO :: int where
  "STDOUT_FILENO = 1"

section \<open>The three functions\<close>

definition do_system :: "os \<Rightarrow> string \<Rightarrow> proc \<Rightarrow> bool \<times> proc" where
  "do_system S cmd p =
     (let p1 = p\<lparr>log_open := True\<rparr>; wait_stat = system_rc S cmd in
      if wait_stat = - 1 then (False, p1)
      else if WIFEXITED wait_stat \<and> WEXITSTATUS wait_stat = 0 then (True, p1\<lparr>log_open := False\<rparr>)
      else (False, p1\<lparr>log_open := False\<rparr>))"

text \<open>The argument vector: the arguments and the terminating null pointer.\<close>

definition command_of :: "string list \<Rightarrow> string option list" where
  "command_of args = map Some args @ [None]"

text \<open>The child of \<open>do_exec\<close>: the program's status, or that of \<open>exit (1)\<close>.\<close>

definition exec_child :: "os \<Rightarrow> string list \<Rightarrow> fd_table \<Rightarrow> u32" where
  "exec_child S args tbl =
     (case execv S (command_of args ! 0) (command_of args) tbl of
        None \<Rightarrow> status_of (Exited 1)
      | Some e \<Rightarrow> status_of e)"

text \<open>The parent: it waits for the child and looks at the status.\<close>

definition wait_for_child :: "os \<Rightarrow> u32 \<Rightarrow> bool" where
  "wait_for_child S status \<longleftrightarrow>
     waitpid_rc S \<noteq> - 1 \<and> WIFEXITED status \<and> WEXITSTATUS status = 0"

definition do_exec :: "os \<Rightarrow> string list \<Rightarrow> proc \<Rightarrow> bool \<times> proc" where
  "do_exec S args p =
     (let p1 = p\<lparr>log_open := True\<rparr>;
          fn_result = (if fork_rc S = - 1 then False
                       else wait_for_child S (exec_child S args (fds p1)))
      in (fn_result, p1\<lparr>log_open := False\<rparr>))"

text \<open>The child of \<open>do_exec_redirect\<close> makes the file its standard output first.\<close>

definition redirect_child :: "os \<Rightarrow> int \<Rightarrow> string list \<Rightarrow> fd_table \<Rightarrow> u32" where
  "redirect_child S fd args tbl =
     (if dup2_rc S = - 1 then status_of (Exited 1)
      else exec_child S args (tbl(STDOUT_FILENO := tbl fd)))"

definition do_exec_redirect :: "os \<Rightarrow> string \<Rightarrow> string list \<Rightarrow> proc \<Rightarrow> bool \<times> proc" where
  "do_exec_redirect S outputfile args p =
     (let p1 = p\<lparr>log_open := True\<rparr>; fd = open_rc S in
      if fd = - 1 then (False, p1)
      else
        let p2 = p1\<lparr>fds := (fds p1)(fd \<mapsto> outputfile)\<rparr> in
        if fork_rc S = - 1 then (False, p2)
        else (wait_for_child S (redirect_child S fd args (fds p2)), p2))"

section \<open>Lemmas\<close>

text \<open>The macros read back what the kernel encoded.\<close>

lemma WIFEXITED_low: "WIFEXITED st \<longleftrightarrow> unat st mod 128 = 0"
proof -
  have "st AND 0x7F = take_bit 7 st"
    by (simp add: take_bit_eq_mask mask_eq_exp_minus_1)
  then have "WIFEXITED st \<longleftrightarrow> unat (take_bit 7 st) = 0"
    by (simp add: WIFEXITED_def unat_eq_zero)
  then show ?thesis by (simp add: take_bit_eq_mod unat_mod_distrib)
qed

lemma unat_exited: "unat (status_of (Exited c)) = 256 * unat c"
proof -
  have c: "unat c < 256" using unat_bound [of c] by simp
  have "status_of (Exited c) = of_nat (256 * unat c)"
    by (simp add: push_bit_eq_mult)
  moreover have "unat (of_nat (256 * unat c) :: u32) = 256 * unat c"
    using c by (intro unat_of_nat_lt) simp
  ultimately show ?thesis by simp
qed

lemma WIFEXITED_exited: "WIFEXITED (status_of (Exited c))"
  unfolding WIFEXITED_low unat_exited by simp

lemma WEXITSTATUS_exited: "WEXITSTATUS (status_of (Exited c)) = ucast c"
proof (rule bit_word_eqI)
  fix n :: nat
  have ff: "(0xFF00 :: u32) = push_bit 8 (mask 8)" by (simp add: mask_eq_exp_minus_1 push_bit_eq_mult)
  have "bit c n \<Longrightarrow> n < 8" using bit_imp_le_length [of c n] by simp
  then show "bit (WEXITSTATUS (status_of (Exited c))) n \<longleftrightarrow> bit (ucast c :: u32) n"
    by (auto simp: WEXITSTATUS_def ff bit_simps)
qed

lemma WIFEXITED_killed:
  assumes "0 < sig" and "sig < 127"
  shows "\<not> WIFEXITED (status_of (Killed sig core))"
proof -
  have "unat (of_nat sig + (if core then 128 else 0) :: u32) = sig + (if core then 128 else 0)"
    using assms by (subst unat_plus_no_overflow) (simp_all add: no_wrap)
  then show ?thesis using assms by (simp add: WIFEXITED_low)
qed

text \<open>So the parent's verdict is: waited for, and ended with exit code 0.\<close>

lemma wait_verdict:
  "valid_end e \<Longrightarrow> wait_for_child S (status_of e) \<longleftrightarrow> waitpid_rc S \<noteq> - 1 \<and> e = Exited 0"
proof (cases e)
  case (Exited c)
  have "(ucast c :: u32) = 0 \<longleftrightarrow> c = 0" by transfer (simp add: min_def)
  with Exited show ?thesis
    by (simp add: wait_for_child_def WIFEXITED_exited WEXITSTATUS_exited del: status_of.simps)
next
  case (Killed sig core)
  moreover assume "valid_end e"
  ultimately show ?thesis using WIFEXITED_killed [of sig core]
    by (simp add: wait_for_child_def del: status_of.simps)
qed

text \<open>What runs in the child: None when the program could not be started.\<close>

lemma exec_child_verdict:
  assumes "\<forall>e. execv S (command_of args ! 0) (command_of args) tbl = Some e \<longrightarrow> valid_end e"
  shows "wait_for_child S (exec_child S args tbl) \<longleftrightarrow>
     waitpid_rc S \<noteq> - 1 \<and> execv S (command_of args ! 0) (command_of args) tbl = Some (Exited 0)"
  using assms wait_verdict [of "Exited 1" S]
  by (cases "execv S (command_of args ! 0) (command_of args) tbl")
    (auto simp: exec_child_def wait_verdict simp del: status_of.simps)

end
