(* ===== verification/Threading.thy ===== *)
theory Threading
  imports Prelude Transition
begin

text \<open>
  Model of examples/threading/threading.c: threads that sleep, take a common mutex, sleep,
  and release it. A thread is a sequence of phases separated by the calls of \<open>threadfunc\<close>;
  the threads of a program interleave in any order the mutex admits. The results of the calls
  on the mutex are not checked by the code, and so a call that fails is a step too: the thread
  goes on as if it had succeeded.
\<close>

section \<open>Data\<close>

text \<open>\<open>struct thread_data\<close>; all threads share one mutex.\<close>

record thread_args =
  wait_to_obtain_ms :: u32
  wait_to_release_ms :: u32
  thread_complete_success :: bool

text \<open>Where a thread is: before each of its calls, and after the last statement; \<open>Inside\<close> is
  between its lock and its unlock.\<close>

datatype phase = SleepFirst | WantMutex | Inside | Released | Finished

text \<open>The progress of a thread orders its phases.\<close>

primrec phase_number :: "phase \<Rightarrow> nat" where
  "phase_number SleepFirst = 0"
| "phase_number WantMutex = 1"
| "phase_number Inside = 2"
| "phase_number Released = 3"
| "phase_number Finished = 4"

lemma phase_number_inj [simp]: "phase_number p = phase_number q \<longleftrightarrow> p = q"
  by (cases p; cases q) simp_all

instantiation phase :: linorder
begin

definition less_eq_phase :: "phase \<Rightarrow> phase \<Rightarrow> bool" where
  "p \<le> q \<longleftrightarrow> phase_number p \<le> phase_number q"

definition less_phase :: "phase \<Rightarrow> phase \<Rightarrow> bool" where
  "p < q \<longleftrightarrow> phase_number p < phase_number q"

instance
  by standard (auto simp: less_eq_phase_def less_phase_def simp flip: phase_number_inj)

end

record threads =
  phase_of :: "phase list"
  args_of :: "thread_args list"
  holder :: "nat option"

section \<open>The thread function\<close>

text \<open>
  The argument of \<open>usleep\<close>: a 32-bit signed product, as the compiler's two's complement
  arithmetic computes it, converted to an unsigned number of microseconds.
\<close>

definition usleep_arg :: "u32 \<Rightarrow> u32" where
  "usleep_arg ms = ms * 1000"

text \<open>
  What thread \<open>t\<close> does next, if it can: None when it must wait for the mutex, or is
  finished. With \<open>fails\<close> the call on the mutex returns an error and leaves the mutex as it is;
  the thread does not look at the result. An unlock that succeeds frees the mutex whoever
  holds it, as that of a default mutex in the GNU library does.
\<close>

definition threadfunc_step :: "bool \<Rightarrow> nat \<Rightarrow> threads \<Rightarrow> threads option" where
  "threadfunc_step fails t s =
     (case phase_of s ! t of
        SleepFirst \<Rightarrow> Some (s\<lparr>phase_of := (phase_of s)[t := WantMutex]\<rparr>)
      | WantMutex \<Rightarrow>
          (if fails then Some (s\<lparr>phase_of := (phase_of s)[t := Inside]\<rparr>)
           else if holder s = None
           then Some (s\<lparr>phase_of := (phase_of s)[t := Inside], holder := Some t\<rparr>)
           else None)
      | Inside \<Rightarrow>
          (if fails then Some (s\<lparr>phase_of := (phase_of s)[t := Released]\<rparr>)
           else Some (s\<lparr>phase_of := (phase_of s)[t := Released], holder := None\<rparr>))
      | Released \<Rightarrow>
          Some (s\<lparr>phase_of := (phase_of s)[t := Finished],
                  args_of := (args_of s)[t := (args_of s ! t)\<lparr>thread_complete_success := True\<rparr>]\<rparr>)
      | Finished \<Rightarrow> None)"

section \<open>Starting a thread\<close>

text \<open>
  \<open>start_thread_obtaining_mutex\<close>: \<open>data\<close> is what \<open>malloc\<close> returns, \<open>old\<close> what the flag's byte of
  that memory happens to hold, which the code does not set, and \<open>rc\<close> the result of
  \<open>pthread_create\<close>. The result: whether a thread was started, the structures on the heap,
  the threads.
\<close>

definition start_thread_obtaining_mutex ::
  "ptr \<Rightarrow> bool \<Rightarrow> int \<Rightarrow> u32 \<Rightarrow> u32 \<Rightarrow> (ptr \<rightharpoonup> thread_args) \<times> threads \<Rightarrow>
   bool \<times> (ptr \<rightharpoonup> thread_args) \<times> threads" where
  "start_thread_obtaining_mutex data old rc obtain_ms release_ms st =
     (if data = NULL then (False, st)
      else
        let a = \<lparr>wait_to_obtain_ms = obtain_ms, wait_to_release_ms = release_ms,
                 thread_complete_success = old\<rparr>;
            h = (fst st)(data \<mapsto> a); s = snd st
        in if rc = 0
           then (True, h, s\<lparr>phase_of := phase_of s @ [SleepFirst], args_of := args_of s @ [a]\<rparr>)
           else (False, h, s))"

section \<open>Interleavings\<close>

text \<open>A step of some thread; calls on the mutex fail only if \<open>may_fail\<close>.\<close>

inductive thread_step :: "bool \<Rightarrow> threads \<Rightarrow> threads \<Rightarrow> bool" for may_fail where
  step: "t < length (phase_of s) \<Longrightarrow> (fails \<longrightarrow> may_fail) \<Longrightarrow> threadfunc_step fails t s = Some s' \<Longrightarrow>
    thread_step may_fail s s'"

inductive_cases thread_stepE: "thread_step may_fail s s'"

text \<open>
  Whatever fails, a finished thread has reported success; the mutex is held by exactly the
  thread between its lock and its unlock as long as no call on the mutex fails.
\<close>

definition report_ok :: "phase \<Rightarrow> thread_args \<Rightarrow> bool" where
  "report_ok p a \<longleftrightarrow> (p = Finished \<longrightarrow> thread_complete_success a)"

definition reports_inv :: "threads \<Rightarrow> bool" where
  "reports_inv s \<longleftrightarrow> list_all2 report_ok (phase_of s) (args_of s)"

definition threads_inv :: "threads \<Rightarrow> bool" where
  "threads_inv s \<longleftrightarrow> reports_inv s \<and>
     (\<forall>t < length (phase_of s). phase_of s ! t = Inside \<longleftrightarrow> holder s = Some t) \<and>
     (\<forall>t. holder s = Some t \<longrightarrow> t < length (phase_of s))"

text \<open>One step of a thread, whether or not its call fails: it moves forward alone, and its flag
  changes with its last step only.\<close>

lemma threadfunc_step_forward:
  assumes inv: "reports_inv s" and t: "t < length (phase_of s)" and run: "threadfunc_step fails t s = Some s'"
  shows "reports_inv s' \<and>
     (\<exists>p. phase_of s' = (phase_of s)[t := p] \<and> phase_of s ! t < p \<and>
        (if p = Finished
         then args_of s' = (args_of s)[t := (args_of s ! t)\<lparr>thread_complete_success := True\<rparr>]
         else args_of s' = args_of s))"
proof -
  have same: "list_all2 report_ok ((phase_of s)[t := p]) (args_of s)" if "p \<noteq> Finished" for p
  proof -
    have "list_all2 report_ok ((phase_of s)[t := p]) ((args_of s)[t := args_of s ! t])"
      using inv that by (intro list_all2_update_cong) (simp_all add: reports_inv_def report_ok_def)
    then show ?thesis by simp
  qed
  have "list_all2 report_ok ((phase_of s)[t := Finished])
      ((args_of s)[t := (args_of s ! t)\<lparr>thread_complete_success := True\<rparr>])"
    using inv by (intro list_all2_update_cong) (simp_all add: reports_inv_def report_ok_def)
  with same t run show ?thesis
    by (cases "phase_of s ! t")
      (auto simp: threadfunc_step_def reports_inv_def less_phase_def split: if_splits)
qed

lemma threadfunc_step_mutex:
  assumes inv: "threads_inv s" and t: "t < length (phase_of s)" and run: "threadfunc_step False t s = Some s'"
  shows "threads_inv s'"
proof -
  have "holder s = Some t \<longleftrightarrow> phase_of s ! t = Inside" using inv t by (auto simp: threads_inv_def)
  moreover have "reports_inv s'"
    using inv threadfunc_step_forward [OF _ t run] by (simp add: threads_inv_def)
  ultimately show ?thesis
    using inv t run by (cases "phase_of s ! t")
      (auto simp: threadfunc_step_def threads_inv_def nth_list_update split: if_splits)
qed

lemma thread_step_inv: "threads_inv s \<Longrightarrow> thread_step False s s' \<Longrightarrow> threads_inv s'"
  by (auto elim!: thread_stepE dest: threadfunc_step_mutex)

lemma thread_step_reports: "reports_inv s \<Longrightarrow> thread_step may_fail s s' \<Longrightarrow> reports_inv s'"
  by (auto elim!: thread_stepE dest: threadfunc_step_forward)

lemma thread_step_progress:
  assumes "reports_inv s" and "thread_step may_fail s s'"
  shows "length (phase_of s') = length (phase_of s) \<and> phase_of s ! i \<le> phase_of s' ! i"
  using assms(2)
proof (rule thread_stepE)
  fix t fails assume t: "t < length (phase_of s)" and run: "threadfunc_step fails t s = Some s'"
  obtain p where p: "phase_of s' = (phase_of s)[t := p]" "phase_of s ! t < p"
    using threadfunc_step_forward [OF assms(1) t run] by blast
  then show ?thesis using t by (cases "i = t") auto
qed

interpretation thr: step_invariant "thread_step False" threads_inv
  by unfold_locales (rule thread_step_inv)

interpretation any_thr: monotone_steps "thread_step may_fail" reports_inv "\<lambda>s. phase_of s ! i" for may_fail i
  by unfold_locales (use thread_step_reports thread_step_progress in \<open>blast+\<close>)

text \<open>The flag of a thread along a run.\<close>

lemma thread_step_flag:
  assumes "reports_inv s" and "thread_step may_fail s s'" and "i < length (phase_of s)"
  shows "thread_complete_success (args_of s' ! i) \<longleftrightarrow>
     phase_of s' ! i = Finished \<or> thread_complete_success (args_of s ! i)"
  using assms(2)
proof (rule thread_stepE)
  fix t fails assume t: "t < length (phase_of s)" and run: "threadfunc_step fails t s = Some s'"
  have len: "length (args_of s) = length (phase_of s)" and ok: "report_ok (phase_of s ! i) (args_of s ! i)"
    using assms(1,3) by (simp_all add: reports_inv_def list_all2_lengthD list_all2_nthD)
  obtain p where p: "phase_of s' = (phase_of s)[t := p]" "phase_of s ! t < p"
    and args: "args_of s' = (if p = Finished
      then (args_of s)[t := (args_of s ! t)\<lparr>thread_complete_success := True\<rparr>] else args_of s)"
    using threadfunc_step_forward [OF assms(1) t run] by (metis (full_types))
  show ?thesis
    using ok len t assms(3) by (cases "i = t"; cases "p = Finished")
      (auto simp: p args report_ok_def nth_list_update)
qed

lemma run_flag:
  assumes "(thread_step may_fail)\<^sup>*\<^sup>* s s'" and "reports_inv s" and "i < length (phase_of s')"
  shows "thread_complete_success (args_of s' ! i) \<longleftrightarrow>
     phase_of s' ! i = Finished \<or> thread_complete_success (args_of s ! i)"
  using assms
proof (induction rule: rtranclp_induct)
  case base
  then have "report_ok (phase_of s ! i) (args_of s ! i)"
    by (simp add: reports_inv_def list_all2_nthD)
  then show ?case by (auto simp: report_ok_def)
next
  case (step u v)
  have inv: "reports_inv u" using any_thr.run_inv [OF step.hyps(1) step.prems(1)] .
  have i: "i < length (phase_of u)" using thread_step_progress [OF inv step.hyps(2)] step.prems(2) by simp
  have "phase_of u ! i = Finished \<Longrightarrow> phase_of v ! i = Finished"
    using thread_step_progress [OF inv step.hyps(2), of i]
    by (cases "phase_of v ! i") (simp_all add: less_eq_phase_def)
  then show ?case
    using thread_step_flag [OF inv step.hyps(2) i] step.IH [OF step.prems(1) i] by blast
qed

text \<open>A thread whose lock fails goes between its lock and its unlock although another is there.\<close>

lemma failed_lock_enters:
  assumes "t < length (phase_of s)" and "phase_of s ! t = WantMutex" and "phase_of s ! u = Inside"
  shows "\<exists>s'. thread_step True s s' \<and> phase_of s' ! t = Inside \<and> phase_of s' ! u = Inside"
proof -
  have "threadfunc_step True t s = Some (s\<lparr>phase_of := (phase_of s)[t := Inside]\<rparr>)"
    using assms(2) by (simp add: threadfunc_step_def)
  from thread_step.step [OF assms(1) _ this, of True] show ?thesis
    using assms by (intro exI [of _ "s\<lparr>phase_of := (phase_of s)[t := Inside]\<rparr>"]) (simp add: nth_list_update)
qed

text \<open>How many steps are left.\<close>

definition steps_left :: "threads \<Rightarrow> nat" where
  "steps_left s = sum_list (map (\<lambda>p. 4 - phase_number p) (phase_of s))"

lemma sum_list_update_less:
  "t < length xs \<Longrightarrow> f y < (f (xs ! t) :: nat) \<Longrightarrow> sum_list (map f (xs[t := y])) < sum_list (map f xs)"
proof (induction xs arbitrary: t)
  case Nil
  then show ?case by simp
next
  case (Cons x xs)
  then show ?case by (cases t) auto
qed

lemma thread_step_decreases:
  assumes "reports_inv s" and "thread_step may_fail s s'"
  shows "steps_left s' < steps_left s"
  using assms(2)
proof (rule thread_stepE)
  fix t fails assume t: "t < length (phase_of s)" and run: "threadfunc_step fails t s = Some s'"
  obtain p where p: "phase_of s' = (phase_of s)[t := p]" "phase_of s ! t < p"
    using threadfunc_step_forward [OF assms(1) t run] by blast
  then have "phase_number (phase_of s ! t) < phase_number p" by (simp add: less_phase_def)
  moreover have "phase_number p \<le> 4" by (cases p) simp_all
  ultimately show ?thesis
    unfolding steps_left_def p(1) using t by (intro sum_list_update_less) auto
qed

text \<open>No deadlock: while a thread is not finished, some thread can take a step.\<close>

lemma some_thread_steps:
  assumes inv: "threads_inv s" and t: "t < length (phase_of s)" and "phase_of s ! t \<noteq> Finished"
  shows "\<exists>s'. thread_step False s s'"
proof (cases "holder s")
  case None
  with assms have "\<exists>s'. threadfunc_step False t s = Some s'"
    by (cases "phase_of s ! t") (auto simp: threadfunc_step_def)
  with t show ?thesis by (auto intro: thread_step.intros [where fails = False])
next
  case (Some h)
  with inv have h: "h < length (phase_of s)" "phase_of s ! h = Inside"
    by (auto simp: threads_inv_def)
  then have "\<exists>s'. threadfunc_step False h s = Some s'" by (simp add: threadfunc_step_def)
  with h show ?thesis by (auto intro: thread_step.intros [where fails = False])
qed

text \<open>Every run can be extended until all threads are finished, in at most \<open>steps_left\<close> steps.\<close>

lemma all_finish:
  assumes "threads_inv s"
  shows "\<exists>s'. (thread_step False)\<^sup>*\<^sup>* s s' \<and> threads_inv s' \<and> list_all (\<lambda>p. p = Finished) (phase_of s')"
  using assms
proof (induction "steps_left s" arbitrary: s rule: less_induct)
  case less
  show ?case
  proof (cases "list_all (\<lambda>p. p = Finished) (phase_of s)")
    case True
    with less.prems show ?thesis by blast
  next
    case False
    then obtain t where "t < length (phase_of s)" "phase_of s ! t \<noteq> Finished"
      by (auto simp: list_all_length)
    then obtain s1 where s1: "thread_step False s s1" using some_thread_steps less.prems by blast
    then obtain s' where "(thread_step False)\<^sup>*\<^sup>* s1 s'" "threads_inv s'" "list_all (\<lambda>p. p = Finished) (phase_of s')"
      using less.hyps thread_step_decreases less.prems thread_step_inv threads_inv_def by blast
    with s1 show ?thesis by (meson converse_rtranclp_into_rtranclp)
  qed
qed

lemma usleep_exact:
  assumes "unat ms \<le> 4294967"
  shows "unat (usleep_arg ms) = 1000 * unat ms"
  using assms by (simp add: usleep_arg_def unat_word_ariths)

lemma start_thread_inv:
  assumes "threads_inv s"
  shows "threads_inv (snd (snd (start_thread_obtaining_mutex data old rc a b (h, s))))"
  using assms
  by (auto simp: start_thread_obtaining_mutex_def threads_inv_def Let_def nth_append less_Suc_eq
      report_ok_def reports_inv_def intro!: list_all2_appendI)

end
