(* ===== verification/Writer.thy ===== *)
theory Writer
  imports Prelude
begin

text \<open>
  Model of finder-app/writer.c: it writes its second argument to the file named by the
  first. The file system is a map from names to contents; the results of the library's
  calls are an environment. \<open>fopen\<close> with mode w truncates or creates the file; \<open>fputs\<close> puts
  the text, or when it fails a part of it, into the stream; what the stream has reaches the
  file, in whole or in part, by the time it is closed, by \<open>fclose\<close> or at \<open>exit\<close>.
\<close>

type_synonym file_system = "string \<rightharpoonup> string"

text \<open>The results of \<open>fopen\<close> and \<open>fputs\<close>, how many characters the stream has taken when \<open>fputs\<close>
  fails, and how many of those in the stream get to the file.\<close>

record writer_env =
  fopen_ok :: bool
  fputs_ok :: bool
  fputs_took :: nat
  reached_file :: nat

text \<open>Opening for writing; what is in the stream after \<open>fputs\<close>; closing the stream.\<close>

definition fopen_w :: "string \<Rightarrow> file_system \<Rightarrow> file_system" where
  "fopen_w name fs = fs(name \<mapsto> [])"

definition fputs_stream :: "writer_env \<Rightarrow> string \<Rightarrow> string" where
  "fputs_stream env txt = (if fputs_ok env then txt else take (fputs_took env) txt)"

definition close_stream :: "writer_env \<Rightarrow> string \<Rightarrow> string \<Rightarrow> file_system \<Rightarrow> file_system" where
  "close_stream env name stream fs = fs(name \<mapsto> take (reached_file env) stream)"

text \<open>The exit code and the file system; \<open>argv\<close> has the program's name first. \<open>exit\<close> closes the
  stream if there is one.\<close>

definition err_exit :: "file_system \<Rightarrow> int \<times> file_system" where
  "err_exit fs = (1, fs)"

definition writer_main :: "writer_env \<Rightarrow> string list \<Rightarrow> file_system \<Rightarrow> int \<times> file_system" where
  "writer_main env argv fs =
     (if length argv \<noteq> 3 then err_exit fs
      else
        let file_name = argv ! 1; txt = argv ! 2 in
        if \<not> fopen_ok env then err_exit fs
        else
          let fs1 = fopen_w file_name fs; stream = fputs_stream env txt in
          if \<not> fputs_ok env then err_exit (close_stream env file_name stream fs1)
          else (0, close_stream env file_name stream fs1))"

section \<open>What is in the file\<close>

text \<open>When the calls succeed and everything reaches the file, it holds the text.\<close>

lemma writer_writes:
  assumes "fopen_ok env" and "fputs_ok env" and "length txt \<le> reached_file env"
  shows "writer_main env [prog, name, txt] fs = (0, fs(name \<mapsto> txt))"
  using assms by (simp add: writer_main_def fopen_w_def fputs_stream_def close_stream_def Let_def)

text \<open>Exit code 0 says that \<open>fopen\<close> and \<open>fputs\<close> succeeded, not that the text is in the file: the
  result of \<open>fclose\<close> is not looked at.\<close>

lemma writer_exit_zero:
  "fst (writer_main env argv fs) = 0 \<longleftrightarrow> length argv = 3 \<and> fopen_ok env \<and> fputs_ok env"
  by (simp add: writer_main_def err_exit_def Let_def)

lemma writer_leaves_prefix:
  assumes "fopen_ok env"
  shows "\<exists>n. snd (writer_main env [prog, name, txt] fs) = fs(name \<mapsto> take n txt)"
  using assms by (auto simp: writer_main_def err_exit_def fopen_w_def fputs_stream_def close_stream_def Let_def)

end
