(* ===== verification/Example_Properties.thy ===== *)
theory Example_Properties
  imports Systemcalls Threading Writer
begin

text \<open>
  The properties of two of the small programs of the repository: running commands, and
  threads that share a mutex. Those of the file writer are in its own theory.
\<close>

section \<open>Running commands\<close>

definition demo_os :: os where
  "demo_os = \<lparr>system_rc = (\<lambda>_. 0), fork_rc = 42, waitpid_rc = 42, open_rc = 3, dup2_rc = 1,
     execv = (\<lambda>path argv tbl. if path = None then None else Some (Exited 0))\<rparr>"

definition demo_proc :: proc where
  "demo_proc = \<lparr>fds = [0 \<mapsto> ''/dev/tty'', 1 \<mapsto> ''/dev/tty''], log_open = False\<rparr>"

text \<open>C28: \<open>do_exec\<close> returns true exactly when the child was started and waited for, the program
  could be executed and it ended with exit code 0 (a signal, a core dump and any other code
  are failures); it leaves the caller's descriptors alone and the log closed.\<close>

theorem do_exec_verdict:
  assumes "\<forall>e. execv S (command_of args ! 0) (command_of args) (fds p) = Some e \<longrightarrow> valid_end e"
  shows "do_exec S args p =
     (fork_rc S \<noteq> - 1 \<and> waitpid_rc S \<noteq> - 1 \<and>
        execv S (command_of args ! 0) (command_of args) (fds p) = Some (Exited 0),
      p\<lparr>log_open := False\<rparr>)"
  using exec_child_verdict [OF assms] by (simp add: do_exec_def Let_def)

theorem do_exec_verdict_witness:
  "do_exec demo_os [''/bin/echo'', ''hi''] demo_proc =
     (fork_rc demo_os \<noteq> - 1 \<and> waitpid_rc demo_os \<noteq> - 1 \<and>
        execv demo_os (command_of [''/bin/echo'', ''hi''] ! 0) (command_of [''/bin/echo'', ''hi'']) (fds demo_proc) =
          Some (Exited 0),
      demo_proc\<lparr>log_open := False\<rparr>)"
  by (rule do_exec_verdict) (simp add: demo_os_def command_of_def)

text \<open>C29: \<open>do_exec_redirect\<close> runs the program with its standard output on the file and returns
  true under the same condition; but when it returns, the file is still open in the caller,
  and so is the log.\<close>

theorem do_exec_redirect_verdict:
  fixes p :: proc and outputfile :: string
  assumes "open_rc S \<noteq> - 1"
    and "\<forall>tbl e. execv S (command_of args ! 0) (command_of args) tbl = Some e \<longrightarrow> valid_end e"
  defines "tbl \<equiv> (fds p)(open_rc S \<mapsto> outputfile, 1 \<mapsto> outputfile)"
  shows "do_exec_redirect S outputfile args p =
     (fork_rc S \<noteq> - 1 \<and> waitpid_rc S \<noteq> - 1 \<and> dup2_rc S \<noteq> - 1 \<and>
        execv S (command_of args ! 0) (command_of args) tbl = Some (Exited 0),
      \<lparr>fds = (fds p)(open_rc S \<mapsto> outputfile), log_open = True\<rparr>)"
proof -
  have "wait_for_child S (exec_child S args tbl) \<longleftrightarrow>
      waitpid_rc S \<noteq> - 1 \<and> execv S (command_of args ! 0) (command_of args) tbl = Some (Exited 0)"
    using assms(2) by (intro exec_child_verdict) blast
  moreover have "\<not> wait_for_child S (status_of (Exited 1))"
    using wait_verdict [of "Exited 1" S] by (simp del: status_of.simps)
  moreover have "(fds p)(open_rc S \<mapsto> outputfile, STDOUT_FILENO := Some outputfile) = tbl"
    by (simp add: tbl_def STDOUT_FILENO_def)
  ultimately show ?thesis
    using assms(1)
    by (cases p) (simp add: do_exec_redirect_def redirect_child_def Let_def del: status_of.simps)
qed

theorem do_exec_redirect_verdict_witness:
  "do_exec_redirect demo_os ''out.txt'' [''/bin/echo''] demo_proc =
     (fork_rc demo_os \<noteq> - 1 \<and> waitpid_rc demo_os \<noteq> - 1 \<and> dup2_rc demo_os \<noteq> - 1 \<and>
        execv demo_os (command_of [''/bin/echo''] ! 0) (command_of [''/bin/echo''])
          ((fds demo_proc)(open_rc demo_os \<mapsto> ''out.txt'', 1 \<mapsto> ''out.txt'')) = Some (Exited 0),
      \<lparr>fds = (fds demo_proc)(open_rc demo_os \<mapsto> ''out.txt''), log_open = True\<rparr>)"
  by (rule do_exec_redirect_verdict) (simp_all add: demo_os_def command_of_def)

section \<open>Threads that share a mutex\<close>

definition demo_threads :: threads where
  "demo_threads =
     (let start = (\<lambda>p st. snd (start_thread_obtaining_mutex p False 0 10 20 st))
      in snd (start 2 (start 1 (Map.empty, \<lparr>phase_of = [], args_of = [], holder = None\<rparr>))))"

lemma demo_threads_inv: "threads_inv demo_threads"
  by (simp add: demo_threads_def start_thread_obtaining_mutex_def Let_def threads_inv_def reports_inv_def
      report_ok_def less_Suc_eq)

text \<open>C26: in every interleaving no thread goes back in its sequence of calls, and the flag of a thread
  is set when it is finished; before that it is what the memory held, which the code does not
  initialise. As long as no call on the mutex fails, at most one thread is between its lock
  and its unlock.\<close>

theorem threads_exclude_each_other:
  assumes "threads_inv s" and "(thread_step may_fail)\<^sup>*\<^sup>* s s'"
    and "t < length (phase_of s')" and "u < length (phase_of s')"
  shows "phase_of s ! t \<le> phase_of s' ! t \<and>
     (thread_complete_success (args_of s' ! t) \<longleftrightarrow>
        phase_of s' ! t = Finished \<or> thread_complete_success (args_of s ! t)) \<and>
     (\<not> may_fail \<longrightarrow> phase_of s' ! t = Inside \<longrightarrow> phase_of s' ! u = Inside \<longrightarrow> t = u)"
proof -
  have rep: "reports_inv s" using assms(1) by (simp add: threads_inv_def)
  have "threads_inv s'" if "\<not> may_fail" using thr.run_inv [of s s'] assms(1,2) that by simp
  then have "\<not> may_fail \<longrightarrow> phase_of s' ! t = Inside \<longrightarrow> phase_of s' ! u = Inside \<longrightarrow> t = u"
    using assms(3,4) by (auto simp: threads_inv_def)
  then show ?thesis
    using any_thr.run_rank [OF assms(2) rep, of t] run_flag [OF assms(2) rep assms(3)] by blast
qed

text \<open>A run of two threads: the first is between its lock and its unlock, and the second waits.\<close>

lemma demo_threads_run:
  "\<exists>s'. (thread_step False)\<^sup>*\<^sup>* demo_threads s' \<and> phase_of s' = [Inside, WantMutex]"
proof -
  define step where "step t s = the (threadfunc_step False t s)" for t s
  let ?s1 = "step 0 demo_threads" let ?s2 = "step 0 ?s1" let ?s3 = "step 1 ?s2"
  note run = step_def demo_threads_def start_thread_obtaining_mutex_def Let_def threadfunc_step_def
  have "thread_step False demo_threads ?s1"
    by (rule thread_step.step [where fails = False and t = 0]) (simp_all add: run)
  moreover have "thread_step False ?s1 ?s2"
    by (rule thread_step.step [where fails = False and t = 0]) (simp_all add: run)
  moreover have "thread_step False ?s2 ?s3"
    by (rule thread_step.step [where fails = False and t = 1]) (simp_all add: run)
  moreover have "phase_of ?s3 = [Inside, WantMutex]" by (simp add: run)
  ultimately show ?thesis by (meson converse_rtranclp_into_rtranclp rtranclp.rtrancl_refl)
qed

theorem threads_exclude_each_other_witness:
  "\<exists>s'. (thread_step False)\<^sup>*\<^sup>* demo_threads s' \<and> phase_of s' ! 0 = Inside \<and> phase_of s' ! 1 \<noteq> Inside \<and>
     \<not> thread_complete_success (args_of s' ! 0)"
proof -
  obtain s' where s': "(thread_step False)\<^sup>*\<^sup>* demo_threads s'" "phase_of s' = [Inside, WantMutex]"
    using demo_threads_run by blast
  have "\<not> thread_complete_success (args_of demo_threads ! 0)"
    by (simp add: demo_threads_def start_thread_obtaining_mutex_def Let_def)
  with threads_exclude_each_other [OF demo_threads_inv s'(1), of 0 1] s' show ?thesis
    by (intro exI [of _ s']) simp
qed



end
