(* ===== verification/Timer_Service.thy ===== *)
theory Timer_Service
  imports Service Timer_Handler
begin

text \<open>
  The build on the temporary file as a whole: the threads of the clients and the timer, which
  all append to the one file under the one mutex, in any order. Every client gets back the
  whole file as it is right after its own line, and no line and no timestamp is lost or torn.
  As long as the timer can open the file, all clients are answered and all runs of the timer
  take place. A run of the timer that cannot open the file never unlocks, and after it no
  client is served any more. Whether the mutex is locked is read off what the threads and the
  timer did.
\<close>

section \<open>The timer among the clients\<close>

text \<open>What a run of the timer's handler does to the file, and the bytes it appends.\<close>

fun timer_effect :: "timer_event list \<Rightarrow> temp_file \<Rightarrow> temp_file" where
  "timer_effect [] f = f"
| "timer_effect (Append bs # evs) f = timer_effect evs (snd (temp_write f bs))"
| "timer_effect (_ # evs) f = timer_effect evs f"

fun timer_bytes :: "timer_event list \<Rightarrow> byte list" where
  "timer_bytes [] = []"
| "timer_bytes (Append bs # evs) = bs @ timer_bytes evs"
| "timer_bytes (_ # evs) = timer_bytes evs"

text \<open>The mutex after a run.\<close>

fun timer_mutex :: "timer_event list \<Rightarrow> bool \<Rightarrow> bool" where
  "timer_mutex [] locked = locked"
| "timer_mutex (LockFile # evs) locked = timer_mutex evs True"
| "timer_mutex (UnlockFile # evs) locked = timer_mutex evs False"
| "timer_mutex (_ # evs) locked = timer_mutex evs locked"

text \<open>
  The state: the clients' service, the runs of the timer to come, and what was appended and by
  whom, in order (not in the code).
\<close>

datatype author = ByClient nat | ByTimer

record timed =
  service_of :: "temp_file service"
  ticks :: "timer_env list"
  pieces :: "(author \<times> byte list) list"

definition piece_of :: "client list \<Rightarrow> nat option \<Rightarrow> (author \<times> byte list) list" where
  "piece_of clients owner =
     (case owner of None \<Rightarrow> [] | Some i \<Rightarrow> [(ByClient i, client_line (clients ! i))])"

inductive timed_step :: "(byte list \<Rightarrow> nat) \<Rightarrow> client list \<Rightarrow> timed \<Rightarrow> timed \<Rightarrow> bool"
  for policy clients where
  client: "service_step (temp_api policy) False reopen_temp clients (service_of t) s' \<Longrightarrow>
    timed_step policy clients t
      (t\<lparr>service_of := s', pieces := pieces t @ piece_of clients (busy (service_of t))\<rparr>)"
| tick: "ticks t = env # rest \<Longrightarrow> evs = timer_expired_handler env \<Longrightarrow>
    (LockFile \<in> set evs \<longrightarrow> \<not> file_mutex (service_of t)) \<Longrightarrow>
    timed_step policy clients t
      (t\<lparr>service_of := (service_of t)\<lparr>disk := timer_effect evs (disk (service_of t)),
           file_mutex := timer_mutex evs (file_mutex (service_of t))\<rparr>,
         ticks := rest,
         pieces := pieces t @ (if timer_bytes evs = [] then [] else [(ByTimer, timer_bytes evs)])\<rparr>)"

definition timed_start :: "temp_file \<Rightarrow> timer_env list \<Rightarrow> timed" where
  "timed_start d envs =
     \<lparr>service_of = service_start d, ticks = envs, pieces = []\<rparr>"

section \<open>One conversation, one run of the timer\<close>

lemma temp_conversation:
  assumes "client_ok False c" and "length (client_line c) \<le> disk_free f"
  shows "\<exists>sent g. connection_handler (temp_api policy) False (client_env reopen_temp c f) (thread_data_ptr c) =
       Some (Inr \<lparr>final_file = Some g, sent_data = sent, log = full_log\<rparr>) \<and>
     tbytes (dev_of g) = tbytes f @ client_line c \<and>
     disk_free (dev_of g) = disk_free f - length (client_line c) \<and>
     concat sent = tbytes f @ client_line c"
proof -
  let ?s = "\<lparr>disk = f, file_mutex = True, busy = Some 0, served = [0], replies = Map.empty\<rparr>"
  have "temp_service.service_inv [c] (temp_content f) ?s"
    by (simp add: temp_service.service_inv_def finished_def temp_service.content_of_def)
  moreover have "temp_service.room_for_all [c] (temp_content f)"
    using temp_room [of f "[c]"] assms by (simp add: temp_clients_ok_def)
  ultimately show ?thesis
    using temp_service.conversation [of "[c]" "temp_content f" ?s 0 False policy] assms(1)
    by (auto simp: finished_def temp_lines temp_content_def)
qed

lemma timer_effect_room:
  assumes "length (timer_bytes evs) \<le> disk_free f"
  shows "tbytes (timer_effect evs f) = tbytes f @ timer_bytes evs \<and>
     disk_free (timer_effect evs f) = disk_free f - length (timer_bytes evs)"
  using assms by (induction evs f rule: timer_effect.induct) (auto simp: temp_write_def Let_def)

lemma timer_mutex_handler:
  "timer_mutex (timer_expired_handler env) locked =
     (if LockFile \<in> set (timer_expired_handler env) then \<not> file_opens env else locked)"
  by (auto simp: timer_expired_handler_def timer_expired_exit_def
      timer_expired_close_file_def Let_def split: option.split)

lemma no_lock_no_bytes:
  "LockFile \<notin> set (timer_expired_handler env) \<Longrightarrow> timer_bytes (timer_expired_handler env) = []"
  by (auto simp: timer_expired_handler_def timer_expired_exit_def
      timer_expired_close_file_def Let_def split: option.split)

text \<open>Without a short write a run appends a whole timestamp or nothing.\<close>

lemma timer_whole:
  assumes "fwrite_short env = 0" and "timer_bytes (timer_expired_handler env) \<noteq> []"
  shows "\<exists>tm. local_time env = Some tm \<and> timer_bytes (timer_expired_handler env) = timestamp tm"
  using assms by (auto simp: timer_expired_handler_def timer_expired_exit_def strftime_def
      timer_expired_close_file_def Let_def split: option.splits if_splits)

section \<open>The invariant\<close>

text \<open>The clients whose lines are in the file, and what is still to be written.\<close>

definition written :: "timed \<Rightarrow> byte list" where
  "written t = concat (map snd (pieces t))"

definition answered :: "timed \<Rightarrow> nat set" where
  "answered t = {i. ByClient i \<in> fst ` set (pieces t)}"

definition lines_left :: "client list \<Rightarrow> timed \<Rightarrow> nat" where
  "lines_left clients t = (\<Sum>i \<in> {..<length clients} - answered t. length (client_line (clients ! i)))"

definition ticks_left :: "timer_env list \<Rightarrow> nat" where
  "ticks_left envs = sum_list (map (\<lambda>env. length (timer_bytes (timer_expired_handler env))) envs)"

text \<open>A client's piece is its line, and the client was answered with the file up to it; a piece of
  the timer is a timestamp of one of its runs.\<close>

definition piece_ok :: "client list \<Rightarrow> timer_env list \<Rightarrow> temp_file \<Rightarrow> timed \<Rightarrow> nat \<Rightarrow> bool" where
  "piece_ok clients envs d t k \<longleftrightarrow>
     (case fst (pieces t ! k) of
        ByClient i \<Rightarrow>
          snd (pieces t ! k) = client_line (clients ! i) \<and>
          replies (service_of t) i = Some (tbytes d @ concat (map snd (take (Suc k) (pieces t))))
      | ByTimer \<Rightarrow> \<exists>env \<in> set envs. \<exists>tm. local_time env = Some tm \<and> snd (pieces t ! k) = timestamp tm)"

definition timed_inv :: "client list \<Rightarrow> timer_env list \<Rightarrow> temp_file \<Rightarrow> timed \<Rightarrow> bool" where
  "timed_inv clients envs d t \<longleftrightarrow>
     (\<forall>c \<in> set clients. client_ok False c) \<and> (\<forall>env \<in> set envs. fwrite_short env = 0) \<and>
     set (ticks t) \<subseteq> set envs \<and>
     tbytes (disk (service_of t)) = tbytes d @ written t \<and>
     lines_left clients t + ticks_left (ticks t) \<le> disk_free (disk (service_of t)) \<and>
     distinct (served (service_of t)) \<and> set (served (service_of t)) \<subseteq> {..<length clients} \<and>
     (\<forall>i. busy (service_of t) = Some i \<longrightarrow> i \<in> set (served (service_of t)) \<and> file_mutex (service_of t)) \<and>
     ((\<forall>env \<in> set envs. file_opens env) \<longrightarrow> busy (service_of t) = None \<longrightarrow> \<not> file_mutex (service_of t)) \<and>
     answered t = set (served (service_of t)) - set_option (busy (service_of t)) \<and>
     (\<forall>k < length (pieces t). piece_ok clients envs d t k)"

definition timed_ok :: "temp_file \<Rightarrow> client list \<Rightarrow> timer_env list \<Rightarrow> bool" where
  "timed_ok d clients envs \<longleftrightarrow>
     (\<forall>c \<in> set clients. client_ok False c) \<and> (\<forall>env \<in> set envs. fwrite_short env = 0) \<and>
     sum_list (map (\<lambda>c. length (client_line c)) clients) + ticks_left envs \<le> disk_free d"

text \<open>The steps that are left: two of every client, one of every run of the timer.\<close>

definition timed_work :: "client list \<Rightarrow> timed \<Rightarrow> nat" where
  "timed_work clients t = service_work clients (service_of t) + length (ticks t)"

lemma timed_inv_start:
  assumes "timed_ok d clients envs"
  shows "timed_inv clients envs d (timed_start d envs)"
proof -
  have "(\<Sum>i<length clients. length (client_line (clients ! i))) =
      sum_list (map (\<lambda>c. length (client_line c)) clients)"
    by (simp add: sum_list_sum_nth atLeast0LessThan)
  with assms show ?thesis
    by (simp add: timed_inv_def timed_ok_def timed_start_def service_start_def written_def answered_def
        lines_left_def)
qed

text \<open>A piece more: the pieces before it are as they were.\<close>

lemma piece_ok_more:
  assumes old: "piece_ok clients envs d t k" and k: "k < length (pieces t)"
    and ps: "pieces t' = pieces t @ new"
    and rep: "\<And>i. i \<in> answered t \<Longrightarrow> replies (service_of t') i = replies (service_of t) i"
  shows "piece_ok clients envs d t' k"
proof -
  have "i \<in> answered t" if "fst (pieces t ! k) = ByClient i" for i
    using that k nth_mem [OF k] unfolding answered_def by (metis imageI mem_Collect_eq)
  with old k rep show ?thesis by (auto simp: piece_ok_def ps nth_append split: author.split)
qed

lemma answered_more:
  "pieces t' = pieces t @ new \<Longrightarrow> answered t' = answered t \<union> {i. ByClient i \<in> fst ` set new}"
  by (auto simp: answered_def)

lemma timed_lock:
  assumes inv: "timed_inv clients envs d t" and free: "busy (service_of t) = None"
    and i: "i < length clients" "i \<notin> set (served (service_of t))"
  shows "timed_inv clients envs d (t\<lparr>service_of := (service_of t)
      \<lparr>file_mutex := True, busy := Some i, served := served (service_of t) @ [i]\<rparr>\<rparr>)" (is "timed_inv _ _ _ ?t'")
proof -
  have "piece_ok clients envs d ?t' k = piece_ok clients envs d t k" for k
    by (cases "fst (pieces t ! k)") (simp_all add: piece_ok_def)
  moreover have "written ?t' = written t" "answered ?t' = answered t" by (simp_all add: written_def answered_def)
  moreover from this have "lines_left clients ?t' = lines_left clients t" by (simp add: lines_left_def)
  ultimately show ?thesis using assms by (auto simp: timed_inv_def)
qed

lemma timed_converse:
  assumes inv: "timed_inv clients envs d t" and busy: "busy (service_of t) = Some i"
    and conv: "connection_handler (temp_api policy) False (client_env reopen_temp (clients ! i) (disk (service_of t)))
        (thread_data_ptr (clients ! i)) = Some (Inr out)" "final_file out = Some f"
  defines "s' \<equiv> (service_of t)\<lparr>disk := dev_of f, file_mutex := mutex_after (log out) (file_mutex (service_of t)), busy := None,
      replies := (replies (service_of t))(i \<mapsto> concat (sent_data out))\<rparr>"
  shows "timed_inv clients envs d (t\<lparr>service_of := s', pieces := pieces t @ [(ByClient i, client_line (clients ! i))]\<rparr>)"
    (is "timed_inv _ _ _ ?t'")
proof -
  let ?line = "client_line (clients ! i)" and ?s = "service_of t"
  have ilt: "i < length clients" and new: "i \<notin> answered t" and srv: "i \<in> set (served ?s)"
    using inv busy by (auto simp: timed_inv_def)
  have left: "lines_left clients t = length ?line + lines_left clients ?t'"
  proof -
    have "{..<length clients} - answered ?t' = ({..<length clients} - answered t) - {i}"
      using answered_more [of ?t' t "[(ByClient i, ?line)]"] by auto
    then show ?thesis
      using ilt new by (simp add: lines_left_def sum.remove [of "{..<length clients} - answered t" i])
  qed
  have "client_ok False (clients ! i)" using inv ilt by (simp add: timed_inv_def)
  moreover have "length ?line \<le> disk_free (disk ?s)" using inv left by (simp add: timed_inv_def)
  ultimately obtain sent g where g: "connection_handler (temp_api policy) False
        (client_env reopen_temp (clients ! i) (disk ?s)) (thread_data_ptr (clients ! i)) =
       Some (Inr \<lparr>final_file = Some g, sent_data = sent, log = full_log\<rparr>)"
     "tbytes (dev_of g) = tbytes (disk ?s) @ ?line"
     "disk_free (dev_of g) = disk_free (disk ?s) - length ?line"
     "concat sent = tbytes (disk ?s) @ ?line"
    using temp_conversation by blast
  with conv have out: "f = g" "concat (sent_data out) = tbytes (disk ?s) @ ?line" "log out = full_log" by auto
  have before: "tbytes (disk ?s) = tbytes d @ written t" using inv by (simp add: timed_inv_def)
  have "piece_ok clients envs d ?t' k" if k: "k < length (pieces ?t')" for k
  proof (cases "k < length (pieces t)")
    case True
    have old: "piece_ok clients envs d t k" using inv True by (simp add: timed_inv_def)
    have "replies (service_of ?t') j = replies ?s j" if "j \<in> answered t" for j
      using that new by (auto simp: s'_def)
    then show ?thesis
      by (intro piece_ok_more [OF old True, of ?t' "[(ByClient i, ?line)]"]) simp_all
  next
    case False
    with k have "k = length (pieces t)" by simp
    then show ?thesis using out before by (simp add: piece_ok_def s'_def written_def)
  qed
  moreover have "answered ?t' = set (served s') - set_option (busy s')"
    using answered_more [of ?t' t "[(ByClient i, ?line)]"] inv busy srv by (auto simp: timed_inv_def s'_def)
  moreover have "lines_left clients ?t' + ticks_left (ticks t) \<le> disk_free (disk ?s) - length ?line"
    using inv left by (auto simp: timed_inv_def)
  moreover have "written ?t' = written t @ ?line" by (simp add: written_def)
  moreover have "tbytes (disk s') = tbytes d @ written t @ ?line" "disk_free (disk s') = disk_free (disk ?s) - length ?line"
      "served s' = served ?s" "busy s' = None" "\<not> file_mutex s'"
    using g before by (simp_all add: s'_def out full_log_mutex)
  ultimately show ?thesis
    using inv by (simp add: timed_inv_def)
qed

lemma timed_tick:
  assumes inv: "timed_inv clients envs d t" and tks: "ticks t = env # rest"
    and evs: "evs = timer_expired_handler env"
    and free: "LockFile \<in> set evs \<longrightarrow> \<not> file_mutex (service_of t)"
  shows "timed_inv clients envs d
      (t\<lparr>service_of := (service_of t)\<lparr>disk := timer_effect evs (disk (service_of t)),
           file_mutex := timer_mutex evs (file_mutex (service_of t))\<rparr>,
         ticks := rest,
         pieces := pieces t @ (if timer_bytes evs = [] then [] else [(ByTimer, timer_bytes evs)])\<rparr>)"
    (is "timed_inv _ _ _ ?t'")
proof -
  let ?more = "if timer_bytes evs = [] then [] else [(ByTimer, timer_bytes evs)]"
  have env: "env \<in> set envs" "fwrite_short env = 0" using inv tks by (auto simp: timed_inv_def)
  have ans: "answered ?t' = answered t" using answered_more [of ?t' t ?more] by auto
  have left: "ticks_left (ticks t) = length (timer_bytes evs) + ticks_left rest"
    by (simp add: ticks_left_def tks evs)
  with inv have "length (timer_bytes evs) \<le> disk_free (disk (service_of t))" by (simp add: timed_inv_def)
  note eff = timer_effect_room [OF this]
  have "piece_ok clients envs d ?t' k" if k: "k < length (pieces ?t')" for k
  proof (cases "k < length (pieces t)")
    case True
    have old: "piece_ok clients envs d t k" using inv True by (simp add: timed_inv_def)
    show ?thesis by (rule piece_ok_more [OF old True, of ?t' ?more]) simp_all
  next
    case False
    with k have "pieces ?t' ! k = (ByTimer, timer_bytes evs)" "timer_bytes evs \<noteq> []"
      by (auto simp: nth_append split: if_splits)
    with timer_whole [OF env(2)] env(1) show ?thesis by (auto simp: piece_ok_def evs)
  qed
  moreover have "lines_left clients ?t' = lines_left clients t" by (simp only: lines_left_def ans)
  moreover have "written ?t' = written t @ timer_bytes evs" by (simp add: written_def)
  moreover have "lines_left clients t + ticks_left rest \<le> disk_free (disk (service_of t)) - length (timer_bytes evs)"
    using inv left by (auto simp: timed_inv_def)
  moreover have "\<forall>i. busy (service_of t) = Some i \<longrightarrow>
        i \<in> set (served (service_of t)) \<and> timer_mutex evs (file_mutex (service_of t))"
      "(\<forall>env \<in> set envs. file_opens env) \<longrightarrow> busy (service_of t) = None \<longrightarrow>
         \<not> timer_mutex evs (file_mutex (service_of t))"
    using inv env(1) free by (auto simp: timed_inv_def evs timer_mutex_handler)
  ultimately show ?thesis
    using inv eff ans tks by (simp add: timed_inv_def split del: if_split)
qed

lemma timed_step_inv:
  assumes "timed_inv clients envs d t" and "timed_step policy clients t t'"
  shows "timed_inv clients envs d t'"
  using assms(2)
proof cases
  case (client s')
  from client(2) show ?thesis
  proof cases
    case (lock_file i)
    then show ?thesis using timed_lock [OF assms(1) lock_file(3,4,5)] client(1) by (simp add: piece_of_def)
  next
    case (converse i out f)
    then show ?thesis using timed_converse [OF assms(1) converse(2,3,4)] client(1) by (simp add: piece_of_def)
  qed
next
  case (tick env rest evs)
  then show ?thesis using timed_tick [OF assms(1) tick(2,3,4)] by simp
qed

interpretation timed: step_invariant "timed_step policy clients" "timed_inv clients envs d"
  for policy clients envs d
  by unfold_locales (rule timed_step_inv)

text \<open>Every step is one of those that were left.\<close>

lemma timed_step_work:
  assumes inv: "timed_inv clients envs d t" and "timed_step policy clients t t'"
  shows "timed_work clients t' < timed_work clients t"
  using assms(2)
proof cases
  case (client s')
  from client(2) have "service_work clients s' < service_work clients (service_of t)"
  proof cases
    case (lock_file i)
    have "set (served (service_of t)) \<subset> {..<length clients}"
      using inv lock_file(4,5) by (auto simp: timed_inv_def)
    then have "card (set (served (service_of t))) < card {..<length clients}"
      by (intro psubset_card_mono) simp_all
    then have "length (served (service_of t)) < length clients"
      using inv by (simp add: timed_inv_def distinct_card)
    then show ?thesis by (simp add: lock_file service_work_def)
  next
    case (converse i out f)
    then show ?thesis by (simp add: service_work_def)
  qed
  then show ?thesis by (simp add: client timed_work_def)
next
  case (tick env rest evs)
  then show ?thesis by (simp add: timed_work_def service_work_def)
qed

lemma timed_steps_bound:
  assumes "(timed_step policy clients ^^ n) t t'" and "timed_inv clients envs d t"
  shows "n + timed_work clients t' \<le> timed_work clients t"
  using assms
proof (induction n arbitrary: t)
  case 0
  then show ?case by simp
next
  case (Suc n)
  then obtain u where u: "timed_step policy clients t u" "(timed_step policy clients ^^ n) u t'"
    by (metis relpowp_Suc_D2)
  from timed_step_work [OF Suc.prems(2) u(1)] Suc.IH [OF u(2) timed_step_inv [OF Suc.prems(2) u(1)]]
  show ?case by linarith
qed

text \<open>If the timer can always open the file, nothing is left to do where no step is possible: the
  timer has had all its runs and every client its reply.\<close>

lemma timed_progress:
  assumes inv: "timed_inv clients envs d t" and opens: "\<forall>env \<in> set envs. file_opens env"
    and stuck: "\<nexists>t'. timed_step policy clients t t'"
  shows "ticks t = [] \<and> (\<forall>i < length clients. replies (service_of t) i \<noteq> None)"
proof -
  let ?s = "service_of t"
  have none: "\<not> service_step (temp_api policy) False reopen_temp clients ?s s'" for s'
    using stuck timed_step.client by blast
  have busy: "busy ?s = None"
  proof (rule ccontr)
    assume "busy ?s \<noteq> None"
    then obtain i where busy: "busy ?s = Some i" by auto
    then have ilt: "i < length clients" and new: "i \<notin> answered t" using inv by (auto simp: timed_inv_def)
    have "length (client_line (clients ! i)) \<le> lines_left clients t"
      unfolding lines_left_def using ilt new by (intro member_le_sum) auto
    moreover have "client_ok False (clients ! i)" using inv ilt by (simp add: timed_inv_def)
    ultimately show False
      using temp_conversation [of "clients ! i" "disk ?s" policy] inv none
        service_step.converse [OF busy, of "temp_api policy" False reopen_temp clients]
      by (fastforce simp: timed_inv_def)
  qed
  with inv opens have free: "\<not> file_mutex ?s" by (simp add: timed_inv_def)
  have "ticks t = []"
  proof (rule ccontr)
    assume "ticks t \<noteq> []"
    then obtain env rest where "ticks t = env # rest" by (cases "ticks t") auto
    from timed_step.tick [OF this refl] free stuck show False by blast
  qed
  moreover have "replies ?s i \<noteq> None" if "i < length clients" for i
  proof -
    have "i \<in> answered t"
      using none service_step.lock_file [OF free busy that] inv busy by (auto simp: timed_inv_def)
    then have "ByClient i \<in> fst ` set (pieces t)" by (simp add: answered_def)
    then obtain k where "k < length (pieces t)" "fst (pieces t ! k) = ByClient i"
      by (auto simp: in_set_conv_nth)
    with inv show ?thesis by (auto simp: timed_inv_def piece_ok_def)
  qed
  ultimately show ?thesis by blast
qed

section \<open>A timer that cannot open the file\<close>

text \<open>Once the timer has kept the mutex, nobody is answered.\<close>

definition starved :: "(nat \<rightharpoonup> byte list) \<Rightarrow> byte list \<Rightarrow> timed \<Rightarrow> bool" where
  "starved rs bs t \<longleftrightarrow>
     file_mutex (service_of t) \<and> busy (service_of t) = None \<and>
     replies (service_of t) = rs \<and> tbytes (disk (service_of t)) = bs"

lemma starved_step:
  assumes "starved rs bs t" and "timed_step policy clients t t'"
  shows "starved rs bs t'"
  using assms(2)
proof cases
  case (client s')
  from client(2) assms(1) show ?thesis by cases (auto simp: starved_def)
next
  case (tick env rest evs)
  with assms(1) have "LockFile \<notin> set evs" by (auto simp: starved_def)
  then have "timer_bytes evs = []" "timer_mutex evs True"
    using no_lock_no_bytes timer_mutex_handler tick(3) by simp_all
  with assms(1) tick(1) timer_effect_room [of evs "disk (service_of t)"] show ?thesis
    by (simp add: starved_def)
qed

interpretation starved: step_invariant "timed_step policy clients" "starved rs bs" for policy clients rs bs
  by unfold_locales (rule starved_step)

lemma starves:
  assumes "ticks t = env # rest" and "busy (service_of t) = None" and "\<not> file_mutex (service_of t)"
    and "LockFile \<in> set (timer_expired_handler env)" and "\<not> file_opens env"
  shows "\<exists>t'. timed_step policy clients t t' \<and>
     starved (replies (service_of t)) (tbytes (disk (service_of t))) t'"
proof -
  have evs: "timer_bytes (timer_expired_handler env) = []"
    using assms(5) by (auto simp: timer_expired_handler_def timer_expired_exit_def Let_def split: option.split)
  with timer_effect_room [of "timer_expired_handler env" "disk (service_of t)"]
  have "tbytes (timer_effect (timer_expired_handler env) (disk (service_of t))) = tbytes (disk (service_of t))"
    by simp
  then show ?thesis
    using timed_step.tick [OF assms(1) refl, of policy clients] assms(2-5)
      timer_mutex_handler [of env "file_mutex (service_of t)"]
    by (force simp: starved_def)
qed

end
