(* ===== verification/Autotest_Validate.thy ===== *)
theory Autotest_Validate
  imports Main
begin

text \<open>
  The functions of examples/autotest-validate: the two constants the automated test calls and
  the user name, and the program that prints the constants.
\<close>

definition this_function_returns_true :: bool where
  "this_function_returns_true = True"

definition this_function_returns_false :: bool where
  "this_function_returns_false = False"

definition my_username :: string where
  "my_username = ''CeSiumUA''"

text \<open>The name in autotest-validate-main.c, and what its \<open>main\<close> prints.\<close>

definition git_username :: string where
  "git_username = ''akshita-bhasin''"

definition autotest_main :: "string list" where
  "autotest_main =
     [''this_function_returns_true returned '' @ (if this_function_returns_true then ''true'' else ''false''),
      ''this_function_returns_false returned '' @ (if this_function_returns_false then ''true'' else ''false'')]"

lemma autotest_output:
  "autotest_main =
     [''this_function_returns_true returned true'', ''this_function_returns_false returned false'']"
  by (simp add: autotest_main_def this_function_returns_true_def this_function_returns_false_def)

lemma usernames_differ: "my_username \<noteq> git_username"
  by (simp add: my_username_def git_username_def)

end
