(* ===== verification/Spec2Isabelle.thy ===== *)
theory Spec2Isabelle
  imports Server_Properties Example_Properties Timer_Service Autotest_Validate
begin

text \<open>
  A verification library for the AESD assignments repository: a Linux character driver that
  keeps the last ten lines written to it, a socket server that uses the driver as its data
  file, and small user programs.

  \<^bold>\<open>The program and its parts.\<close> The driver (aesd-char-driver/) has a circular buffer of ten
  entries (aesd-circular-buffer.c, .h) and a module (main.c) whose handlers open, release,
  read, write, llseek and ioctl work on one device structure (aesdchar.h) under its mutex.
  A write appends to a pending line; a line that ends in a newline moves to the buffer,
  which may evict, and free, its oldest line. The server (server/) accepts connections in
  \<open>main\<close>, starts a thread per connection (\<open>connection_handler\<close>), keeps the threads in a
  linked list (thread_queue.c), reaps completed ones after every accept and drains the list
  at shutdown. A thread locks one file mutex, writes the client's line to the data file, or
  performs the seek command (aesd_ioctl.h), and sends the file back. A build on a temporary
  file instead of the device has a timer that appends timestamps. The examples run commands
  (examples/systemcalls/systemcalls.c), share a mutex between threads
  (examples/threading/threading.c), write a file (finder-app/writer.c) and print two constants
  (examples/autotest-validate).

  \<^bold>\<open>Theories of the driver.\<close>
  \<^item> \<open>Prelude\<close>: machine integers, faults as values (null dereference, out of bounds, use after
    free), the heap of byte blocks, lemmas on lists and words.
  \<^item> \<open>Bounded_Log\<close>: the contract (locale) of a log with a capacity. \<open>Circular_Buffer\<close>: the
    structures and the operations of the buffer, the loop over its array, its invariant, the
    abstraction to the stored entries, the interpretation of the contract, and the search for
    a file position with its 32-bit accumulator and the debugging print of the entry found,
    which reads through the entry's pointer and may fault.
  \<^item> \<open>Kernel_Interface\<close>: the services of the kernel the driver calls (\<open>krealloc\<close>, \<open>kfree\<close>, user
    copies, the mutex, \<open>fixed_size_llseek\<close>, the ioctl macros) as a record, their documented
    behaviour as predicates, and one concrete kernel that satisfies them. \<open>checks_reads\<close> says
    whether the kernel traps a read past the end of a block: where it does not, such a read
    prints what lies there and the driver goes on.
  \<^item> \<open>Char_Driver\<close>: open, release, read and write, and the view of a device as complete lines and
    pending bytes, which read and write refine. The device has two invariants: \<open>dev_inv\<close>, which
    holds as long as no reallocation fails, and \<open>dev_wf L\<close>, which always holds, with \<open>L\<close> the
    blocks that failed reallocations lost.
  \<^item> \<open>Driver_Seek\<close>: \<open>aesd_llseek\<close> and \<open>aesd_ioctl\<close>, both with loops that might not end, and the
    table \<open>aesd_fops\<close>.
  \<^item> \<open>Byte_Stream\<close>, \<open>Device_File\<close>: the contract of a readable file, \<open>fread\<close> on it, and the open
    device as an instance, with the history of its writes and the seek by ioctl. Writing and
    seeking need a sound file (\<open>file_sound\<close>), reading a kernel that does not trap the debugging
    print, too (\<open>file_inv\<close>); so do all conversations of the server on the device.
  \<^item> \<open>Driver_Module\<close>: loading and unloading, the handlers as a step relation with both invariants
    (interpreting \<open>Transition\<close>).
  \<^item> \<open>Driver_Concurrency\<close>: reads and writes of several processes at once, each call a sequence of
    small steps (the mutex, the reallocation, the copy, the commit; the search, the copy), in
    all interleavings; the calls linearise at the release of the mutex and all return.

  \<^bold>\<open>Theories of the server.\<close>
  \<^item> \<open>Fifo_Interface\<close>, \<open>Thread_Queue\<close>: the contract of the queue of threads, and the linked list
    that provides it, on a heap of nodes with dangling pointers as faults.
  \<^item> \<open>Listener\<close>: a round of the accept loop with its cleanup labels, the reaping walk, the
    shutdown loop, and what a thread does to the shared structure at its end.
    \<open>Server_Loop\<close>: every branch of a round, and the invariant of listener and queue.
    \<open>Server_Threads\<close>: the listener, its shutdown and the threads that run as a step relation, with
    the conditions under which no freed memory is touched. \<open>Server_Main\<close>: set-up, exit, the whole
    of \<open>main\<close> with threads that end between its rounds, the signal handler.
  \<^item> \<open>Socket_Commands\<close>: \<open>strtok_r\<close>, \<open>atoi\<close> and the parsing of the seek command on a buffer
    without a guaranteed terminator. \<open>Data_File\<close>: the C library's stream before the data file, and
    the contract of the data file (a locale: reading, appending within the room there is, and
    an extension with seeking). \<open>Device_Data_File\<close> and \<open>Temp_File\<close>: the device and the temporary
    file of the other build provide it. \<open>Connection_Handler\<close>: the thread function, proved on that
    contract. \<open>Timer_Handler\<close>: the timer of the other build.
  \<^item> \<open>Shared_File\<close>: the threads of several clients under the one file mutex, as a step relation over
    the data file, with what every client gets back and the bound on the steps; whether the
    mutex is locked follows from the calls in the handler's log.
    \<open>Service\<close>: the same on the device and on the temporary file. \<open>Timer_Service\<close>: the build on the
    temporary file as a whole, with the timer among the clients under the same mutex.

  \<^bold>\<open>Theories of the examples.\<close> \<open>Systemcalls\<close> (wait statuses, \<open>fork\<close>, \<open>execv\<close>, redirection),
  \<open>Threading\<close> (interleavings of threads, with the phases of a thread ordered by progress, and
  calls on the mutex that may fail without the thread noticing), \<open>Writer\<close> (with its few lemmas),
  \<open>Autotest_Validate\<close>.

  \<^bold>\<open>Properties.\<close> \<open>Driver_Properties\<close>, \<open>Server_Properties\<close> and \<open>Example_Properties\<close> state what the
  components guarantee, and this theory what a client of server and driver together gets.
  Properties with hypotheses are applied, in theorems named after them, to concrete devices,
  servers and environments.

  \<^bold>\<open>Bounds and loops.\<close> There is no fuel. Loops that follow pointers or counters and could run
  for ever are partial functions whose value \<open>None\<close> is not returning; that they return is
  proved. The search in the circular buffer adds sizes in a 32-bit integer: it is correct
  while the ten sizes sum to less than 2^31, which the kernel's limit on one allocation
  guarantees for the driver. A thread that waits in \<open>recv\<close> for ever is the value \<open>None\<close>.

  \<^bold>\<open>Not modelled.\<close> Logging (syslog, printk), except the one print that reads through a pointer;
  address resolution and the printing of client addresses; the contents of \<open>cdev\<close>; the
  buffering of \<open>fread\<close>, which is not observable under the file mutex; the shell scripts, build
  files and tests. In the listener's model a round up to the start of its thread is one step
  and the reaping walk another, and the threads' ends are steps between them; a thread there is
  what it does to the shared structure at its end (\<open>worker_finish\<close>), and what it does before,
  with the faults it can have (a seek command without numbers), is in \<open>Connection_Handler\<close>. A
  client's conversation under the file mutex is one step of the shared file, which starts
  when its lock succeeds. The overlapping calls of
  \<open>Driver_Concurrency\<close> are reads and writes; the other two handlers that take the mutex change
  nothing of the device (\<open>llseek_mutex_only\<close>, \<open>ioctl_mutex_only\<close>).
\<close>

section \<open>A client of the server on the device\<close>

lemma client_line_shown:
  assumes "line_parts use_char parts" and "pending v = []"
  shows "contents (view_write v (concat parts)) = concat (last_n 10 (complete v @ [concat parts]))"
proof -
  have "is_line (concat parts)"
    using client_line_is_line [of use_char "\<lparr>thread_data_ptr = 1, messages = parts, later = []\<rparr>"] assms(1)
    by (simp add: client_ok_def client_line_def)
  then show ?thesis using assms(2) by (simp add: is_line_def view_write_def contents_def)
qed

text \<open>C6: a client that sends a line no longer than the largest block, in any number of messages
  and whenever the C library writes them out, gets back exactly the last ten lines the device
  holds, its own included; the library reports no error, the device then holds these lines,
  and the thread locks, opens, closes and unlocks once each.\<close>

theorem client_line_is_echoed:
  assumes "file_inv d" and "fpos d = 0" and "pending (view (wld d)) = []" and "kernel_roomy (kern d)"
    and "lock_rc env = 0" and "opened env = Some d" and "full_sends (send_rc env)"
    and "line_parts True parts" and "recvs env = map Received parts @ rest" and "p \<noteq> NULL"
    and "length (concat parts) \<le> kmalloc_max (kern d)"
  shows "\<exists>sent f'. connection_handler (device_api policy) True env p =
       Some (Inr \<lparr>final_file = Some f', sent_data = sent, log = full_log\<rparr>) \<and>
     \<not> ferror f' \<and> file_inv (dev_of f') \<and>
     complete (view (wld (dev_of f'))) = last_n 10 (complete (view (wld d)) @ [concat parts]) \<and>
     concat sent = concat (last_n 10 (complete (view (wld d)) @ [concat parts]))"
proof -
  have "length (concat parts) \<le> device_room (device_content d)"
    using assms(3,4,11) by (simp add: device_room_def device_content_def)
  from device_line.handler_line_served [OF assms(1,5,6,7,8,9,10) this, of policy]
  obtain sent f' where h: "connection_handler (device_api policy) True env p =
       Some (Inr \<lparr>final_file = Some f', sent_data = sent, log = full_log\<rparr>)"
    "\<not> ferror f'" "file_inv (dev_of f')"
    "device_content (dev_of f') = device_extend (device_content d) (concat parts)"
    "concat sent = drop (unat (fpos d)) (contents (snd (device_extend (device_content d) (concat parts))))"
    by auto
  have "view (wld (dev_of f')) = view_write (view (wld d)) (concat parts)"
    using h(4) by (simp add: device_content_def device_extend_def)
  moreover have "is_line (concat parts)"
    using client_line_is_line [of True "\<lparr>thread_data_ptr = 1, messages = parts, later = []\<rparr>"] assms(8)
    by (simp add: client_ok_def client_line_def)
  ultimately have "complete (view (wld (dev_of f'))) = last_n 10 (complete (view (wld d)) @ [concat parts])"
    using assms(3) by (simp add: is_line_def view_write_def)
  moreover have "concat sent = concat (last_n 10 (complete (view (wld d)) @ [concat parts]))"
    using h(5) client_line_shown [OF assms(8,3)] assms(2)
    by (simp add: device_content_def device_extend_def)
  ultimately show ?thesis using h by blast
qed

theorem client_line_is_echoed_witness:
  "\<exists>sent f'. connection_handler (device_api (\<lambda>_. 0)) True
         (demo_conn (map Received [[104], [105, 10]] @ []) hi_file) 100 =
       Some (Inr \<lparr>final_file = Some f', sent_data = sent, log = full_log\<rparr>) \<and>
     \<not> ferror f' \<and> file_inv (dev_of f') \<and>
     complete (view (wld (dev_of f'))) = last_n 10 (complete (view (wld hi_file)) @ [concat [[104], [105, 10]]]) \<and>
     concat sent = concat (last_n 10 (complete (view (wld hi_file)) @ [concat [[104], [105, 10]]]))"
proof (rule client_line_is_echoed)
  show "line_parts True [[104], [105, 10]]"
    by (simp add: line_parts_def RECV_BUFFER_LEN_def is_seek_command_def keyword_length)
  show "length (concat [[104], [105, 10 :: byte]]) \<le> kmalloc_max (kern hi_file)"
    by (simp add: hi_file_facts demo_kernel_def)
qed (simp_all add: hi_file_facts)

text \<open>C14: a client that sends a seek command gets the rest of the line sought from the byte
  sought, and all later lines; without such a line or byte, it gets the whole file. The
  history is unchanged and the library reports no error.\<close>

theorem client_seek_is_served:
  assumes "file_inv d" and "fpos d = 0"
    and "lock_rc env = 0" and "opened env = Some d" and "full_sends (send_rc env)"
    and "recvs env = Received (seek_command a b) # rest" and "a < 2 ^ 32" and "b < 2 ^ 32" and "p \<noteq> NULL"
  shows "\<exists>sent f'. connection_handler (device_api policy) True env p =
       Some (Inr \<lparr>final_file = Some f', sent_data = sent, log = full_log\<rparr>) \<and>
     \<not> ferror f' \<and> view (wld (dev_of f')) = view (wld d) \<and>
     concat sent =
       (let ls = complete (view (wld d)) in
        if a < length ls \<and> b \<le> length (ls ! a) then drop b (ls ! a) @ concat (drop (Suc a) ls)
        else concat ls)"
  using device_line.handler_seek [OF assms(1,3,4,5,6,7,8,9), of policy] assms(2)
  unfolding Let_def contents_def device_content_def snd_conv prod.inject by auto

theorem client_seek_is_served_witness:
  "\<exists>sent f'. connection_handler (device_api (\<lambda>_. 0)) True (demo_conn [Received (seek_command 0 1)] hi_file) 100 =
       Some (Inr \<lparr>final_file = Some f', sent_data = sent, log = full_log\<rparr>) \<and>
     \<not> ferror f' \<and> view (wld (dev_of f')) = view (wld hi_file) \<and>
     concat sent =
       (let ls = complete (view (wld hi_file)) in
        if 0 < length ls \<and> 1 \<le> length (ls ! 0) then drop 1 (ls ! 0) @ concat (drop (Suc 0) ls)
        else concat ls)"
  by (rule client_seek_is_served) (simp_all add: hi_file_facts)

section \<open>Many clients\<close>

text \<open>C5: whatever the order in which the threads of the clients get the file mutex, the reply to
  a client consists of the last ten lines of what the device held at the start and the lines
  of the clients up to and including this one, in that order; and that is what the device
  holds in the end.\<close>

theorem clients_see_a_common_order:
  assumes "device_clients_ok d clients"
    and "(service_step (device_api policy) True reopen_device clients)\<^sup>*\<^sup>* (service_start d) s"
  defines "shown is \<equiv> last_n 10 (complete (view (wld d)) @ map (\<lambda>i. client_line (clients ! i)) is)"
  shows "distinct (finished s) \<and> complete (view (wld (disk s))) = shown (finished s) \<and>
     (\<forall>k < length (finished s). replies s (finished s ! k) = Some (concat (shown (take (Suc k) (finished s)))))"
proof -
  note d = device_clientsD [OF assms(1)]
  have inv: "device_service.service_inv clients (device_content d) s" by (rule device_run [OF assms(1,2)])
  then have fin: "set (finished s) \<subseteq> {..<length clients}" "distinct (finished s)"
    by (auto simp: device_service.service_inv_def finished_def split: option.splits dest: in_set_butlastD distinct_butlast)
  have lines: "device_service.content_of clients (device_content d) is =
      (kern d, \<lparr>complete = shown is, pending = []\<rparr>)" if "set is \<subseteq> set (finished s)" for "is"
    using device_lines [OF d(4,3,2), of "is" "kern d"] that fin(1)
    by (simp add: device_content_def shown_def subset_trans)
  have "device_content (disk s) = (kern d, \<lparr>complete = shown (finished s), pending = []\<rparr>)"
    using inv lines [of "finished s"] by (simp add: device_service.service_inv_def)
  moreover have "replies s (finished s ! k) = Some (concat (shown (take (Suc k) (finished s))))"
    if "k < length (finished s)" for k
  proof -
    have "replies s (finished s ! k) =
        Some (contents (snd (device_service.content_of clients (device_content d) (take (Suc k) (finished s)))))"
      using inv that by (simp add: device_service.service_inv_def)
    then show ?thesis unfolding lines [OF set_take_subset] by (simp add: contents_def)
  qed
  ultimately show ?thesis using fin(2) by (simp add: device_content_def)
qed

text \<open>C7: no client is left waiting: the mutex is locked exactly while a thread is in its
  conversation, because the handler unlocks it itself; every run ends, as a client takes the
  mutex once and converses once; and where no further step is possible the mutex is free and
  every client has its reply.\<close>

theorem every_client_is_answered:
  assumes "device_clients_ok d clients"
    and "(service_step (device_api policy) True reopen_device clients ^^ n) (service_start d) s"
  shows "(file_mutex s \<longleftrightarrow> busy s \<noteq> None) \<and> n \<le> 2 * length clients \<and>
     ((\<nexists>s'. service_step (device_api policy) True reopen_device clients s s') \<longrightarrow>
        \<not> file_mutex s \<and> (\<forall>i < length clients. replies s i \<noteq> None))"
proof -
  note d = device_clientsD [OF assms(1)]
  have start: "device_service.service_inv clients (device_content d) (service_start d)"
    using device_service.service_inv_start d(1) by blast
  have "n \<le> 2 * length clients"
    using device_service.service_steps_bound [OF assms(2) start d(2,5)]
    by (simp add: service_work_def service_start_def)
  moreover have inv: "device_service.service_inv clients (device_content d) s"
    using device_run [OF assms(1)] assms(2) by (metis relpowp_imp_rtranclp)
  moreover have "\<not> file_mutex s \<and> (\<forall>i < length clients. replies s i \<noteq> None)"
    if stuck: "\<nexists>s'. service_step (device_api policy) True reopen_device clients s s'"
  proof -
    from device_service.service_progress [OF inv d(2,5) stuck]
    have all: "\<not> file_mutex s" "busy s = None" "set (served s) = {..<length clients}" by blast+
    then have fin: "finished s = served s" by (simp add: finished_def)
    have "replies s i \<noteq> None" if "i < length clients" for i
    proof -
      have "i \<in> set (finished s)" using all(3) that by (simp add: fin)
      then obtain k where "k < length (finished s)" "finished s ! k = i" by (auto simp: in_set_conv_nth)
      with inv show ?thesis by (auto simp: device_service.service_inv_def)
    qed
    then show ?thesis using all(1) by blast
  qed
  ultimately show ?thesis by (auto simp: device_service.service_inv_def)
qed

text \<open>In the build on the temporary file every client gets back the whole file: what it held
  at the start and the lines of all clients up to and including this one, nothing lost.\<close>

theorem temp_file_clients_see_everything:
  assumes "temp_clients_ok d clients"
    and "(service_step (temp_api policy) False reopen_temp clients)\<^sup>*\<^sup>* (service_start d) s"
  shows "tbytes (disk s) = tbytes d @ concat (map (\<lambda>i. client_line (clients ! i)) (finished s)) \<and>
     (\<forall>k < length (finished s). replies s (finished s ! k) =
        Some (tbytes d @ concat (map (\<lambda>i. client_line (clients ! i)) (take (Suc k) (finished s)))))"
  using temp_run [OF assms]
  by (simp add: temp_service.service_inv_def temp_lines temp_content_def)

text \<open>C17: also when the timer appends its timestamps among them, in any order, and as long as the
  disk has room and no write of the timer is cut short, the temporary file consists of what it
  held at the start, whole lines and whole timestamps; a client whose line is in the file got
  back the file up to and including its line. Every run ends; and if the timer can always open
  the file, then where no step is possible the timer has had all its runs and no client is
  without its reply.\<close>

theorem temp_file_grows_by_whole_pieces:
  assumes "timed_ok d clients envs"
    and "(timed_step policy clients ^^ n) (timed_start d envs) t"
  shows "tbytes (disk (service_of t)) = tbytes d @ concat (map snd (pieces t)) \<and>
     (\<forall>k < length (pieces t). case fst (pieces t ! k) of
        ByClient i \<Rightarrow>
          snd (pieces t ! k) = client_line (clients ! i) \<and>
          replies (service_of t) i = Some (tbytes d @ concat (map snd (take (Suc k) (pieces t))))
      | ByTimer \<Rightarrow> \<exists>env \<in> set envs. \<exists>tm. local_time env = Some tm \<and> snd (pieces t ! k) = timestamp tm) \<and>
     n \<le> 2 * length clients + length envs \<and>
     ((\<forall>env \<in> set envs. file_opens env) \<longrightarrow> (\<nexists>t'. timed_step policy clients t t') \<longrightarrow>
        ticks t = [] \<and> (\<forall>i < length clients. replies (service_of t) i \<noteq> None))"
proof -
  note start = timed_inv_start [OF assms(1)]
  have inv: "timed_inv clients envs d t"
    using timed.run_inv [OF relpowp_imp_rtranclp [OF assms(2)] start] .
  have "n \<le> 2 * length clients + length envs"
    using timed_steps_bound [OF assms(2) start]
    by (simp add: timed_work_def service_work_def timed_start_def service_start_def)
  with inv timed_progress [OF inv] show ?thesis
    unfolding timed_inv_def written_def piece_ok_def by blast
qed

text \<open>C39: a run of the timer that cannot open the file keeps the mutex: no client is answered after
  it and nothing is written to the file any more.\<close>

theorem timer_open_failure_starves_clients:
  assumes "ticks t = env # rest" and "busy (service_of t) = None" and "\<not> file_mutex (service_of t)"
    and "LockFile \<in> set (timer_expired_handler env)" and "\<not> file_opens env"
  shows "\<exists>t'. timed_step policy clients t t' \<and>
     (\<forall>t''. (timed_step policy clients)\<^sup>*\<^sup>* t' t'' \<longrightarrow>
        replies (service_of t'') = replies (service_of t) \<and>
        tbytes (disk (service_of t'')) = tbytes (disk (service_of t)))"
proof -
  obtain t' where t': "timed_step policy clients t t'"
      "starved (replies (service_of t)) (tbytes (disk (service_of t))) t'"
    using starves [OF assms] by blast
  then have "starved (replies (service_of t)) (tbytes (disk (service_of t))) t''"
    if "(timed_step policy clients)\<^sup>*\<^sup>* t' t''" for t''
    using starved.run_inv [OF that] by blast
  then show ?thesis using t'(1) unfolding starved_def by blast
qed

subsection \<open>Two concrete clients\<close>

definition hi_client :: client where
  "hi_client = \<lparr>thread_data_ptr = 100, messages = [[104], [105, 10]], later = []\<rparr>"

lemma hi_client_facts: "client_ok use_char hi_client" "client_line hi_client = hi_line"
  by (simp_all add: client_ok_def hi_client_def line_parts_def RECV_BUFFER_LEN_def is_seek_command_def
      keyword_length client_line_def hi_line_def)

lemma hi_clients_ok: "device_clients_ok hi_file [hi_client, hi_client]"
  by (simp add: device_clients_ok_def hi_file_facts hi_client_facts hi_line_def)
    (simp add: demo_kernel_def)

definition demo_temp :: temp_file where
  "demo_temp = \<lparr>tbytes = [97, 10], toffs = 0, disk_free = 100\<rparr>"

lemma hi_temp_ok: "temp_clients_ok demo_temp [hi_client, hi_client]"
  by (simp add: temp_clients_ok_def hi_client_facts hi_line_def demo_temp_def)

text \<open>A run in which the second client is served first and the first then gets the mutex.\<close>

lemma demo_service_run:
  fixes sv :: "'d service"
  assumes "\<exists>sent f. connection_handler api use_char (client_env reopen hi_client (disk sv)) 100 =
       Some (Inr \<lparr>final_file = Some f, sent_data = sent, log = full_log\<rparr>)"
    and "\<not> file_mutex sv" and "busy sv = None" and "served sv = []"
  shows "\<exists>s. (service_step api use_char reopen [hi_client, hi_client] ^^ 3) sv s \<and>
     busy s = Some 0 \<and> served s = [1, 0] \<and> finished s = [1]"
proof -
  let ?step = "service_step api use_char reopen [hi_client, hi_client]"
  let ?s1 = "sv\<lparr>file_mutex := True, busy := Some 1, served := served sv @ [1]\<rparr>"
  obtain sent f where h: "connection_handler api use_char (client_env reopen hi_client (disk sv)) 100 =
       Some (Inr \<lparr>final_file = Some f, sent_data = sent, log = full_log\<rparr>)" using assms(1) by blast
  let ?out = "\<lparr>final_file = Some f, sent_data = sent, log = full_log\<rparr>"
  let ?s2 = "?s1\<lparr>disk := dev_of f, file_mutex := mutex_after (log ?out) (file_mutex ?s1), busy := None,
      replies := (replies ?s1)(1 \<mapsto> concat (sent_data ?out))\<rparr>"
  let ?s3 = "?s2\<lparr>file_mutex := True, busy := Some 0, served := served ?s2 @ [0]\<rparr>"
  have "?step sv ?s1" by (rule service_step.lock_file) (simp_all add: assms)
  moreover have "?step ?s1 ?s2"
    by (rule service_step.converse) (use h in \<open>simp_all add: hi_client_def\<close>)
  moreover have "?step ?s2 ?s3"
    by (rule service_step.lock_file) (simp_all add: assms full_log_mutex)
  ultimately have "(?step ^^ 3) sv ?s3" by (auto simp: numeral_3_eq_3)
  moreover have "busy ?s3 = Some 0" "served ?s3 = [1, 0]" "finished ?s3 = [1]" by (simp_all add: assms finished_def)
  ultimately show ?thesis by blast
qed

lemma device_hi_run:
  "\<exists>s. (service_step (device_api (\<lambda>_. 0)) True reopen_device [hi_client, hi_client] ^^ 3) (service_start hi_file) s \<and>
     busy s = Some 0 \<and> served s = [1, 0] \<and> finished s = [1]"
proof (rule demo_service_run)
  note d = device_clientsD [OF hi_clients_ok]
  let ?s = "\<lparr>disk = hi_file, file_mutex = True, busy = Some 0, served = [0], replies = Map.empty\<rparr>"
  have "device_service.service_inv [hi_client, hi_client] (device_content hi_file) ?s"
    using d(1) by (simp add: device_service.service_inv_def finished_def device_service.content_of_def)
  from device_service.conversation [OF this, of 0 True "\<lambda>_. 0", OF _ d(2,5)]
  show "\<exists>sent f. connection_handler (device_api (\<lambda>_. 0)) True
       (client_env reopen_device hi_client (disk (service_start hi_file))) 100 =
       Some (Inr \<lparr>final_file = Some f, sent_data = sent, log = full_log\<rparr>)"
    by (auto simp: service_start_def hi_client_def)
qed (simp_all add: service_start_def)

theorem clients_see_a_common_order_witness:
  "\<exists>s :: device_file service. replies s 1 = Some (hi_line @ hi_line) \<and> complete (view (wld (disk s))) = [hi_line, hi_line]"
proof -
  obtain s where run: "(service_step (device_api (\<lambda>_. 0)) True reopen_device [hi_client, hi_client] ^^ 3) (service_start hi_file) s"
    and fin: "finished s = [1]" using device_hi_run by blast
  note clients_see_a_common_order [OF hi_clients_ok relpowp_imp_rtranclp [OF run]]
  then have "complete (view (wld (disk s))) = last_n 10 ([hi_line] @ [hi_line]) \<and>
      replies s 1 = Some (concat (last_n 10 ([hi_line] @ [hi_line])))"
    by (simp add: fin hi_file_facts hi_client_facts)
  then show ?thesis by (intro exI [of _ s]) simp
qed

theorem every_client_is_answered_witness:
  "\<exists>s :: device_file service. replies s 0 \<noteq> None \<and> replies s 1 \<noteq> None"
proof -
  let ?cs = "[hi_client, hi_client]"
  let ?step = "service_step (device_api (\<lambda>_. 0)) True reopen_device ?cs"
  obtain s where run: "(?step ^^ 3) (service_start hi_file) s"
    and s: "busy s = Some 0" "served s = [1, 0]" using device_hi_run by blast
  note d = device_clientsD [OF hi_clients_ok]
  have "device_service.service_inv ?cs (device_content hi_file) s"
    using device_run [OF hi_clients_ok relpowp_imp_rtranclp [OF run]] .
  from device_service.conversation [OF this s(1) d(2,5), of "\<lambda>_. 0"]
  obtain s' where "?step s s'" "busy s' = None" "served s' = [1, 0]"
    using service_step.converse [OF s(1), of "device_api (\<lambda>_. 0)" True reopen_device ?cs] s(2) by fastforce
  moreover from this have "\<nexists>t. ?step s' t" by (auto elim!: service_step.cases simp: less_Suc_eq)
  ultimately have "\<forall>i < length ?cs. replies s' i \<noteq> None"
    using every_client_is_answered [OF hi_clients_ok relpowp_Suc_I [OF run]] by blast
  then show ?thesis by (intro exI [of _ s']) auto
qed

theorem temp_file_clients_see_everything_witness:
  "\<exists>s :: temp_file service. replies s 1 = Some ([97, 10] @ hi_line) \<and> tbytes (disk s) = [97, 10] @ hi_line"
proof -
  let ?s = "\<lparr>disk = demo_temp, file_mutex = True, busy = Some 0, served = [0], replies = Map.empty\<rparr>"
  have ok: "\<forall>c \<in> set [hi_client, hi_client]. client_ok False c" by (simp add: hi_client_facts)
  have "temp_service.service_inv [hi_client, hi_client] (temp_content demo_temp) ?s"
    by (simp add: temp_service.service_inv_def finished_def temp_service.content_of_def)
  from temp_service.conversation [OF this, of 0 False "\<lambda>_. 0", OF _ ok temp_room [OF hi_temp_ok]]
  have "\<exists>sent f. connection_handler (temp_api (\<lambda>_. 0)) False
       (client_env reopen_temp hi_client (disk (service_start demo_temp))) 100 =
       Some (Inr \<lparr>final_file = Some f, sent_data = sent, log = full_log\<rparr>)"
    by (auto simp: service_start_def hi_client_def)
  from demo_service_run [OF this] obtain s where
    run: "(service_step (temp_api (\<lambda>_. 0)) False reopen_temp [hi_client, hi_client] ^^ 3) (service_start demo_temp) s"
    and fin: "finished s = [1]" by (auto simp: service_start_def)
  from temp_file_clients_see_everything [OF hi_temp_ok relpowp_imp_rtranclp [OF run]]
  show ?thesis by (intro exI [of _ s]) (simp add: fin hi_client_facts demo_temp_def)
qed

definition noon :: "bool \<Rightarrow> timer_env" where
  "noon opens =
     \<lparr>time_ok = True, tm_malloc = 8,
      local_time = Some \<lparr>tm_year = 125, tm_mon = 0, tm_mday = 1, tm_hour = 12, tm_min = 0, tm_sec = 0\<rparr>,
      timer_data_ptr = 9, timer_lock_rc = 0, file_opens = opens, fwrite_short = 0\<rparr>"

theorem temp_file_grows_by_whole_pieces_witness:
  "\<exists>t :: timed. tbytes (disk (service_of t)) = [97, 10] @ timestamp (the (local_time (noon True))) @ hi_line \<and>
     replies (service_of t) 0 = Some (tbytes (disk (service_of t)))"
proof -
  let ?stamp = "timestamp (the (local_time (noon True)))" and ?evs = "timer_expired_handler (noon True)"
  let ?step = "timed_step (\<lambda>_. 0) [hi_client]"
  have evs: "?evs = [AllocTm 8, LockFile, OpenFile, Append ?stamp, CloseFile, UnlockFile, FreeTm 8]"
    using timer_appends [of "noon True"] by (simp add: noon_def)
  have stamp: "length ?stamp < 60" by (rule timestamp_short) (simp add: noon_def)
  have ok: "timed_ok demo_temp [hi_client] [noon True]"
    using stamp by (simp add: timed_ok_def hi_client_facts ticks_left_def evs hi_line_def demo_temp_def)
      (simp add: noon_def)
  let ?t0 = "timed_start demo_temp [noon True]"
  obtain t1 where t1: "?step ?t0 t1" "pieces t1 = [(ByTimer, ?stamp)]" "busy (service_of t1) = None"
      "\<not> file_mutex (service_of t1)" "served (service_of t1) = []" "ticks t1 = []"
      "disk (service_of t1) = timer_effect ?evs demo_temp"
    using timed_step.tick [of ?t0 "noon True" "[]" ?evs "\<lambda>_. 0" "[hi_client]"]
      timestamp_length [of "the (local_time (noon True))"]
    by (force simp: timed_start_def service_start_def evs)
  let ?s2 = "(service_of t1)\<lparr>file_mutex := True, busy := Some 0, served := [0]\<rparr>"
  let ?t2 = "t1\<lparr>service_of := ?s2, pieces := pieces t1 @ piece_of [hi_client] None\<rparr>"
  have "service_step (temp_api (\<lambda>_. 0)) False reopen_temp [hi_client] (service_of t1) ?s2"
    using service_step.lock_file [of "service_of t1" 0 "[hi_client]"] t1 by simp
  from timed_step.client [OF this] have t2: "?step t1 ?t2" using t1(3) by simp
  have "disk_free (disk (service_of t1)) \<ge> length (client_line hi_client)"
    using t1(7) stamp timer_effect_room [of ?evs demo_temp]
    by (simp add: evs demo_temp_def hi_client_facts hi_line_def)
  from temp_conversation [OF hi_client_facts(1) this, of "\<lambda>_. 0"] obtain sent g where
    conv: "connection_handler (temp_api (\<lambda>_. 0)) False (client_env reopen_temp hi_client (disk (service_of t1)))
       (thread_data_ptr hi_client) = Some (Inr \<lparr>final_file = Some g, sent_data = sent, log = full_log\<rparr>)"
    by blast
  let ?s3 = "?s2\<lparr>disk := dev_of g, file_mutex := mutex_after full_log True, busy := None,
      replies := (replies ?s2)(0 \<mapsto> concat sent)\<rparr>"
  let ?t3 = "?t2\<lparr>service_of := ?s3, pieces := pieces ?t2 @ piece_of [hi_client] (Some 0)\<rparr>"
  have "service_step (temp_api (\<lambda>_. 0)) False reopen_temp [hi_client] ?s2 ?s3"
    using service_step.converse [of ?s2 0 "temp_api (\<lambda>_. 0)" False reopen_temp "[hi_client]"
        "\<lparr>final_file = Some g, sent_data = sent, log = full_log\<rparr>" g] conv by simp
  then have t3: "?step ?t2 ?t3" using timed_step.client [of "\<lambda>_. 0" "[hi_client]" ?t2 ?s3] by simp
  have run: "(?step ^^ 3) ?t0 ?t3" using t1(1) t2 t3 by (auto simp: numeral_3_eq_3)
  have "\<nexists>t'. ?step ?t3 t'"
    by (auto elim!: timed_step.cases service_step.cases simp: t1)
  moreover have "\<forall>env \<in> set [noon True]. file_opens env" by (simp add: noon_def)
  moreover note temp_file_grows_by_whole_pieces [OF ok run]
  ultimately have "replies (service_of ?t3) 0 \<noteq> None"
      "tbytes (disk (service_of ?t3)) = tbytes demo_temp @ concat (map snd (pieces ?t3))"
      "case fst (pieces ?t3 ! 1) of
        ByClient i \<Rightarrow> replies (service_of ?t3) i = Some (tbytes demo_temp @ concat (map snd (take (Suc 1) (pieces ?t3))))
      | ByTimer \<Rightarrow> True"
    by (auto simp: t1 piece_of_def)
  then show ?thesis
    by (intro exI [of _ ?t3]) (simp add: t1 piece_of_def demo_temp_def hi_client_facts)
qed

theorem timer_open_failure_starves_clients_witness:
  "\<exists>t'. timed_step (\<lambda>_. 0) [hi_client] (timed_start demo_temp [noon False]) t' \<and> replies (service_of t') = Map.empty"
proof -
  have "length (timestamp (the (local_time (noon False)))) < 60"
    by (rule timestamp_short) (simp add: noon_def)
  then have "LockFile \<in> set (timer_expired_handler (noon False))"
    using timestamp_length by (simp add: timer_expired_handler_def noon_def strftime_def Let_def)
  from timer_open_failure_starves_clients [OF _ _ _ this, of "timed_start demo_temp [noon False]" "[]" "\<lambda>_. 0" "[hi_client]"]
  show ?thesis by (force simp: timed_start_def service_start_def noon_def)
qed

end
